(* ===== verification/Prelude.thy ===== *)
theory Prelude
  imports Main "HOL-Library.Word" "HOL-Library.Monad_Syntax"
begin

text \<open>
  What every component of the development shares: the machine types of the C code and their
  wrap-around, the \<^verbatim>\<open>errno\<close> values, a total-correctness judgement on computations that may fail,
  the malloc heap, bounds-checked memory copies, and the list facts behind ring buffers and
  the splitting of a message in blocks.
\<close>

unbundle bit_operations_syntax

named_theorems blk_simps \<open>unfolding rules of the model's straight-line operations\<close>
named_theorems ens_intros \<open>rules that prove that a computation returns\<close>

section \<open>Machine types\<close>

type_synonym byte = "8 word"
type_synonym bytes = "byte list"

text \<open>
  \<^verbatim>\<open>unsigned\<close> and \<^verbatim>\<open>uint32_t\<close> values are naturals reduced modulo \<open>2 ^ 32\<close>, \<^verbatim>\<open>size_t\<close> and
  \<^verbatim>\<open>uint64_t\<close> values modulo \<open>2 ^ 64\<close>, and \<^verbatim>\<open>int64_t\<close> values are integers in two's complement
  range.
\<close>

definition u32 :: "nat \<Rightarrow> nat" where
  "u32 n = n mod 2 ^ 32"

definition u64 :: "nat \<Rightarrow> nat" where
  "u64 n = n mod 2 ^ 64"

definition sub64 :: "nat \<Rightarrow> nat \<Rightarrow> nat" where
  "sub64 a b = (if b \<le> a then u64 (a - b) else u64 (2 ^ 64 - u64 (b - a)))"

definition sub32 :: "nat \<Rightarrow> nat \<Rightarrow> nat" where
  "sub32 a b = (if b \<le> a then u32 (a - b) else u32 (2 ^ 32 - u32 (b - a)))"

definition s64 :: "int \<Rightarrow> int" where
  "s64 i = (i + 2 ^ 63) mod 2 ^ 64 - 2 ^ 63"

lemma u32_id [simp]: "n < 2 ^ 32 \<Longrightarrow> u32 n = n"
  by (simp add: u32_def)

lemma u64_id [simp]: "n < 2 ^ 64 \<Longrightarrow> u64 n = n"
  by (simp add: u64_def)

lemma u32_less [simp]: "u32 n < 2 ^ 32"
  by (simp add: u32_def)

lemma sub64_id [simp]: "b \<le> a \<Longrightarrow> a < 2 ^ 64 \<Longrightarrow> sub64 a b = a - b"
  by (simp add: sub64_def u64_def)

lemma sub32_id [simp]: "b \<le> a \<Longrightarrow> a < 2 ^ 32 \<Longrightarrow> sub32 a b = a - b"
  by (simp add: sub32_def u32_def)

lemma s64_id [simp]: "- (2 ^ 63) \<le> i \<Longrightarrow> i < 2 ^ 63 \<Longrightarrow> s64 i = i"
  by (simp add: s64_def)

section \<open>Error numbers\<close>

abbreviation EPERM :: int where "EPERM \<equiv> 1"
abbreviation ENOENT :: int where "ENOENT \<equiv> 2"
abbreviation EINTR :: int where "EINTR \<equiv> 4"
abbreviation EIO :: int where "EIO \<equiv> 5"
abbreviation EAGAIN :: int where "EAGAIN \<equiv> 11"
abbreviation ENOMEM :: int where "ENOMEM \<equiv> 12"
abbreviation EINVAL :: int where "EINVAL \<equiv> 22"
abbreviation ENOTSUP :: int where "ENOTSUP \<equiv> 95"
abbreviation ENOBUFS :: int where "ENOBUFS \<equiv> 105"

section \<open>Computations that may not return\<close>

text \<open>
  An operation that touches memory returns an option: \<open>None\<close> stands for everything after which
  the C program has no defined behaviour or never continues (a failed \<^verbatim>\<open>assert\<close>, \<^verbatim>\<open>abort\<close>, an
  access to memory that is not allocated, a wait that is never woken). \<open>ensures m Q\<close> is total
  correctness: the operation returns, and \<open>Q\<close> holds for what it returns.
\<close>

definition ensures :: "'a option \<Rightarrow> ('a \<Rightarrow> bool) \<Rightarrow> bool" where
  "ensures m Q \<longleftrightarrow> (\<exists>x. m = Some x \<and> Q x)"

lemma ensures_Some [simp]: "ensures (Some x) Q \<longleftrightarrow> Q x"
  by (simp add: ensures_def)

lemma ensures_None [simp]: "\<not> ensures None Q"
  by (simp add: ensures_def)

lemma ensures_bind [simp]:
  "ensures (Option.bind m f) Q \<longleftrightarrow> ensures m (\<lambda>x. ensures (f x) Q)"
  by (cases m) simp_all

lemma ensures_mono: "ensures m P \<Longrightarrow> (\<And>x. P x \<Longrightarrow> Q x) \<Longrightarrow> ensures m Q"
  by (auto simp: ensures_def)

lemma ensures_conjI: "ensures m P \<Longrightarrow> ensures m Q \<Longrightarrow> ensures m (\<lambda>x. P x \<and> Q x)"
  by (auto simp: ensures_def)

lemma ensuresD: "m = Some x \<Longrightarrow> ensures m Q \<Longrightarrow> Q x"
  by (simp add: ensures_def)

lemma ensuresE:
  assumes "ensures m Q"
  obtains x where "m = Some x" and "Q x"
  using assms by (auto simp: ensures_def)

definition assert_that :: "bool \<Rightarrow> unit option" where
  "assert_that b = (if b then Some () else None)"

lemma ensures_assert [simp]: "ensures (assert_that b) Q \<longleftrightarrow> b \<and> Q ()"
  by (simp add: assert_that_def)

section \<open>The malloc heap\<close>

text \<open>
  Objects that are allocated, shared through pointers and freed live in a heap: addresses are
  numbers, never reused, and an access to an address that holds no object is \<open>None\<close>, so that a
  use after free and a double free stop the model.
\<close>

record 'a heap =
  cells :: "nat \<Rightarrow> 'a option"
  fresh :: nat

definition heap_empty :: "'a heap" where
  "heap_empty = \<lparr>cells = (\<lambda>_. None), fresh = 0\<rparr>"

definition heap_new :: "'a \<Rightarrow> 'a heap \<Rightarrow> nat \<times> 'a heap" where
  "heap_new v H = (fresh H, H\<lparr>cells := (cells H)(fresh H \<mapsto> v), fresh := Suc (fresh H)\<rparr>)"

definition heap_put :: "nat \<Rightarrow> 'a \<Rightarrow> 'a heap \<Rightarrow> 'a heap option" where
  "heap_put p v H =
     (case cells H p of None \<Rightarrow> None | Some _ \<Rightarrow> Some (H\<lparr>cells := (cells H)(p \<mapsto> v)\<rparr>))"

definition heap_free :: "nat \<Rightarrow> 'a heap \<Rightarrow> 'a heap option" where
  "heap_free p H =
     (case cells H p of None \<Rightarrow> None | Some _ \<Rightarrow> Some (H\<lparr>cells := (cells H)(p := None)\<rparr>))"

definition heap_ok :: "'a heap \<Rightarrow> bool" where
  "heap_ok H \<longleftrightarrow> (\<forall>p. cells H p \<noteq> None \<longrightarrow> p < fresh H)"

lemma heap_ok_empty [simp]: "heap_ok heap_empty"
  by (simp add: heap_ok_def heap_empty_def)

lemma cells_heap_empty [simp]: "cells heap_empty p = None"
  by (simp add: heap_empty_def)

lemma heap_ok_fresh [simp]: "heap_ok H \<Longrightarrow> cells H (fresh H) = None"
  by (metis heap_ok_def less_irrefl)

lemma heap_ok_upd [simp]:
  "heap_ok H \<Longrightarrow> cells H p \<noteq> None \<Longrightarrow> heap_ok (H\<lparr>cells := (cells H)(p \<mapsto> v)\<rparr>)"
  by (auto simp: heap_ok_def)

lemma heap_ok_del [simp]: "heap_ok H \<Longrightarrow> heap_ok (H\<lparr>cells := (cells H)(p := None)\<rparr>)"
  by (auto simp: heap_ok_def)

lemma heap_ok_alloc [simp]:
  "heap_ok H \<Longrightarrow>
   heap_ok (H\<lparr>cells := (cells H)(fresh H \<mapsto> v), fresh := Suc (fresh H)\<rparr>)"
  by (auto simp: heap_ok_def less_Suc_eq)

lemma ensures_heap_put [simp]:
  "ensures (heap_put p v H) Q \<longleftrightarrow>
     cells H p \<noteq> None \<and> Q (H\<lparr>cells := (cells H)(p \<mapsto> v)\<rparr>)"
  by (auto simp: heap_put_def split: option.splits)

lemma ensures_heap_free [simp]:
  "ensures (heap_free p H) Q \<longleftrightarrow>
     cells H p \<noteq> None \<and> Q (H\<lparr>cells := (cells H)(p := None)\<rparr>)"
  by (auto simp: heap_free_def split: option.splits)

text \<open>
  Whether an allocation (or the creation of a thread, a mutex, a condition) succeeds is decided
  by the environment: the \<open>faults\<close> of a state hold the outcomes of the next acquisitions,
  \<open>True\<close> for one that fails, and acquisitions beyond the list succeed.
\<close>

fun acquire :: "bool list \<Rightarrow> bool \<times> bool list" where
  "acquire [] = (True, [])"
| "acquire (f # fs) = (\<not> f, fs)"

text \<open>
  A pointer to an array that one structure owns is \<^verbatim>\<open>NULL\<close>, allocated, or dangling after its
  \<^verbatim>\<open>free\<close>; freeing a dangling pointer is the double free that stops the model.
\<close>

datatype owned = Null | Allocated | Dangling

fun free_owned :: "owned \<Rightarrow> owned option" where
  "free_owned Null = Some Null"
| "free_owned Allocated = Some Dangling"
| "free_owned Dangling = None"

section \<open>Arrays of bytes\<close>

text \<open>\<^verbatim>\<open>memcpy\<close> and \<^verbatim>\<open>memset\<close> into an array, refused when they run past its end.\<close>

definition memcpy_at :: "'a list \<Rightarrow> nat \<Rightarrow> 'a list \<Rightarrow> 'a list option" where
  "memcpy_at dst off src =
     (if off + length src \<le> length dst
      then Some (take off dst @ src @ drop (off + length src) dst) else None)"

definition memset_at :: "bytes \<Rightarrow> nat \<Rightarrow> byte \<Rightarrow> nat \<Rightarrow> bytes option" where
  "memset_at dst off c n = memcpy_at dst off (replicate n c)"

definition load_array :: "'a list \<Rightarrow> nat \<Rightarrow> 'a list option" where
  "load_array src n = (if n \<le> length src then Some (take n src) else None)"

lemma ensures_memcpy [simp]:
  "ensures (memcpy_at dst off src) Q \<longleftrightarrow>
     off + length src \<le> length dst \<and> Q (take off dst @ src @ drop (off + length src) dst)"
  by (simp add: memcpy_at_def)

lemma ensures_memset [simp]:
  "ensures (memset_at dst off c n) Q \<longleftrightarrow>
     off + n \<le> length dst \<and> Q (take off dst @ replicate n c @ drop (off + n) dst)"
  by (simp add: memset_at_def)

lemma ensures_load_array [simp]:
  "ensures (load_array src n) Q \<longleftrightarrow> n \<le> length src \<and> Q (take n src)"
  by (simp add: load_array_def)

abbreviation zeros :: "nat \<Rightarrow> bytes" where
  "zeros n \<equiv> replicate n 0"

text \<open>
  The bytes of a \<^verbatim>\<open>uint64_t\<close> in memory, least significant byte first, and in the order of the
  host.
\<close>

definition le_bytes :: "64 word \<Rightarrow> bytes" where
  "le_bytes w = map (\<lambda>i. ucast (drop_bit (8 * i) w)) [0..<8]"

definition host_bytes :: "bool \<Rightarrow> 64 word \<Rightarrow> bytes" where
  "host_bytes little_endian w = (if little_endian then le_bytes w else rev (le_bytes w))"

lemma length_le_bytes [simp]: "length (le_bytes w) = 8"
  by (simp add: le_bytes_def)

lemma length_host_bytes [simp]: "length (host_bytes b w) = 8"
  by (simp add: host_bytes_def)

section \<open>Rings\<close>

text \<open>
  The elements of a ring buffer in queue order: \<open>n\<close> slots from \<open>head\<close> on, around the end of the
  array.
\<close>

definition ring_list :: "'a list \<Rightarrow> nat \<Rightarrow> nat \<Rightarrow> 'a list" where
  "ring_list ring head n = map (\<lambda>i. ring ! ((head + i) mod length ring)) [0..<n]"

lemma length_ring_list [simp]: "length (ring_list ring head n) = n"
  by (simp add: ring_list_def)

lemma ring_list_0 [simp]: "ring_list ring head 0 = []"
  by (simp add: ring_list_def)

lemma ring_list_nth [simp]:
  "i < n \<Longrightarrow> ring_list ring head n ! i = ring ! ((head + i) mod length ring)"
  by (simp add: ring_list_def)

lemma mod_ring_neq:
  assumes "(i::nat) < n" and "n < k"
  shows "(head + i) mod k \<noteq> (head + n) mod k"
proof
  assume "(head + i) mod k = (head + n) mod k"
  then have "k dvd (head + n) - (head + i)"
    using assms by (metis mod_eq_dvd_iff_nat add_le_cancel_left less_imp_le)
  then have "k dvd n - i" by simp
  then show False
    using assms by (auto dest: dvd_imp_le)
qed

lemma ring_list_push:
  assumes "n < length ring" and "t = (head + n) mod length ring"
  shows "ring_list (ring[t := x]) head (Suc n) = ring_list ring head n @ [x]"
proof -
  have t: "t < length ring"
    using assms by (metis length_greater_0_conv less_nat_zero_code list.size(3) mod_less_divisor)
  have "\<And>i. i < n \<Longrightarrow> ring[t := x] ! ((head + i) mod length ring)
                    = ring ! ((head + i) mod length ring)"
    using mod_ring_neq [of _ n "length ring" head] assms by (metis nth_list_update_neq)
  then show ?thesis
    using t assms by (simp add: ring_list_def)
qed

lemma ring_list_Suc:
  assumes "ring \<noteq> []" and "head < length ring"
  shows "ring_list ring head (Suc n) = ring ! head # ring_list ring ((head + 1) mod length ring) n"
proof -
  have "\<And>i. (head + Suc i) mod length ring = ((head + 1) mod length ring + i) mod length ring"
    by (metis add.assoc add_Suc_shift mod_add_left_eq plus_1_eq_Suc add.commute)
  then show ?thesis
    using assms by (simp add: ring_list_def upt_conv_Cons map_Suc_upt [symmetric] del: upt_Suc)
qed

end
