(* ===== verification/Digest.thy ===== *)
theory Digest
  imports Prelude
begin

text \<open>
  \<^verbatim>\<open>lib/digest.h\<close> and \<^verbatim>\<open>lib/digest.c\<close>: one interface over the OpenSSL digests, BLAKE3 and the null
  digest, and the enumeration of digest names. OpenSSL and BLAKE3 are not part of the
  repository: their functions are the fields of a record that every definition takes, and what
  they document is the predicate \<open>crypto_ok\<close>. The interface the rest of the library relies on is
  the locale \<open>digest_api\<close>, interpreted on the definitions below.
\<close>

section \<open>The cryptographic libraries\<close>

text \<open>
  Objects of the libraries (an \<^verbatim>\<open>EVP_MD\<close>, an \<^verbatim>\<open>EVP_MD_CTX\<close>, a \<^verbatim>\<open>blake3_hasher\<close>) are opaque, of
  type \<open>'x\<close>. A call that returns 1 or 0 returns a truth value and the object after the call.
\<close>

record 'x crypto =
  EVP_MD_fetch :: "string \<Rightarrow> 'x option"
  EVP_MD_CTX_new :: "'x option"
  EVP_DigestInit_ex :: "'x \<Rightarrow> 'x \<Rightarrow> bool \<times> 'x"
  EVP_DigestUpdate :: "'x \<Rightarrow> bytes \<Rightarrow> bool \<times> 'x"
  EVP_DigestFinal_ex :: "'x \<Rightarrow> bool \<times> 'x \<times> bytes"
  EVP_MD_provided :: "'x option list"
  EVP_MD_nid :: "'x \<Rightarrow> int"
  OBJ_nid2ln :: "int \<Rightarrow> string option"
  OBJ_nid2sn :: "int \<Rightarrow> string option"
  have_blake3 :: bool
  blake3_hasher_init :: "'x"
  blake3_hasher_update :: "'x \<Rightarrow> bytes \<Rightarrow> 'x"
  blake3_hasher_finalize :: "'x \<Rightarrow> nat \<Rightarrow> bytes"

definition BLAKE3_OUT_LEN :: nat where
  "BLAKE3_OUT_LEN = 32"

definition NID_undef :: int where
  "NID_undef = 0"

section \<open>Digests\<close>

text \<open>
  A \<^verbatim>\<open>struct digest\<close> with its operations: the constructor plays the role of the \<^verbatim>\<open>ops\<close> table. The
  result of an operation is the C return value (0 or a negative errno) and the digest after the
  call; \<^verbatim>\<open>finalize\<close> also returns the bytes it stores, whose number is what \<^verbatim>\<open>*len\<close> receives.
\<close>

datatype 'x digest =
    Null_digest
  | Blake3_digest 'x
  | Evp_digest 'x 'x

definition blake3_ops_init :: "'x crypto \<Rightarrow> 'x \<Rightarrow> int \<times> 'x digest" where
  "blake3_ops_init C hasher = (0, Blake3_digest (blake3_hasher_init C))"

definition blake3_ops_update :: "'x crypto \<Rightarrow> 'x \<Rightarrow> bytes \<Rightarrow> int \<times> 'x digest" where
  "blake3_ops_update C hasher data = (0, Blake3_digest (blake3_hasher_update C hasher data))"

definition blake3_ops_final :: "'x crypto \<Rightarrow> 'x \<Rightarrow> int \<times> 'x digest \<times> bytes" where
  "blake3_ops_final C hasher =
     (0, Blake3_digest hasher, blake3_hasher_finalize C hasher BLAKE3_OUT_LEN)"

definition create_blake3 :: "'x crypto \<Rightarrow> bool list \<Rightarrow> (int + 'x digest) \<times> bool list" where
  "create_blake3 C fs =
     (case acquire fs of
        (False, fs) \<Rightarrow> (Inl (- ENOMEM), fs)
      | (True, fs) \<Rightarrow> (Inr (Blake3_digest (blake3_hasher_init C)), fs))"

definition null_init :: "int \<times> 'x digest" where
  "null_init = (0, Null_digest)"

definition null_update :: "bytes \<Rightarrow> int \<times> 'x digest" where
  "null_update data = (0, Null_digest)"

definition null_final :: "int \<times> 'x digest \<times> bytes" where
  "null_final = (0, Null_digest, [])"

definition create_null :: "bool list \<Rightarrow> (int + 'x digest) \<times> bool list" where
  "create_null fs = (Inr Null_digest, fs)"

definition evp_init :: "'x crypto \<Rightarrow> 'x \<Rightarrow> 'x \<Rightarrow> int \<times> 'x digest" where
  "evp_init C md ctx =
     (let (ok, ctx) = EVP_DigestInit_ex C ctx md
      in (if \<not> ok then - ENOMEM else 0, Evp_digest md ctx))"

definition evp_update :: "'x crypto \<Rightarrow> 'x \<Rightarrow> 'x \<Rightarrow> bytes \<Rightarrow> int \<times> 'x digest" where
  "evp_update C md ctx data =
     (let (ok, ctx) = EVP_DigestUpdate C ctx data
      in (if \<not> ok then - ENOMEM else 0, Evp_digest md ctx))"

definition evp_final :: "'x crypto \<Rightarrow> 'x \<Rightarrow> 'x \<Rightarrow> int \<times> 'x digest \<times> bytes" where
  "evp_final C md ctx =
     (let (ok, ctx, out) = EVP_DigestFinal_ex C ctx
      in (if \<not> ok then - ENOMEM else 0, Evp_digest md ctx, out))"

definition create_evp ::
    "'x crypto \<Rightarrow> string \<Rightarrow> bool list \<Rightarrow> (int + 'x digest) \<times> bool list" where
  "create_evp C name fs =
     (case acquire fs of
        (False, fs) \<Rightarrow> (Inl (- ENOMEM), fs)
      | (True, fs) \<Rightarrow>
          (case EVP_MD_fetch C name of
             None \<Rightarrow> (Inl (- EINVAL), fs)
           | Some md \<Rightarrow>
               (case EVP_MD_CTX_new C of
                  None \<Rightarrow> (Inl (- ENOMEM), fs)
                | Some ctx \<Rightarrow> (Inr (Evp_digest md ctx), fs))))"

definition digest_create ::
    "'x crypto \<Rightarrow> string \<Rightarrow> bool list \<Rightarrow> (int + 'x digest) \<times> bool list" where
  "digest_create C name fs =
     (if name = ''null'' then create_null fs
      else if have_blake3 C \<and> name = ''blake3'' then create_blake3 C fs
      else create_evp C name fs)"

fun digest_init :: "'x crypto \<Rightarrow> 'x digest \<Rightarrow> int \<times> 'x digest" where
  "digest_init C Null_digest = null_init"
| "digest_init C (Blake3_digest hasher) = blake3_ops_init C hasher"
| "digest_init C (Evp_digest md ctx) = evp_init C md ctx"

fun digest_update :: "'x crypto \<Rightarrow> 'x digest \<Rightarrow> bytes \<Rightarrow> int \<times> 'x digest" where
  "digest_update C Null_digest data = null_update data"
| "digest_update C (Blake3_digest hasher) data = blake3_ops_update C hasher data"
| "digest_update C (Evp_digest md ctx) data = evp_update C md ctx data"

fun digest_final :: "'x crypto \<Rightarrow> 'x digest \<Rightarrow> int \<times> 'x digest \<times> bytes" where
  "digest_final C Null_digest = null_final"
| "digest_final C (Blake3_digest hasher) = blake3_ops_final C hasher"
| "digest_final C (Evp_digest md ctx) = evp_final C md ctx"

lemmas digest_op_defs =
  blake3_ops_init_def blake3_ops_update_def blake3_ops_final_def
  null_init_def null_update_def null_final_def
  evp_init_def evp_update_def evp_final_def
  create_blake3_def create_null_def create_evp_def

section \<open>Digest names\<close>

text \<open>
  \<^verbatim>\<open>struct digest_list\<close>: \<open>dl_names\<close> is \<open>None\<close> for a NULL array, otherwise the caller's array; a
  store past its end is undefined.
\<close>

record digest_list =
  dl_names :: "string option list option"
  dl_len :: nat
  dl_cap :: nat

definition append_name :: "digest_list \<Rightarrow> string option \<Rightarrow> digest_list option" where
  "append_name d name =
     (if dl_cap d \<noteq> 0 \<and> dl_len d = dl_cap d then Some d
      else (case dl_names d of
              None \<Rightarrow> Some (d\<lparr>dl_len := Suc (dl_len d)\<rparr>)
            | Some names \<Rightarrow>
                if dl_len d < length names
                then Some (d\<lparr>dl_names := Some (names[dl_len d := name]), dl_len := Suc (dl_len d)\<rparr>)
                else None))"

definition append_evp :: "'x crypto \<Rightarrow> 'x option \<Rightarrow> digest_list \<Rightarrow> digest_list option" where
  "append_evp C md d =
     (case md of
        None \<Rightarrow> Some d
      | Some md \<Rightarrow>
          (let nid = EVP_MD_nid C md
           in if nid = NID_undef then Some d
              else append_name d (case OBJ_nid2ln C nid of
                                    None \<Rightarrow> OBJ_nid2sn C nid | Some name \<Rightarrow> Some name)))"

fun add_evp :: "'x crypto \<Rightarrow> 'x option list \<Rightarrow> digest_list \<Rightarrow> digest_list option" where
  "add_evp C [] d = Some d"
| "add_evp C (md # mds) d = do { d \<leftarrow> append_evp C md d; add_evp C mds d }"

definition add_builtin :: "'x crypto \<Rightarrow> digest_list \<Rightarrow> digest_list option" where
  "add_builtin C d = do {
     d \<leftarrow> append_name d (Some ''null'');
     if have_blake3 C then append_name d (Some ''blake3'') else Some d
   }"

definition blkhash_digests ::
    "'x crypto \<Rightarrow> string option list option \<Rightarrow> nat \<Rightarrow> (nat \<times> string option list option) option"
where
  "blkhash_digests C names len = do {
     let d = \<lparr>dl_names = names, dl_len = 0, dl_cap = len\<rparr>;
     d \<leftarrow> add_builtin C d;
     d \<leftarrow> add_evp C (EVP_MD_provided C) d;
     Some (dl_len d, dl_names d)
   }"

section \<open>The interface of a digest\<close>

text \<open>
  What a client of \<^verbatim>\<open>digest.h\<close> relies on. \<open>usable\<close> says that \<^verbatim>\<open>digest_init\<close> may be called,
  \<open>absorbed d xs\<close> that the digest was initialised and fed the bytes \<open>xs\<close>, in any number of
  updates; \<open>hash\<close> is the function the digest name stands for.
\<close>

locale digest_api =
  fixes create :: "'l \<Rightarrow> string \<Rightarrow> bool list \<Rightarrow> (int + 'd) \<times> bool list"
    and init :: "'l \<Rightarrow> 'd \<Rightarrow> int \<times> 'd"
    and upd :: "'l \<Rightarrow> 'd \<Rightarrow> bytes \<Rightarrow> int \<times> 'd"
    and fin :: "'l \<Rightarrow> 'd \<Rightarrow> int \<times> 'd \<times> bytes"
    and ok :: "'l \<Rightarrow> string \<Rightarrow> 'm \<Rightarrow> bool"
    and usable :: "'l \<Rightarrow> string \<Rightarrow> 'm \<Rightarrow> 'd \<Rightarrow> bool"
    and absorbed :: "'l \<Rightarrow> string \<Rightarrow> 'm \<Rightarrow> 'd \<Rightarrow> bytes \<Rightarrow> bool"
    and hash :: "'m \<Rightarrow> bytes \<Rightarrow> bytes"
  assumes create_usable:
      "ok L n m \<Longrightarrow> \<exists>d. create L n [] = (Inr d, []) \<and> usable L n m d"
    and init_absorbed:
      "ok L n m \<Longrightarrow> usable L n m d \<Longrightarrow> \<exists>d'. init L d = (0, d') \<and> absorbed L n m d' []"
    and upd_absorbed:
      "ok L n m \<Longrightarrow> absorbed L n m d xs \<Longrightarrow>
       \<exists>d'. upd L d ys = (0, d') \<and> absorbed L n m d' (xs @ ys)"
    and fin_hash:
      "ok L n m \<Longrightarrow> absorbed L n m d xs \<Longrightarrow>
       \<exists>d'. fin L d = (0, d', hash m xs) \<and> usable L n m d'"
begin

text \<open>The whole life of a digest: one initialisation, one update, one finalisation.\<close>

lemma one_shot:
  assumes "ok L n m" and "usable L n m d"
  shows "\<exists>d1 d2 d3. init L d = (0, d1) \<and> upd L d1 xs = (0, d2) \<and>
                    fin L d2 = (0, d3, hash m xs) \<and> usable L n m d3"
proof -
  obtain d1 where d1: "init L d = (0, d1)" "absorbed L n m d1 []"
    using init_absorbed assms by blast
  obtain d2 where d2: "upd L d1 xs = (0, d2)" "absorbed L n m d2 ([] @ xs)"
    using upd_absorbed assms(1) d1(2) by blast
  then show ?thesis
    using fin_hash assms(1) d1 by fastforce
qed

text \<open>Feeding the pieces of a message one by one is feeding the message.\<close>

fun upd_all :: "'l \<Rightarrow> 'd \<Rightarrow> bytes list \<Rightarrow> int \<times> 'd" where
  "upd_all L d [] = (0, d)"
| "upd_all L d (x # xs) = (let (e, d) = upd L d x in if e \<noteq> 0 then (e, d) else upd_all L d xs)"

lemma upd_all_absorbed:
  "ok L n m \<Longrightarrow> absorbed L n m d xs \<Longrightarrow>
   \<exists>d'. upd_all L d yss = (0, d') \<and> absorbed L n m d' (xs @ concat yss)"
proof (induction yss arbitrary: d xs)
  case (Cons ys yss)
  then obtain d' where "upd L d ys = (0, d')" and "absorbed L n m d' (xs @ ys)"
    using upd_absorbed by blast
  with Cons show ?case by fastforce
qed auto

end

section \<open>What the libraries document\<close>

text \<open>
  For one digest name, the bytes an object of the library has absorbed, and the hash function
  the name stands for. \<open>crypto_ok\<close> restates the documented behaviour: an OpenSSL context can be
  initialised again after a finalisation, updates concatenate, finalisation gives the hash of
  what was fed, BLAKE3 never fails, and every digest of a name has the same length, at most
  \<^verbatim>\<open>BLKHASH_MAX_MD_SIZE\<close>.
\<close>

record 'x hash_model =
  lib_usable :: "'x \<Rightarrow> bool"
  lib_absorbed :: "'x \<Rightarrow> bytes \<Rightarrow> bool"
  hash_of :: "bytes \<Rightarrow> bytes"
  hash_len :: nat

definition BLKHASH_MAX_MD_SIZE :: nat where
  "BLKHASH_MAX_MD_SIZE = 64"

definition blake3_ok :: "'x crypto \<Rightarrow> 'x hash_model \<Rightarrow> bool" where
  "blake3_ok C M \<longleftrightarrow>
     lib_absorbed M (blake3_hasher_init C) [] \<and>
     (\<forall>x xs ys. lib_absorbed M x xs \<longrightarrow> lib_absorbed M (blake3_hasher_update C x ys) (xs @ ys)) \<and>
     (\<forall>x xs. lib_absorbed M x xs \<longrightarrow> blake3_hasher_finalize C x BLAKE3_OUT_LEN = hash_of M xs)"

definition evp_ok :: "'x crypto \<Rightarrow> string \<Rightarrow> 'x hash_model \<Rightarrow> bool" where
  "evp_ok C name M \<longleftrightarrow>
     (\<exists>md ctx. EVP_MD_fetch C name = Some md \<and> EVP_MD_CTX_new C = Some ctx \<and> lib_usable M ctx \<and>
        (\<forall>x. lib_usable M x \<longrightarrow>
             (\<exists>y. EVP_DigestInit_ex C x md = (True, y) \<and> lib_absorbed M y []))) \<and>
     (\<forall>x xs ys. lib_absorbed M x xs \<longrightarrow>
        (\<exists>y. EVP_DigestUpdate C x ys = (True, y) \<and> lib_absorbed M y (xs @ ys))) \<and>
     (\<forall>x xs. lib_absorbed M x xs \<longrightarrow>
        (\<exists>y. EVP_DigestFinal_ex C x = (True, y, hash_of M xs) \<and> lib_usable M y))"

definition crypto_ok :: "'x crypto \<Rightarrow> string \<Rightarrow> 'x hash_model \<Rightarrow> bool" where
  "crypto_ok C name M \<longleftrightarrow>
     (if name = ''null'' then hash_of M = (\<lambda>_. [])
      else if have_blake3 C \<and> name = ''blake3'' then blake3_ok C M
      else evp_ok C name M) \<and>
     hash_len M \<le> BLKHASH_MAX_MD_SIZE \<and> (\<forall>xs. length (hash_of M xs) = hash_len M)"

text \<open>The same notions for a \<^verbatim>\<open>struct digest\<close>.\<close>

fun digest_usable :: "'x crypto \<Rightarrow> string \<Rightarrow> 'x hash_model \<Rightarrow> 'x digest \<Rightarrow> bool" where
  "digest_usable C name M Null_digest \<longleftrightarrow> name = ''null''"
| "digest_usable C name M (Blake3_digest x) \<longleftrightarrow>
     name \<noteq> ''null'' \<and> have_blake3 C \<and> name = ''blake3''"
| "digest_usable C name M (Evp_digest md ctx) \<longleftrightarrow>
     name \<noteq> ''null'' \<and> \<not> (have_blake3 C \<and> name = ''blake3'') \<and>
     EVP_MD_fetch C name = Some md \<and> lib_usable M ctx"

fun digest_absorbed :: "'x crypto \<Rightarrow> string \<Rightarrow> 'x hash_model \<Rightarrow> 'x digest \<Rightarrow> bytes \<Rightarrow> bool" where
  "digest_absorbed C name M Null_digest xs \<longleftrightarrow> name = ''null''"
| "digest_absorbed C name M (Blake3_digest x) xs \<longleftrightarrow>
     name \<noteq> ''null'' \<and> have_blake3 C \<and> name = ''blake3'' \<and> lib_absorbed M x xs"
| "digest_absorbed C name M (Evp_digest md ctx) xs \<longleftrightarrow>
     name \<noteq> ''null'' \<and> \<not> (have_blake3 C \<and> name = ''blake3'') \<and>
     EVP_MD_fetch C name = Some md \<and> lib_absorbed M ctx xs"

lemma crypto_ok_len: "crypto_ok C name M \<Longrightarrow> length (hash_of M xs) = hash_len M"
  by (simp add: crypto_ok_def)

lemma crypto_ok_max: "crypto_ok C name M \<Longrightarrow> hash_len M \<le> BLKHASH_MAX_MD_SIZE"
  by (simp add: crypto_ok_def)

text \<open>The OpenSSL part of \<open>crypto_ok\<close>, call by call.\<close>

lemma evp_ok_create:
  "evp_ok C n M \<Longrightarrow>
   \<exists>md ctx. EVP_MD_fetch C n = Some md \<and> EVP_MD_CTX_new C = Some ctx \<and> lib_usable M ctx"
  unfolding evp_ok_def by blast

lemma evp_ok_init:
  "evp_ok C n M \<Longrightarrow> EVP_MD_fetch C n = Some md \<Longrightarrow> lib_usable M x \<Longrightarrow>
   \<exists>y. EVP_DigestInit_ex C x md = (True, y) \<and> lib_absorbed M y []"
  unfolding evp_ok_def by force

lemma evp_ok_update:
  "evp_ok C n M \<Longrightarrow> lib_absorbed M x xs \<Longrightarrow>
   \<exists>y. EVP_DigestUpdate C x ys = (True, y) \<and> lib_absorbed M y (xs @ ys)"
  unfolding evp_ok_def by blast

lemma evp_ok_final:
  "evp_ok C n M \<Longrightarrow> lib_absorbed M x xs \<Longrightarrow>
   \<exists>y. EVP_DigestFinal_ex C x = (True, y, hash_of M xs) \<and> lib_usable M y"
  unfolding evp_ok_def by blast

lemma create_digest_usable:
  assumes "crypto_ok C n M"
  shows "\<exists>d. digest_create C n [] = (Inr d, []) \<and> digest_usable C n M d"
proof (cases "n = ''null'' \<or> have_blake3 C \<and> n = ''blake3''")
  case True
  then show ?thesis
    by (auto simp: digest_create_def create_null_def create_blake3_def)
next
  case False
  then have "evp_ok C n M" using assms by (auto simp: crypto_ok_def)
  with False show ?thesis
    by (auto simp: digest_create_def create_evp_def dest!: evp_ok_create)
qed

lemma init_digest_absorbed:
  assumes "crypto_ok C n M" and "digest_usable C n M d"
  shows "\<exists>d'. digest_init C d = (0, d') \<and> digest_absorbed C n M d' []"
proof (cases d)
  case (Evp_digest md ctx)
  then have "evp_ok C n M" using assms by (auto simp: crypto_ok_def)
  with Evp_digest assms(2) show ?thesis
    by (auto simp: evp_init_def dest!: evp_ok_init)
qed (use assms in \<open>auto simp: crypto_ok_def null_init_def blake3_ops_init_def blake3_ok_def\<close>)

lemma upd_digest_absorbed:
  assumes "crypto_ok C n M" and "digest_absorbed C n M d xs"
  shows "\<exists>d'. digest_update C d ys = (0, d') \<and> digest_absorbed C n M d' (xs @ ys)"
proof (cases d)
  case (Evp_digest md ctx)
  then have "evp_ok C n M" and "lib_absorbed M ctx xs"
    using assms by (auto simp: crypto_ok_def)
  then obtain y where "EVP_DigestUpdate C ctx ys = (True, y)" and "lib_absorbed M y (xs @ ys)"
    using evp_ok_update [of C n M ctx xs ys] by auto
  with Evp_digest assms(2) show ?thesis by (simp add: evp_update_def)
qed (use assms in \<open>auto simp: crypto_ok_def null_update_def blake3_ops_update_def blake3_ok_def\<close>)

lemma fin_digest_hash:
  assumes "crypto_ok C n M" and "digest_absorbed C n M d xs"
  shows "\<exists>d'. digest_final C d = (0, d', hash_of M xs) \<and> digest_usable C n M d'"
proof (cases d)
  case (Evp_digest md ctx)
  then have "evp_ok C n M" and "lib_absorbed M ctx xs"
    using assms by (auto simp: crypto_ok_def)
  then obtain y where "EVP_DigestFinal_ex C ctx = (True, y, hash_of M xs)" and "lib_usable M y"
    using evp_ok_final [of C n M ctx xs] by auto
  with Evp_digest assms(2) show ?thesis by (simp add: evp_final_def)
qed (use assms in \<open>auto simp: crypto_ok_def null_final_def blake3_ops_final_def blake3_ok_def\<close>)

interpretation dg: digest_api digest_create digest_init digest_update digest_final
  crypto_ok digest_usable digest_absorbed hash_of
  by unfold_locales
    (fact create_digest_usable init_digest_absorbed upd_digest_absorbed fin_digest_hash)+

section \<open>A library that behaves as documented\<close>

text \<open>
  A context is what it was fed; the hash is the sum and the number of the bytes. One digest is
  provided, with the name \<^verbatim>\<open>sum\<close>.
\<close>

definition sample_hash :: "bytes \<Rightarrow> bytes" where
  "sample_hash xs = [sum_list xs, of_nat (length xs)]"

definition sample_crypto :: "bytes crypto" where
  "sample_crypto =
     \<lparr>EVP_MD_fetch = (\<lambda>name. if name = ''sum'' then Some [] else None), EVP_MD_CTX_new = Some [],
      EVP_DigestInit_ex = (\<lambda>ctx md. (True, [])), EVP_DigestUpdate = (\<lambda>ctx data. (True, ctx @ data)),
      EVP_DigestFinal_ex = (\<lambda>ctx. (True, ctx, sample_hash ctx)),
      EVP_MD_provided = [Some []], EVP_MD_nid = (\<lambda>md. 1), OBJ_nid2ln = (\<lambda>nid. Some ''sum''),
      OBJ_nid2sn = (\<lambda>nid. Some ''SUM''), have_blake3 = False, blake3_hasher_init = [],
      blake3_hasher_update = (\<lambda>h data. h @ data),
      blake3_hasher_finalize = (\<lambda>h n. replicate n (sum_list h))\<rparr>"

definition sample_model :: "bytes hash_model" where
  "sample_model =
     \<lparr>lib_usable = (\<lambda>_. True), lib_absorbed = (=), hash_of = sample_hash, hash_len = 2\<rparr>"

lemma sample_crypto_ok: "crypto_ok sample_crypto ''sum'' sample_model"
  by (simp add: crypto_ok_def evp_ok_def sample_crypto_def sample_model_def sample_hash_def
      BLKHASH_MAX_MD_SIZE_def)

end
