(* ===== verification/Config.thy ===== *)
theory Config
  imports Digest
begin

text \<open>
  The options of a hash (\<^verbatim>\<open>struct blkhash_opts\<close> and its accessors in \<^verbatim>\<open>lib/blkhash.c\<close>) and the
  configuration computed from them (\<^verbatim>\<open>lib/config.c\<close>), which holds the digest of a block of zeros.
\<close>

section \<open>Options\<close>

record blkhash_opts =
  o_digest_name :: string
  o_block_size :: nat
  o_queue_depth :: nat
  o_threads :: nat

definition KiB :: nat where
  "KiB = 1024"

definition MAX_THREADS :: nat where
  "MAX_THREADS = 128"

definition default_opts :: blkhash_opts where
  "default_opts =
     \<lparr>o_digest_name = ''sha256'', o_block_size = 64 * KiB, o_queue_depth = 0, o_threads = 4\<rparr>"

definition blkhash_opts_new ::
    "string option \<Rightarrow> bool list \<Rightarrow> (int + blkhash_opts) \<times> bool list" where
  "blkhash_opts_new name fs =
     (case name of
        None \<Rightarrow> (Inl EINVAL, fs)
      | Some name \<Rightarrow>
          (case acquire fs of
             (False, fs) \<Rightarrow> (Inl ENOMEM, fs)
           | (True, fs) \<Rightarrow> (Inr (default_opts\<lparr>o_digest_name := name\<rparr>), fs)))"

definition blkhash_opts_set_block_size :: "blkhash_opts \<Rightarrow> nat \<Rightarrow> int \<times> blkhash_opts" where
  "blkhash_opts_set_block_size opts block_size =
     (if block_size mod 2 \<noteq> 0 then (EINVAL, opts) else (0, opts\<lparr>o_block_size := block_size\<rparr>))"

definition blkhash_opts_set_threads :: "blkhash_opts \<Rightarrow> nat \<Rightarrow> int \<times> blkhash_opts" where
  "blkhash_opts_set_threads opts threads =
     (if threads < 1 \<or> threads > MAX_THREADS then (EINVAL, opts)
      else (0, opts\<lparr>o_threads := threads\<rparr>))"

definition blkhash_opts_set_queue_depth :: "blkhash_opts \<Rightarrow> nat \<Rightarrow> int \<times> blkhash_opts" where
  "blkhash_opts_set_queue_depth opts queue_depth = (0, opts\<lparr>o_queue_depth := queue_depth\<rparr>)"

definition blkhash_opts_get_digest_name :: "blkhash_opts \<Rightarrow> string" where
  "blkhash_opts_get_digest_name opts = o_digest_name opts"

definition blkhash_opts_get_block_size :: "blkhash_opts \<Rightarrow> nat" where
  "blkhash_opts_get_block_size opts = o_block_size opts"

definition blkhash_opts_get_threads :: "blkhash_opts \<Rightarrow> nat" where
  "blkhash_opts_get_threads opts = o_threads opts"

definition blkhash_opts_get_queue_depth :: "blkhash_opts \<Rightarrow> nat" where
  "blkhash_opts_get_queue_depth opts = o_queue_depth opts"

section \<open>Configuration\<close>

record config =
  zero_md :: bytes
  digest_name :: string
  block_size :: nat
  md_len :: nat
  workers :: nat
  queue_depth :: nat
  max_submissions :: nat

text \<open>The \<^verbatim>\<open>struct config\<close> inside a hash that was just allocated with \<^verbatim>\<open>calloc\<close>.\<close>

definition config_zero :: config where
  "config_zero =
     \<lparr>zero_md = zeros BLKHASH_MAX_MD_SIZE, digest_name = [], block_size = 0, md_len = 0,
      workers = 0, queue_depth = 0, max_submissions = 0\<rparr>"

definition compute_zero_md ::
    "'x crypto \<Rightarrow> config \<Rightarrow> bool list \<Rightarrow> (int \<times> config \<times> bool list) option" where
  "compute_zero_md C c fs =
     (case acquire fs of
        (False, fs) \<Rightarrow> Some (ENOMEM, c, fs)
      | (True, fs) \<Rightarrow>
     (case digest_create C (digest_name c) fs of
        (Inl err, fs) \<Rightarrow> Some (- err, c, fs)
      | (Inr d, fs) \<Rightarrow>
     (case digest_init C d of (err, d) \<Rightarrow>
        if err \<noteq> 0 then Some (- err, c, fs) else
     (case digest_update C d (zeros (block_size c)) of (err, d) \<Rightarrow>
        if err \<noteq> 0 then Some (- err, c, fs) else
     (case digest_final C d of (err, d, out) \<Rightarrow> do {
        md \<leftarrow> memcpy_at (zero_md c) 0 out;
        Some (- err, c\<lparr>zero_md := md, md_len := length out\<rparr>, fs)
      })))))"

definition config_init ::
    "'x crypto \<Rightarrow> config \<Rightarrow> blkhash_opts \<Rightarrow> bool list \<Rightarrow> (int \<times> config \<times> bool list) option" where
  "config_init C c opts fs =
     (let c = c\<lparr>digest_name := o_digest_name opts, block_size := o_block_size opts,
                workers := o_threads opts, queue_depth := o_queue_depth opts\<rparr>;
          c = c\<lparr>max_submissions := max (u32 (max (queue_depth c) (workers c) * 4)) 32\<rparr>
      in compute_zero_md C c fs)"

section \<open>Properties\<close>

text \<open>The accessors read what the setters store, and a refused value changes nothing.\<close>

lemma opts_get_set:
  "blkhash_opts_set_block_size opts n = (0, opts') \<Longrightarrow> blkhash_opts_get_block_size opts' = n"
  "blkhash_opts_set_threads opts n = (0, opts') \<Longrightarrow> blkhash_opts_get_threads opts' = n"
  "blkhash_opts_set_queue_depth opts n = (0, opts') \<Longrightarrow> blkhash_opts_get_queue_depth opts' = n"
  by (auto simp: blkhash_opts_set_block_size_def blkhash_opts_get_block_size_def
      blkhash_opts_set_threads_def blkhash_opts_get_threads_def
      blkhash_opts_set_queue_depth_def blkhash_opts_get_queue_depth_def split: if_splits)

text \<open>
  What a configuration promises once it is initialised: the stored digest is the digest of a
  block of zeros, and there is room for every worker's stop message.
\<close>

definition config_ok :: "'x hash_model \<Rightarrow> config \<Rightarrow> bool" where
  "config_ok M c \<longleftrightarrow>
     take (md_len c) (zero_md c) = hash_of M (zeros (block_size c)) \<and>
     md_len c = hash_len M \<and> md_len c \<le> length (zero_md c) \<and>
     32 \<le> max_submissions c \<and> max_submissions c < 2 ^ 32"

lemma compute_zero_md_ok:
  assumes C: "crypto_ok C (digest_name c) M"
    and md: "length (zero_md c) = BLKHASH_MAX_MD_SIZE"
  shows "compute_zero_md C c [] =
     Some (0, c\<lparr>zero_md := hash_of M (zeros (block_size c)) @ drop (hash_len M) (zero_md c),
                md_len := hash_len M\<rparr>, [])"
proof -
  obtain d where d: "digest_create C (digest_name c) [] = (Inr d, [])"
      "digest_usable C (digest_name c) M d"
    using dg.create_usable C by blast
  obtain d1 d2 d3 where "digest_init C d = (0, d1)"
      "digest_update C d1 (zeros (block_size c)) = (0, d2)"
      "digest_final C d2 = (0, d3, hash_of M (zeros (block_size c)))"
    using dg.one_shot [OF C d(2)] by blast
  with d show ?thesis
    using crypto_ok_len [OF C] crypto_ok_max [OF C] md
    by (simp add: compute_zero_md_def memcpy_at_def)
qed

lemma config_init_ok:
  assumes "crypto_ok C (o_digest_name opts) M"
  shows "\<exists>c. config_init C config_zero opts [] = Some (0, c, []) \<and> config_ok M c \<and>
    digest_name c = o_digest_name opts \<and> block_size c = o_block_size opts \<and>
    workers c = o_threads opts \<and> queue_depth c = o_queue_depth opts \<and>
    max_submissions c = max (u32 (max (queue_depth c) (workers c) * 4)) 32"
proof -
  let ?c = "config_zero\<lparr>digest_name := o_digest_name opts, block_size := o_block_size opts,
      workers := o_threads opts, queue_depth := o_queue_depth opts,
      max_submissions := max (u32 (max (o_queue_depth opts) (o_threads opts) * 4)) 32\<rparr>"
  have "compute_zero_md C ?c [] =
      Some (0, ?c\<lparr>zero_md := hash_of M (zeros (block_size ?c)) @ drop (hash_len M) (zero_md ?c),
                  md_len := hash_len M\<rparr>, [])"
    using assms by (intro compute_zero_md_ok) (simp_all add: config_zero_def)
  moreover have "max (u32 n) 32 < 2 ^ 32" for n
    using u32_less [of n] by (simp add: max_def)
  ultimately show ?thesis
    using crypto_ok_len [OF assms] by (simp add: config_init_def config_ok_def Let_def)
qed

text \<open>Without wrap-around there are at least four slots per worker.\<close>

lemma max_submissions_workers:
  assumes "config_init C c0 opts fs = Some (0, c, fs')"
    and "o_queue_depth opts < 2 ^ 30" and "o_threads opts < 2 ^ 30"
  shows "4 * workers c \<le> max_submissions c \<and> 4 * queue_depth c \<le> max_submissions c"
  using assms
  by (auto simp: config_init_def compute_zero_md_def Let_def memcpy_at_def u32_def max_def
      split: prod.splits sum.splits if_splits bool.splits)

end
