(* ===== verification/Event.thy ===== *)
theory Event
  imports Prelude
begin

text \<open>
  \<^verbatim>\<open>lib/event.h\<close> and \<^verbatim>\<open>lib/event.c\<close>: the file descriptor that tells a caller that asynchronous
  updates completed, an \<^verbatim>\<open>eventfd\<close> or a pipe. System calls are the fields of a record over an
  opaque kernel state; what \<^verbatim>\<open>eventfd(2)\<close> documents is the predicate \<open>eventfd_ok\<close>.
\<close>

section \<open>The host\<close>

text \<open>
  A system call returns the kernel state after the call and \<open>Inl errno\<close> where the C function
  returns -1. \<open>have_eventfd\<close> is the \<^verbatim>\<open>HAVE_EVENTFD\<close> of the build and \<open>little_endian\<close> the byte
  order the compiler targets.
\<close>

record 'k host =
  have_eventfd :: bool
  little_endian :: bool
  sys_eventfd :: "nat \<Rightarrow> 'k \<Rightarrow> (int + int) \<times> 'k"
  sys_pipe :: "'k \<Rightarrow> (int + int \<times> int) \<times> 'k"
  sys_getfl :: "int \<Rightarrow> 'k \<Rightarrow> (int + nat) \<times> 'k"
  sys_setfl :: "int \<Rightarrow> nat \<Rightarrow> 'k \<Rightarrow> (int + unit) \<times> 'k"
  sys_write :: "int \<Rightarrow> bytes \<Rightarrow> 'k \<Rightarrow> (int + nat) \<times> 'k"
  sys_read :: "int \<Rightarrow> nat \<Rightarrow> 'k \<Rightarrow> (int + bytes) \<times> 'k"
  sys_close :: "int \<Rightarrow> 'k \<Rightarrow> 'k"

definition EVENT_CLOEXEC :: nat where
  "EVENT_CLOEXEC = 524288"

definition EVENT_NONBLOCK :: nat where
  "EVENT_NONBLOCK = 2048"

section \<open>Events\<close>

record event =
  read_fd :: int
  write_fd :: int

definition set_flags :: "'k host \<Rightarrow> int \<Rightarrow> nat \<Rightarrow> 'k \<Rightarrow> int \<times> 'k" where
  "set_flags K fd flags k =
     (case sys_getfl K fd k of
        (Inl err, k) \<Rightarrow> (- err, k)
      | (Inr cur, k) \<Rightarrow>
          (case sys_setfl K fd (cur OR flags) k of
             (Inl err, k) \<Rightarrow> (- err, k)
           | (Inr _, k) \<Rightarrow> (0, k)))"

definition init_event :: "'k host \<Rightarrow> nat \<Rightarrow> 'k \<Rightarrow> (int + event) \<times> 'k" where
  "init_event K flags k =
     (if have_eventfd K then
        (case sys_eventfd K flags k of
           (Inl err, k) \<Rightarrow> (Inl (- err), k)
         | (Inr fd, k) \<Rightarrow> (Inr \<lparr>read_fd = fd, write_fd = fd\<rparr>, k))
      else
        (case sys_pipe K k of
           (Inl err, k) \<Rightarrow> (Inl (- err), k)
         | (Inr (fd0, fd1), k) \<Rightarrow>
             (case set_flags K fd0 flags k of
                (e0, k) \<Rightarrow>
                  if e0 \<noteq> 0 then (Inl e0, sys_close K fd1 (sys_close K fd0 k))
                  else (case set_flags K fd1 flags k of
                          (e1, k) \<Rightarrow>
                            if e1 \<noteq> 0 then (Inl e1, sys_close K fd1 (sys_close K fd0 k))
                            else (Inr \<lparr>read_fd = fd0, write_fd = fd1\<rparr>, k)))))"

definition event_open ::
    "'k host \<Rightarrow> nat \<Rightarrow> bool list \<Rightarrow> 'k \<Rightarrow> (int + event) \<times> bool list \<times> 'k" where
  "event_open K flags fs k =
     (case acquire fs of
        (False, fs) \<Rightarrow> (Inl (- ENOMEM), fs, k)
      | (True, fs) \<Rightarrow> (case init_event K flags k of (r, k) \<Rightarrow> (r, fs, k)))"

text \<open>\<^verbatim>\<open>do n = write(...) while (n == -1 && errno == EINTR)\<close>, and the same loop around \<^verbatim>\<open>read\<close>.\<close>

partial_function (option) write_retry ::
    "'k host \<Rightarrow> int \<Rightarrow> bytes \<Rightarrow> 'k \<Rightarrow> ((int + nat) \<times> 'k) option" where
  "write_retry K fd data k =
     (case sys_write K fd data k of
        (r, k) \<Rightarrow> if r = Inl EINTR then write_retry K fd data k else Some (r, k))"

partial_function (option) read_retry ::
    "'k host \<Rightarrow> int \<Rightarrow> nat \<Rightarrow> 'k \<Rightarrow> ((int + bytes) \<times> 'k) option" where
  "read_retry K fd n k =
     (case sys_read K fd n k of
        (r, k) \<Rightarrow> if r = Inl EINTR then read_retry K fd n k else Some (r, k))"

declare write_retry.simps [code] and read_retry.simps [code]

definition event_payload :: "'k host \<Rightarrow> bytes" where
  "event_payload K = (if have_eventfd K then host_bytes (little_endian K) 1 else [1])"

definition event_signal :: "'k host \<Rightarrow> event \<Rightarrow> 'k \<Rightarrow> (int \<times> 'k) option" where
  "event_signal K e k = do {
     (r, k) \<leftarrow> write_retry K (write_fd e) (event_payload K) k;
     case r of
       Inl err \<Rightarrow> if err \<noteq> EAGAIN then Some (- err, k) else Some (0, k)
     | Inr n \<Rightarrow> do {
         assert_that (have_eventfd K \<longrightarrow> n = length (event_payload K));
         Some (0, k)
       }
   }"

definition event_buffer :: "'k host \<Rightarrow> nat" where
  "event_buffer K = (if have_eventfd K then 8 else 128)"

definition event_wait :: "'k host \<Rightarrow> event \<Rightarrow> 'k \<Rightarrow> (int \<times> 'k) option" where
  "event_wait K e k = do {
     (r, k) \<leftarrow> read_retry K (read_fd e) (event_buffer K) k;
     case r of
       Inl err \<Rightarrow> if err \<noteq> EAGAIN then Some (- err, k) else Some (0, k)
     | Inr data \<Rightarrow>
         if have_eventfd K then do { assert_that (length data = event_buffer K); Some (1, k) }
         else Some (if length data > 0 then 1 else 0, k)
   }"

definition event_close :: "'k host \<Rightarrow> event option \<Rightarrow> 'k \<Rightarrow> 'k" where
  "event_close K e k =
     (case e of
        None \<Rightarrow> k
      | Some e \<Rightarrow>
          (let k = sys_close K (read_fd e) k
           in if have_eventfd K then k else sys_close K (write_fd e) k))"

section \<open>The interface of an event\<close>

text \<open>
  A channel that is signalled and waited for: \<open>ready\<close> says that a wait would succeed. Signals
  coalesce: one wait takes all signals received before it.
\<close>

locale event_channel =
  fixes signal :: "'h \<Rightarrow> 'e \<Rightarrow> 'k \<Rightarrow> (int \<times> 'k) option"
    and wait :: "'h \<Rightarrow> 'e \<Rightarrow> 'k \<Rightarrow> (int \<times> 'k) option"
    and ok :: "'h \<Rightarrow> 'm \<Rightarrow> bool"
    and opened :: "'m \<Rightarrow> 'e \<Rightarrow> 'k \<Rightarrow> bool"
    and ready :: "'m \<Rightarrow> 'e \<Rightarrow> 'k \<Rightarrow> bool"
  assumes signal_ready:
      "ok K M \<Longrightarrow> opened M e k \<Longrightarrow>
       ensures (signal K e k) (\<lambda>(r, k'). r = 0 \<and> opened M e k' \<and> ready M e k')"
    and wait_takes:
      "ok K M \<Longrightarrow> opened M e k \<Longrightarrow>
       ensures (wait K e k)
         (\<lambda>(r, k'). r = (if ready M e k then 1 else 0) \<and> opened M e k' \<and> \<not> ready M e k')"
begin

lemma signal_wait:
  assumes "ok K M" and "opened M e k"
  shows "ensures (do { (r, k) \<leftarrow> signal K e k; wait K e k })
           (\<lambda>(r, k'). r = 1 \<and> opened M e k' \<and> \<not> ready M e k')"
  using signal_ready [OF assms]
  by (auto elim!: ensures_mono dest: wait_takes [OF assms(1)])

lemma signals_coalesce:
  assumes "ok K M" and "opened M e k"
  shows "ensures (do { (r, k) \<leftarrow> signal K e k; (r, k) \<leftarrow> signal K e k;
                       (r, k) \<leftarrow> wait K e k; wait K e k })
           (\<lambda>(r, k'). r = 0 \<and> opened M e k')"
proof -
  have wait_ready: "ensures (do { (r, k) \<leftarrow> wait K e k; wait K e k })
      (\<lambda>(r, k'). r = 0 \<and> opened M e k')" if "opened M e k" for k
    using wait_takes [OF assms(1) that]
    by (auto elim!: ensures_mono dest: wait_takes [OF assms(1)])
  have "ensures (do { (r, k) \<leftarrow> signal K e k; (r, k) \<leftarrow> wait K e k; wait K e k })
      (\<lambda>(r, k'). r = 0 \<and> opened M e k')" if "opened M e k" for k
    using signal_ready [OF assms(1) that] wait_ready
    by (auto elim!: ensures_mono)
  then show ?thesis
    using signal_ready [OF assms] by (auto elim!: ensures_mono)
qed

end

section \<open>What the kernel documents\<close>

text \<open>
  The counter of an \<^verbatim>\<open>eventfd\<close> and the number of interrupted calls to come. A write of 1 adds one
  to the counter, or fails with EAGAIN when the counter is at its maximum; a read of at least eight
  bytes resets a positive counter, or fails with EAGAIN at zero; a call may be interrupted, but not
  forever.
\<close>

record 'k event_model =
  ev_open :: "'k \<Rightarrow> int \<Rightarrow> bool"
  ev_count :: "'k \<Rightarrow> int \<Rightarrow> nat"
  ev_intr :: "'k \<Rightarrow> nat"

definition eventfd_ok :: "'k host \<Rightarrow> 'k event_model \<Rightarrow> bool" where
  "eventfd_ok K M \<longleftrightarrow> have_eventfd K \<and>
     (\<forall>k fd. ev_open M k fd \<longrightarrow>
        (case sys_write K fd (event_payload K) k of
           (Inr n, k') \<Rightarrow> n = 8 \<and> ev_open M k' fd \<and> ev_count M k' fd = Suc (ev_count M k fd)
         | (Inl err, k') \<Rightarrow>
             ev_open M k' fd \<and> ev_count M k' fd = ev_count M k fd \<and>
             (err = EINTR \<and> ev_intr M k' < ev_intr M k \<or>
              err = EAGAIN \<and> ev_count M k fd = 2 ^ 64 - 2))) \<and>
     (\<forall>k fd n. ev_open M k fd \<and> 8 \<le> n \<longrightarrow>
        (case sys_read K fd n k of
           (Inr data, k') \<Rightarrow>
             length data = 8 \<and> ev_open M k' fd \<and> 0 < ev_count M k fd \<and> ev_count M k' fd = 0
         | (Inl err, k') \<Rightarrow>
             ev_open M k' fd \<and> ev_count M k' fd = ev_count M k fd \<and>
             (err = EINTR \<and> ev_intr M k' < ev_intr M k \<or> err = EAGAIN \<and> ev_count M k fd = 0)))"

text \<open>The creation of an \<^verbatim>\<open>eventfd\<close> with counter 0 succeeds.\<close>

definition eventfd_opens :: "'k host \<Rightarrow> 'k event_model \<Rightarrow> 'k \<Rightarrow> bool" where
  "eventfd_opens K M k \<longleftrightarrow>
     (\<exists>fd k'. sys_eventfd K (EVENT_CLOEXEC OR EVENT_NONBLOCK) k = (Inr fd, k') \<and>
        ev_open M k' fd \<and> ev_count M k' fd = 0)"

definition event_opened :: "'k event_model \<Rightarrow> event \<Rightarrow> 'k \<Rightarrow> bool" where
  "event_opened M e k \<longleftrightarrow> read_fd e = write_fd e \<and> ev_open M k (read_fd e)"

definition event_ready :: "'k event_model \<Rightarrow> event \<Rightarrow> 'k \<Rightarrow> bool" where
  "event_ready M e k \<longleftrightarrow> 0 < ev_count M k (read_fd e)"

text \<open>The retry loops return: each interruption uses up one of finitely many.\<close>

lemma write_retry_returns:
  assumes "eventfd_ok K M" and "ev_open M k fd"
  shows "ensures (write_retry K fd (event_payload K) k)
    (\<lambda>(r, k'). ev_open M k' fd \<and> 0 < ev_count M k' fd \<and> (r = Inr 8 \<or> r = Inl EAGAIN))"
  using assms(2)
proof (induction "ev_intr M k" arbitrary: k rule: less_induct)
  case less
  obtain r k' where w: "sys_write K fd (event_payload K) k = (r, k')" by fastforce
  with assms(1) less.prems have step: "case (r, k') of
         (Inr n, k') \<Rightarrow> n = 8 \<and> ev_open M k' fd \<and> ev_count M k' fd = Suc (ev_count M k fd)
       | (Inl err, k') \<Rightarrow> ev_open M k' fd \<and> ev_count M k' fd = ev_count M k fd \<and>
             (err = EINTR \<and> ev_intr M k' < ev_intr M k \<or>
              err = EAGAIN \<and> ev_count M k fd = 2 ^ 64 - 2)"
    by (auto simp: eventfd_ok_def split: prod.splits)
  show ?case
  proof (cases "r = Inl EINTR")
    case True
    with step have "ev_intr M k' < ev_intr M k" and "ev_open M k' fd" by auto
    then show ?thesis
      using less.hyps [of k'] True w by (simp add: write_retry.simps [of K fd _ k])
  next
    case False
    with step w show ?thesis
      by (auto simp: write_retry.simps [of K fd _ k] split: sum.splits)
  qed
qed

lemma read_retry_returns:
  assumes "eventfd_ok K M" and "ev_open M k fd" and "8 \<le> n"
  shows "ensures (read_retry K fd n k)
    (\<lambda>(r, k'). ev_open M k' fd \<and> ev_count M k' fd = 0 \<and>
       (if 0 < ev_count M k fd then \<exists>data. r = Inr data \<and> length data = 8 else r = Inl EAGAIN))"
  using assms(2)
proof (induction "ev_intr M k" arbitrary: k rule: less_induct)
  case less
  obtain r k' where w: "sys_read K fd n k = (r, k')" by fastforce
  with assms(1,3) less.prems have step: "case (r, k') of
         (Inr data, k') \<Rightarrow>
             length data = 8 \<and> ev_open M k' fd \<and> 0 < ev_count M k fd \<and> ev_count M k' fd = 0
       | (Inl err, k') \<Rightarrow>
             ev_open M k' fd \<and> ev_count M k' fd = ev_count M k fd \<and>
             (err = EINTR \<and> ev_intr M k' < ev_intr M k \<or> err = EAGAIN \<and> ev_count M k fd = 0)"
    by (auto simp: eventfd_ok_def split: prod.splits)
  show ?case
  proof (cases "r = Inl EINTR")
    case True
    with step have "ev_intr M k' < ev_intr M k" and "ev_open M k' fd"
      and "ev_count M k' fd = ev_count M k fd" by auto
    then show ?thesis
      using less.hyps [of k'] True w by (simp add: read_retry.simps [of K fd _ k])
  next
    case False
    with step w show ?thesis
      by (auto simp: read_retry.simps [of K fd _ k] split: sum.splits)
  qed
qed

lemma event_signal_ready:
  assumes "eventfd_ok K M" and "event_opened M e k"
  shows "ensures (event_signal K e k)
    (\<lambda>(r, k'). r = 0 \<and> event_opened M e k' \<and> event_ready M e k')"
proof -
  have K: "have_eventfd K" and fd: "write_fd e = read_fd e" and o: "ev_open M k (read_fd e)"
    using assms by (auto simp: eventfd_ok_def event_opened_def)
  show ?thesis
    using write_retry_returns [OF assms(1) o] K fd
    by (auto simp: event_signal_def event_opened_def event_ready_def event_payload_def
             elim!: ensures_mono)
qed

lemma event_wait_takes:
  assumes "eventfd_ok K M" and "event_opened M e k"
  shows "ensures (event_wait K e k)
    (\<lambda>(r, k'). r = (if event_ready M e k then 1 else 0) \<and>
               event_opened M e k' \<and> \<not> event_ready M e k')"
proof -
  have K: "have_eventfd K" and fd: "write_fd e = read_fd e" and o: "ev_open M k (read_fd e)"
    using assms by (auto simp: eventfd_ok_def event_opened_def)
  show ?thesis
    using read_retry_returns [OF assms(1) o order_refl] K fd
    by (auto simp: event_wait_def event_opened_def event_ready_def event_buffer_def
             elim!: ensures_mono split: if_splits)
qed

lemma event_open_ok:
  assumes "eventfd_ok K M" and "eventfd_opens K M k"
  shows "\<exists>e k'. event_open K (EVENT_CLOEXEC OR EVENT_NONBLOCK) [] k = (Inr e, [], k') \<and>
    event_opened M e k' \<and> \<not> event_ready M e k'"
  using assms
  by (auto simp: eventfd_ok_def eventfd_opens_def event_open_def init_event_def event_opened_def
      event_ready_def)

interpretation ev: event_channel event_signal event_wait eventfd_ok event_opened event_ready
  by unfold_locales (fact event_signal_ready event_wait_takes)+

section \<open>A kernel that behaves as documented\<close>

text \<open>
  One \<^verbatim>\<open>eventfd\<close> with descriptor 5. The state is the number of calls that will be interrupted and
  the counter.
\<close>

definition sample_host :: "(nat \<times> nat) host" where
  "sample_host =
     \<lparr>have_eventfd = True, little_endian = True,
      sys_eventfd = (\<lambda>_ k. (Inr 5, k)), sys_pipe = (\<lambda>k. (Inl EINVAL, k)),
      sys_getfl = (\<lambda>_ k. (Inl EINVAL, k)), sys_setfl = (\<lambda>_ _ k. (Inl EINVAL, k)),
      sys_write = (\<lambda>_ _ (i, n).
        if 0 < i then (Inl EINTR, i - 1, n)
        else if n = 2 ^ 64 - 2 then (Inl EAGAIN, i, n) else (Inr 8, i, Suc n)),
      sys_read = (\<lambda>_ _ (i, n).
        if 0 < i then (Inl EINTR, i - 1, n)
        else if n = 0 then (Inl EAGAIN, i, n) else (Inr (le_bytes (of_nat n)), i, 0)),
      sys_close = (\<lambda>_ k. k)\<rparr>"

definition sample_event_model :: "(nat \<times> nat) event_model" where
  "sample_event_model = \<lparr>ev_open = (\<lambda>_ fd. fd = 5), ev_count = (\<lambda>k _. snd k), ev_intr = fst\<rparr>"

lemma sample_eventfd_ok: "eventfd_ok sample_host sample_event_model"
  by (auto simp: eventfd_ok_def sample_host_def sample_event_model_def)

section \<open>Properties of events\<close>

text \<open>
  C20. A signal is not lost: on a kernel whose \<^verbatim>\<open>eventfd\<close> behaves as documented, signalling an open
  event any number of times and then waiting for it returns 1, however often the system calls
  are interrupted, and the next wait returns 0.
\<close>

theorem event_signals_then_wait:
  assumes "eventfd_ok K M" and "event_opened M e k"
  shows "ensures (do {
           (_, k) \<leftarrow> event_signal K e k;
           (_, k) \<leftarrow> event_signal K e k;
           (r1, k) \<leftarrow> event_wait K e k;
           (r2, k) \<leftarrow> event_wait K e k;
           Some (r1, r2, k) })
         (\<lambda>(r1, r2, k'). r1 = 1 \<and> r2 = 0 \<and> event_opened M e k' \<and> \<not> event_ready M e k')"
proof -
  have waits: "ensures (do { (r1, k) \<leftarrow> event_wait K e k; (r2, k) \<leftarrow> event_wait K e k; Some (r1, r2, k) })
      (\<lambda>(r1, r2, k'). r1 = 1 \<and> r2 = 0 \<and> event_opened M e k' \<and> \<not> event_ready M e k')"
    if "event_opened M e k" "event_ready M e k" for k
    using ev.wait_takes [OF assms(1) that(1)] that(2)
    by (auto elim!: ensures_mono dest: ev.wait_takes [OF assms(1)])
  have "ensures (do { (_, k) \<leftarrow> event_signal K e k; (r1, k) \<leftarrow> event_wait K e k;
        (r2, k) \<leftarrow> event_wait K e k; Some (r1, r2, k) })
      (\<lambda>(r1, r2, k'). r1 = 1 \<and> r2 = 0 \<and> event_opened M e k' \<and> \<not> event_ready M e k')"
    if "event_opened M e k" for k
    using ev.signal_ready [OF assms(1) that] waits by (auto elim!: ensures_mono)
  then show ?thesis
    using ev.signal_ready [OF assms] by (auto elim!: ensures_mono)
qed

theorem event_signals_then_wait_witness:
  "eventfd_ok sample_host sample_event_model \<and>
   ensures (do {
       (_, k) \<leftarrow> event_signal sample_host \<lparr>read_fd = 5, write_fd = 5\<rparr> (3, 0);
       (_, k) \<leftarrow> event_signal sample_host \<lparr>read_fd = 5, write_fd = 5\<rparr> k;
       (r1, k) \<leftarrow> event_wait sample_host \<lparr>read_fd = 5, write_fd = 5\<rparr> k;
       (r2, k) \<leftarrow> event_wait sample_host \<lparr>read_fd = 5, write_fd = 5\<rparr> k;
       Some (r1, r2, k) })
     (\<lambda>(r1, r2, k'). r1 = 1 \<and> r2 = 0 \<and>
        event_opened sample_event_model \<lparr>read_fd = 5, write_fd = 5\<rparr> k' \<and>
        \<not> event_ready sample_event_model \<lparr>read_fd = 5, write_fd = 5\<rparr> k')"
proof -
  have "event_opened sample_event_model \<lparr>read_fd = 5, write_fd = 5\<rparr> (3, 0)"
    by (simp add: event_opened_def sample_event_model_def)
  then show ?thesis
    using event_signals_then_wait [OF sample_eventfd_ok] sample_eventfd_ok by blast
qed

end
