(* ===== verification/State.thy ===== *)
theory State
  imports Config Event
begin

text \<open>
  The data of the library: the structures of \<^verbatim>\<open>lib/submission.h\<close>, \<^verbatim>\<open>lib/blkhash-internal.h\<close>,
  \<^verbatim>\<open>lib/hash-pool.h\<close> and \<^verbatim>\<open>lib/blkhash.c\<close>, the program counters of the worker threads, and the
  world a hash lives in: the heap, the memory of the application, the kernel, the environment's
  choices.
\<close>

section \<open>Submissions\<close>

text \<open>
  Where the bytes of a block are: in the memory of the application (the asynchronous interface
  does not copy), in the pending buffer of the hash, or in a copy the submission owns.
\<close>

datatype ptr =
    NULL
  | User nat
  | Pending_data
  | Copied bytes

definition SUBMIT_COPY_DATA :: "8 word" where
  "SUBMIT_COPY_DATA = 1"

text \<open>
  \<^verbatim>\<open>struct submission\<close>. \<open>sub_md\<close> holds the bytes of the \<^verbatim>\<open>md\<close> array that were written: the array
  is not initialised, and reading more than was written is undefined.
\<close>

record submission =
  sub_md :: bytes
  sub_completion :: "nat option"
  sub_data :: ptr
  sub_index :: int
  sub_len :: nat
  sub_error :: int
  sub_zero :: bool
  sub_completed :: bool
  sub_flags :: "8 word"

text \<open>A \<^verbatim>\<open>struct submission *\<close>: NULL, an address, or the \<^verbatim>\<open>STOP\<close> mark of \<^verbatim>\<open>hash-pool.c\<close>.\<close>

datatype sub_ptr = SubNULL | Sub nat | STOP

record submission_queue =
  sq_ring :: "sub_ptr list"
  sq_ring_mem :: owned
  sq_size :: nat
  sq_len :: nat
  sq_head :: nat
  sq_tail :: nat

section \<open>Completions\<close>

text \<open>The only callback the library passes is \<^verbatim>\<open>update_completed\<close>, for the hash itself.\<close>

datatype completion_callback = Update_completed

record completion =
  c_callback :: completion_callback
  c_user_data :: nat
  c_error :: int
  c_refs :: nat

record blkhash_completion =
  bc_user_data :: nat
  bc_error :: int

record completion_queue =
  cq_array :: "blkhash_completion list"
  cq_array_mem :: owned
  cq_event :: "event option"
  cq_count :: nat

section \<open>The hash pool\<close>

record hash_pool =
  p_queue :: "sub_ptr list"
  p_queue_mem :: owned
  p_workers_mem :: owned
  p_queue_size :: nat
  p_queue_len :: nat
  p_queue_head :: nat
  p_queue_tail :: nat
  p_workers_count :: nat
  p_workers_idle :: nat
  p_error :: int
  p_stopped :: bool

text \<open>
  Where a worker thread is in \<^verbatim>\<open>worker_thread\<close>, with the digest it owns: before \<^verbatim>\<open>digest_create\<close>;
  about to lock the mutex in \<^verbatim>\<open>wait_for_work\<close>; asleep in \<^verbatim>\<open>cond_wait\<close>; woken, about to lock again;
  with a submission to process; processed, about to drop its reference to the completion; about
  to add the completion to the queue; about to signal the event; about to store \<^verbatim>\<open>completed\<close>;
  terminated.
\<close>

datatype 'x thread =
    Start
  | Loop "'x digest"
  | Wait "'x digest"
  | Woken "'x digest"
  | Work "'x digest" nat
  | Done "'x digest" nat
  | Call "'x digest" nat nat
  | Signal "'x digest" nat nat bool
  | Store "'x digest" nat
  | Exited

section \<open>The hash\<close>

record buffer =
  buf_data :: bytes
  buf_data_mem :: owned
  buf_len :: nat
  buf_zero :: bool

record 'x blkhash =
  config :: config
  pool :: hash_pool
  sq :: submission_queue
  cq :: completion_queue
  pending :: buffer
  outer_digest :: "'x digest option"
  block_index :: int
  submitted_index :: int
  hashed_index :: int
  message_length :: "64 word"
  inflight :: nat
  error :: int
  finalized :: bool

text \<open>
  A hash and its world. \<open>mem\<close> is the memory of the application; \<open>threads\<close> the worker threads,
  in the order of the \<^verbatim>\<open>workers\<close> array of the pool; \<open>kern\<close> the kernel; \<open>faults\<close> the outcomes of the
  next acquisitions. \<open>sched\<close> holds the interleaving with the worker threads: one list of worker
  numbers per point where the calling thread looks at what the threads share, the steps the
  workers take there. When the list is used up the workers only run while the caller waits for
  them.
\<close>

record ('x, 'k) sys = "'x blkhash" +
  subs :: "submission heap"
  comps :: "completion heap"
  mem :: "nat \<Rightarrow> byte"
  threads :: "'x thread list"
  kern :: 'k
  faults :: "bool list"
  sched :: "nat list list"

text \<open>The libraries and the system a hash runs on.\<close>

record ('x, 'k) ext =
  crypto :: "'x crypto"
  host :: "'k host"

section \<open>Memory\<close>

fun load :: "('x, 'k) sys \<Rightarrow> ptr \<Rightarrow> nat \<Rightarrow> bytes option" where
  "load s NULL n = (if n = 0 then Some [] else None)"
| "load s (User a) n = Some (map (mem s) [a..<a + n])"
| "load s Pending_data n = load_array (buf_data (pending s)) n"
| "load s (Copied bs) n = load_array bs n"

definition get_sub :: "nat \<Rightarrow> ('x, 'k) sys \<Rightarrow> submission option" where
  "get_sub j s = cells (subs s) j"

definition put_sub :: "nat \<Rightarrow> submission \<Rightarrow> ('x, 'k) sys \<Rightarrow> ('x, 'k) sys option" where
  "put_sub j sub s = do { H \<leftarrow> heap_put j sub (subs s); Some (s\<lparr>subs := H\<rparr>) }"

definition get_comp :: "nat \<Rightarrow> ('x, 'k) sys \<Rightarrow> completion option" where
  "get_comp c s = cells (comps s) c"

definition put_comp :: "nat \<Rightarrow> completion \<Rightarrow> ('x, 'k) sys \<Rightarrow> ('x, 'k) sys option" where
  "put_comp c v s = do { H \<leftarrow> heap_put c v (comps s); Some (s\<lparr>comps := H\<rparr>) }"

definition sys_acquire :: "('x, 'k) sys \<Rightarrow> bool \<times> ('x, 'k) sys" where
  "sys_acquire s = (case acquire (faults s) of (ok, fs) \<Rightarrow> (ok, s\<lparr>faults := fs\<rparr>))"

lemma ensures_get_sub [simp]:
  "ensures (get_sub j s) Q \<longleftrightarrow> (\<exists>sub. cells (subs s) j = Some sub \<and> Q sub)"
  by (auto simp: get_sub_def ensures_def)

lemma ensures_get_comp [simp]:
  "ensures (get_comp c s) Q \<longleftrightarrow> (\<exists>v. cells (comps s) c = Some v \<and> Q v)"
  by (auto simp: get_comp_def ensures_def)

lemma ensures_put_sub [simp]:
  "ensures (put_sub j sub s) Q \<longleftrightarrow>
     cells (subs s) j \<noteq> None \<and> Q (s\<lparr>subs := (subs s)\<lparr>cells := (cells (subs s))(j \<mapsto> sub)\<rparr>\<rparr>)"
  by (simp add: put_sub_def)

lemma ensures_put_comp [simp]:
  "ensures (put_comp c v s) Q \<longleftrightarrow>
     cells (comps s) c \<noteq> None \<and> Q (s\<lparr>comps := (comps s)\<lparr>cells := (cells (comps s))(c \<mapsto> v)\<rparr>\<rparr>)"
  by (simp add: put_comp_def)

lemma sys_acquire_ok [simp]: "faults s = [] \<Longrightarrow> sys_acquire s = (True, s)"
  by (simp add: sys_acquire_def)

end
