(* ===== verification/Queues.thy ===== *)
theory Queues
  imports State
begin

text \<open>
  The two ring buffers of the library: the submission queue of \<^verbatim>\<open>lib/submission.c\<close>, which keeps
  the order of the blocks, and the work queue inside the pool of \<^verbatim>\<open>lib/hash-pool.c\<close>. Both
  implement the locale \<open>bounded_fifo\<close>: a list with a capacity.
\<close>

section \<open>The submission queue\<close>

definition sq_zero :: submission_queue where
  "sq_zero = \<lparr>sq_ring = [], sq_ring_mem = Null, sq_size = 0, sq_len = 0, sq_head = 0, sq_tail = 0\<rparr>"

definition submission_queue_init ::
    "submission_queue \<Rightarrow> nat \<Rightarrow> bool list \<Rightarrow> int \<times> submission_queue \<times> bool list" where
  "submission_queue_init q sz fs =
     (case acquire fs of
        (False, fs) \<Rightarrow> (ENOMEM, q\<lparr>sq_ring_mem := Null\<rparr>, fs)
      | (True, fs) \<Rightarrow>
          (0, \<lparr>sq_ring = replicate sz SubNULL, sq_ring_mem = Allocated, sq_size = sz,
               sq_len = 0, sq_head = 0, sq_tail = 0\<rparr>, fs))"

definition submission_queue_first :: "submission_queue \<Rightarrow> sub_ptr" where
  "submission_queue_first q = (if sq_len q > 0 then sq_ring q ! sq_head q else SubNULL)"

definition submission_queue_full :: "submission_queue \<Rightarrow> bool" where
  "submission_queue_full q \<longleftrightarrow> sq_len q = sq_size q"

definition submission_queue_pop :: "submission_queue \<Rightarrow> int \<times> sub_ptr \<times> submission_queue" where
  "submission_queue_pop q =
     (if sq_len q = 0 then (ENOENT, SubNULL, q)
      else (0, sq_ring q ! sq_head q,
            q\<lparr>sq_head := u32 (sq_head q + 1) mod sq_size q, sq_len := sub32 (sq_len q) 1\<rparr>))"

definition submission_queue_push :: "submission_queue \<Rightarrow> sub_ptr \<Rightarrow> int \<times> submission_queue" where
  "submission_queue_push q sub =
     (if sq_len q = sq_size q then (ENOBUFS, q)
      else (0, q\<lparr>sq_ring := (sq_ring q)[sq_tail q := sub],
                 sq_tail := u32 (sq_tail q + 1) mod sq_size q, sq_len := u32 (sq_len q + 1)\<rparr>))"

section \<open>The work queue of the pool\<close>

definition push_unlocked :: "hash_pool \<Rightarrow> sub_ptr \<Rightarrow> hash_pool" where
  "push_unlocked p sub =
     p\<lparr>p_queue := (p_queue p)[p_queue_tail p := sub],
       p_queue_tail := u32 (p_queue_tail p + 1) mod p_queue_size p,
       p_queue_len := u32 (p_queue_len p + 1)\<rparr>"

definition pop_unlocked :: "hash_pool \<Rightarrow> sub_ptr \<times> hash_pool" where
  "pop_unlocked p =
     (p_queue p ! p_queue_head p,
      p\<lparr>p_queue_head := u32 (p_queue_head p + 1) mod p_queue_size p,
        p_queue_len := sub32 (p_queue_len p) 1\<rparr>)"

section \<open>Bounded queues\<close>

text \<open>
  The interface: \<open>view\<close> is the contents in order, \<open>cap\<close> the capacity; pushing is allowed below
  the capacity, popping when the queue is not empty.
\<close>

locale bounded_fifo =
  fixes inv :: "'q \<Rightarrow> bool"
    and view :: "'q \<Rightarrow> 'a list"
    and cap :: "'q \<Rightarrow> nat"
    and push :: "'q \<Rightarrow> 'a \<Rightarrow> 'q"
    and pop :: "'q \<Rightarrow> 'a \<times> 'q"
  assumes view_cap: "inv q \<Longrightarrow> length (view q) \<le> cap q"
    and push_inv: "inv q \<Longrightarrow> length (view q) < cap q \<Longrightarrow> inv (push q x)"
    and push_view: "inv q \<Longrightarrow> length (view q) < cap q \<Longrightarrow> view (push q x) = view q @ [x]"
    and push_cap: "cap (push q x) = cap q"
    and pop_inv: "inv q \<Longrightarrow> view q \<noteq> [] \<Longrightarrow> inv (snd (pop q))"
    and pop_view: "inv q \<Longrightarrow> view q \<noteq> [] \<Longrightarrow> view q = fst (pop q) # view (snd (pop q))"
    and pop_cap: "cap (snd (pop q)) = cap q"
begin

fun push_all :: "'q \<Rightarrow> 'a list \<Rightarrow> 'q" where
  "push_all q [] = q"
| "push_all q (x # xs) = push_all (push q x) xs"

fun pop_many :: "nat \<Rightarrow> 'q \<Rightarrow> 'a list \<times> 'q" where
  "pop_many 0 q = ([], q)"
| "pop_many (Suc n) q = (let (x, q) = pop q; (xs, q) = pop_many n q in (x # xs, q))"

lemma push_all_view:
  "inv q \<Longrightarrow> length (view q) + length xs \<le> cap q \<Longrightarrow>
   inv (push_all q xs) \<and> view (push_all q xs) = view q @ xs \<and> cap (push_all q xs) = cap q"
  by (induction xs arbitrary: q) (auto simp: push_inv push_view push_cap)

lemma pop_many_view:
  "inv q \<Longrightarrow> n \<le> length (view q) \<Longrightarrow>
   fst (pop_many n q) = take n (view q) \<and> inv (snd (pop_many n q)) \<and>
   view (snd (pop_many n q)) = drop n (view q)"
proof (induction n arbitrary: q)
  case (Suc n)
  then have ne: "view q \<noteq> []" by auto
  let ?q = "snd (pop q)"
  have v: "view q = fst (pop q) # view ?q" and i: "inv ?q"
    using pop_view pop_inv Suc.prems(1) ne by auto
  then have "n \<le> length (view ?q)" using Suc.prems(2) by (metis Suc_le_mono length_Cons)
  with Suc.IH [of ?q] i have IH: "fst (pop_many n ?q) = take n (view ?q)"
      "inv (snd (pop_many n ?q))" "view (snd (pop_many n ?q)) = drop n (view ?q)"
    by auto
  have "pop_many (Suc n) q = (fst (pop q) # fst (pop_many n ?q), snd (pop_many n ?q))"
    by (simp add: split_def Let_def)
  with IH show ?case
    by (metis v fst_conv snd_conv take_Suc_Cons drop_Suc_Cons)
qed simp

text \<open>First in, first out: what is pushed on an empty queue is popped in the same order.\<close>

lemma fifo:
  assumes "inv q" and "view q = []" and "length xs \<le> cap q"
  shows "fst (pop_many (length xs) (push_all q xs)) = xs"
  using push_all_view [of q xs] pop_many_view [of "push_all q xs" "length xs"] assms by simp

end

section \<open>Both rings are bounded queues\<close>

definition sq_inv :: "submission_queue \<Rightarrow> bool" where
  "sq_inv q \<longleftrightarrow>
     length (sq_ring q) = sq_size q \<and> sq_size q < 2 ^ 32 \<and> sq_head q < sq_size q \<and>
     sq_len q \<le> sq_size q \<and> sq_tail q = (sq_head q + sq_len q) mod sq_size q"

definition sq_view :: "submission_queue \<Rightarrow> sub_ptr list" where
  "sq_view q = ring_list (sq_ring q) (sq_head q) (sq_len q)"

definition pq_inv :: "hash_pool \<Rightarrow> bool" where
  "pq_inv p \<longleftrightarrow>
     length (p_queue p) = p_queue_size p \<and> p_queue_size p < 2 ^ 32 \<and>
     p_queue_head p < p_queue_size p \<and> p_queue_len p \<le> p_queue_size p \<and>
     p_queue_tail p = (p_queue_head p + p_queue_len p) mod p_queue_size p"

definition pq_view :: "hash_pool \<Rightarrow> sub_ptr list" where
  "pq_view p = ring_list (p_queue p) (p_queue_head p) (p_queue_len p)"

lemma Suc_mod_ring: "Suc ((h + n) mod k) mod k = (h + Suc n) mod k"
  by (simp add: mod_Suc_eq)

lemma ring_tail_less: "h < k \<Longrightarrow> k < 2 ^ 32 \<Longrightarrow> Suc ((h + n) mod k) < 2 ^ 32"
  using mod_less_divisor [of k "h + n"] by linarith

lemma tail_after_pop:
  assumes "h < k" and "0 < (n::nat)"
  shows "(Suc h mod k + n - Suc 0) mod k = (h + n) mod k"
proof -
  obtain m where "n = Suc m" using assms(2) gr0_conv_Suc by blast
  then show ?thesis by (simp add: mod_Suc_eq mod_add_left_eq)
qed

lemma length_sq_view [simp]: "length (sq_view q) = sq_len q"
  by (simp add: sq_view_def)

lemma length_pq_view [simp]: "length (pq_view p) = p_queue_len p"
  by (simp add: pq_view_def)

lemma sq_push_inv:
  assumes "sq_inv q" and "sq_len q < sq_size q"
  shows "sq_inv (snd (submission_queue_push q x))"
proof -
  have "Suc (sq_tail q) < 2 ^ 32" using assms ring_tail_less by (simp add: sq_inv_def)
  then show ?thesis using assms
    by (simp add: sq_inv_def submission_queue_push_def Suc_mod_ring)
qed

lemma sq_push_view:
  assumes "sq_inv q" and "sq_len q < sq_size q"
  shows "sq_view (snd (submission_queue_push q x)) = sq_view q @ [x]"
proof -
  have "Suc (sq_len q) < 2 ^ 32" using assms by (simp add: sq_inv_def)
  then show ?thesis
    using assms ring_list_push [of "sq_len q" "sq_ring q" "sq_tail q" "sq_head q" x]
    by (simp add: sq_inv_def submission_queue_push_def sq_view_def)
qed

lemma sq_pop_inv:
  assumes "sq_inv q" and "sq_len q \<noteq> 0"
  shows "sq_inv (snd (snd (submission_queue_pop q)))"
proof -
  have "Suc (sq_head q) < 2 ^ 32" and "sq_len q < 2 ^ 32" using assms by (auto simp: sq_inv_def)
  then show ?thesis using assms
    by (auto simp: sq_inv_def submission_queue_pop_def tail_after_pop)
qed

lemma sq_pop_view:
  assumes "sq_inv q" and "sq_len q \<noteq> 0"
  shows "sq_view q =
    fst (snd (submission_queue_pop q)) # sq_view (snd (snd (submission_queue_pop q)))"
proof -
  have lt: "Suc (sq_head q) < 2 ^ 32" "sq_len q < 2 ^ 32" using assms by (auto simp: sq_inv_def)
  obtain n where n: "sq_len q = Suc n" using assms(2) by (cases "sq_len q") auto
  have "sq_ring q \<noteq> []" using assms by (auto simp: sq_inv_def)
  then show ?thesis
    using assms lt n ring_list_Suc [of "sq_ring q" "sq_head q" n]
    by (simp add: sq_inv_def submission_queue_pop_def sq_view_def)
qed

lemma pq_push_inv:
  assumes "pq_inv p" and "p_queue_len p < p_queue_size p"
  shows "pq_inv (push_unlocked p x)"
proof -
  have "Suc (p_queue_tail p) < 2 ^ 32" using assms ring_tail_less by (simp add: pq_inv_def)
  then show ?thesis using assms
    by (simp add: pq_inv_def push_unlocked_def Suc_mod_ring)
qed

lemma pq_push_view:
  assumes "pq_inv p" and "p_queue_len p < p_queue_size p"
  shows "pq_view (push_unlocked p x) = pq_view p @ [x]"
proof -
  have "Suc (p_queue_len p) < 2 ^ 32" using assms by (simp add: pq_inv_def)
  then show ?thesis
    using assms ring_list_push [of "p_queue_len p" "p_queue p" "p_queue_tail p" "p_queue_head p" x]
    by (simp add: pq_inv_def push_unlocked_def pq_view_def)
qed

lemma pq_pop_inv:
  assumes "pq_inv p" and "p_queue_len p \<noteq> 0"
  shows "pq_inv (snd (pop_unlocked p))"
proof -
  have "Suc (p_queue_head p) < 2 ^ 32" and "p_queue_len p < 2 ^ 32"
    using assms by (auto simp: pq_inv_def)
  then show ?thesis using assms
    by (auto simp: pq_inv_def pop_unlocked_def tail_after_pop)
qed

lemma pq_pop_view:
  assumes "pq_inv p" and "p_queue_len p \<noteq> 0"
  shows "pq_view p = fst (pop_unlocked p) # pq_view (snd (pop_unlocked p))"
proof -
  have lt: "Suc (p_queue_head p) < 2 ^ 32" "p_queue_len p < 2 ^ 32"
    using assms by (auto simp: pq_inv_def)
  obtain n where n: "p_queue_len p = Suc n" using assms(2) by (cases "p_queue_len p") auto
  have "p_queue p \<noteq> []" using assms by (auto simp: pq_inv_def)
  then show ?thesis
    using assms lt n ring_list_Suc [of "p_queue p" "p_queue_head p" n]
    by (simp add: pq_inv_def pop_unlocked_def pq_view_def)
qed

interpretation sqf: bounded_fifo sq_inv sq_view sq_size
  "\<lambda>q x. snd (submission_queue_push q x)" "\<lambda>q. snd (submission_queue_pop q)"
proof unfold_locales
  fix q x
  show "sq_inv q \<Longrightarrow> length (sq_view q) \<le> sq_size q" by (simp add: sq_inv_def)
  show "sq_size (snd (submission_queue_push q x)) = sq_size q"
    by (simp add: submission_queue_push_def)
  show "sq_size (snd (snd (submission_queue_pop q))) = sq_size q"
    by (simp add: submission_queue_pop_def)
qed (auto simp: sq_push_inv sq_push_view sq_pop_inv sq_view_def [symmetric]
  length_0_conv [symmetric] simp del: length_0_conv intro: sq_pop_view)

interpretation pqf: bounded_fifo pq_inv pq_view p_queue_size push_unlocked pop_unlocked
proof unfold_locales
  fix p x
  show "pq_inv p \<Longrightarrow> length (pq_view p) \<le> p_queue_size p" by (simp add: pq_inv_def)
  show "p_queue_size (push_unlocked p x) = p_queue_size p" by (simp add: push_unlocked_def)
  show "p_queue_size (snd (pop_unlocked p)) = p_queue_size p" by (simp add: pop_unlocked_def)
qed (auto simp: pq_push_inv pq_push_view pq_pop_inv
  length_0_conv [symmetric] simp del: length_0_conv intro: pq_pop_view)

section \<open>Properties of the queues\<close>

text \<open>
  C19. The submission queue is first in, first out, around the end of its ring: pushing any
  number of submissions that fits on an empty queue, wherever its head is, and popping as many
  gives them back in order.
\<close>

theorem submission_queue_fifo:
  assumes "sq_inv q" and "sq_len q = 0" and "length xs \<le> sq_size q"
  shows "fst (sqf.pop_many (length xs) (sqf.push_all q xs)) = xs"
  using assms by (intro sqf.fifo) (simp_all add: sq_view_def)

theorem submission_queue_fifo_witness:
  "let q = \<lparr>sq_ring = replicate 3 SubNULL, sq_ring_mem = Allocated, sq_size = 3, sq_len = 0,
           sq_head = 2, sq_tail = 2\<rparr>
   in sq_inv q \<and> fst (sqf.pop_many (length [Sub 7, Sub 8, Sub 9])
                       (sqf.push_all q [Sub 7, Sub 8, Sub 9])) = [Sub 7, Sub 8, Sub 9]"
proof -
  let ?q = "\<lparr>sq_ring = replicate 3 SubNULL, sq_ring_mem = Allocated, sq_size = 3, sq_len = 0,
             sq_head = 2, sq_tail = 2\<rparr>"
  have "sq_inv ?q" by (simp add: sq_inv_def)
  moreover have "fst (sqf.pop_many (length [Sub 7, Sub 8, Sub 9])
      (sqf.push_all ?q [Sub 7, Sub 8, Sub 9])) = [Sub 7, Sub 8, Sub 9]"
    using calculation by (intro submission_queue_fifo) simp_all
  ultimately show ?thesis by (simp only: Let_def)
qed

end
