(* ===== verification/Completion.thy ===== *)
theory Completion
  imports Queues
begin

text \<open>
  \<^verbatim>\<open>lib/completion.c\<close>: the reference-counted object that ties the submissions of one asynchronous
  update together, and its callback \<^verbatim>\<open>update_completed\<close> of \<^verbatim>\<open>lib/blkhash.c\<close>, which adds an entry to
  the completion queue and signals the event.
\<close>

section \<open>The error of a hash\<close>

text \<open>The first error is kept.\<close>

definition set_error :: "int \<Rightarrow> ('x, 'k) sys \<Rightarrow> int \<times> ('x, 'k) sys" where
  "set_error err s = (- 1, if error s = 0 then s\<lparr>error := err\<rparr> else s)"

section \<open>Completions\<close>

definition completion_new :: "nat \<Rightarrow> ('x, 'k) sys \<Rightarrow> nat option \<times> ('x, 'k) sys" where
  "completion_new user_data s =
     (case sys_acquire s of
        (False, s) \<Rightarrow> (None, s)
      | (True, s) \<Rightarrow>
          (case heap_new \<lparr>c_callback = Update_completed, c_user_data = user_data, c_error = 0,
                          c_refs = 1\<rparr> (comps s) of
             (c, H) \<Rightarrow> (Some c, s\<lparr>comps := H\<rparr>)))"

definition completion_set_error :: "nat \<Rightarrow> int \<Rightarrow> ('x, 'k) sys \<Rightarrow> ('x, 'k) sys option" where
  "completion_set_error c err s = do {
     v \<leftarrow> get_comp c s;
     put_comp c (if c_error v = 0 then v\<lparr>c_error := err\<rparr> else v) s
   }"

definition completion_ref :: "nat \<Rightarrow> ('x, 'k) sys \<Rightarrow> ('x, 'k) sys option" where
  "completion_ref c s = do {
     v \<leftarrow> get_comp c s;
     put_comp c (v\<lparr>c_refs := u32 (c_refs v + 1)\<rparr>) s
   }"

text \<open>\<^verbatim>\<open>update_completed\<close>, the part under the mutex of the completion queue and the part after it.\<close>

definition update_completed_enqueue ::
    "nat \<Rightarrow> int \<Rightarrow> ('x, 'k) sys \<Rightarrow> (bool \<times> ('x, 'k) sys) option" where
  "update_completed_enqueue user_data err s = do {
     let q = cq s;
     let was_empty = (cq_count q = 0);
     assert_that (cq_count q < queue_depth (config s));
     assert_that (cq_count q < length (cq_array q));
     let c = \<lparr>bc_user_data = user_data, bc_error = err\<rparr>;
     Some (was_empty,
           s\<lparr>cq := q\<lparr>cq_array := (cq_array q)[cq_count q := c], cq_count := u32 (cq_count q + 1)\<rparr>\<rparr>)
   }"

definition update_completed_signal ::
    "('x, 'k) ext \<Rightarrow> bool \<Rightarrow> ('x, 'k) sys \<Rightarrow> ('x, 'k) sys option" where
  "update_completed_signal E was_empty s =
     (if was_empty then do {
        e \<leftarrow> cq_event (cq s);
        (err, k) \<leftarrow> event_signal (host E) e (kern s);
        let s = s\<lparr>kern := k\<rparr>;
        Some (if err \<noteq> 0 then snd (set_error (- err) s) else s)
      } else Some s)"

definition update_completed ::
    "('x, 'k) ext \<Rightarrow> nat \<Rightarrow> int \<Rightarrow> ('x, 'k) sys \<Rightarrow> ('x, 'k) sys option" where
  "update_completed E user_data err s = do {
     (was_empty, s) \<leftarrow> update_completed_enqueue user_data err s;
     update_completed_signal E was_empty s
   }"

text \<open>
  \<^verbatim>\<open>completion_unref\<close>: the atomic decrement, and what follows when the count reaches zero. The
  calling thread runs it whole; a worker thread runs its parts as separate steps.
\<close>

definition completion_dec :: "nat \<Rightarrow> ('x, 'k) sys \<Rightarrow> (bool \<times> ('x, 'k) sys) option" where
  "completion_dec c s = do {
     v \<leftarrow> get_comp c s;
     let refs = sub32 (c_refs v) 1;
     s \<leftarrow> put_comp c (v\<lparr>c_refs := refs\<rparr>) s;
     Some (refs = 0, s)
   }"

definition completion_free :: "nat \<Rightarrow> ('x, 'k) sys \<Rightarrow> ('x, 'k) sys option" where
  "completion_free c s = do { H \<leftarrow> heap_free c (comps s); Some (s\<lparr>comps := H\<rparr>) }"

definition completion_unref :: "('x, 'k) ext \<Rightarrow> nat \<Rightarrow> ('x, 'k) sys \<Rightarrow> ('x, 'k) sys option" where
  "completion_unref E c s = do {
     (last, s) \<leftarrow> completion_dec c s;
     if last then do {
       v \<leftarrow> get_comp c s;
       s \<leftarrow> (case c_callback v of Update_completed \<Rightarrow>
               update_completed E (c_user_data v) (c_error v) s);
       completion_free c s
     } else Some s
   }"

end
