(* ===== verification/Submission.thy ===== *)
theory Submission
  imports Completion
begin

text \<open>
  \<^verbatim>\<open>lib/submission.h\<close> and \<^verbatim>\<open>lib/submission.c\<close>: the objects that carry one block from the calling
  thread through a worker back to the outer digest.
\<close>

section \<open>Creation and destruction\<close>

definition copy_data :: "submission \<Rightarrow> ('x, 'k) sys \<Rightarrow> ((int + submission) \<times> ('x, 'k) sys) option"
where
  "copy_data sub s =
     (case sys_acquire s of
        (False, s) \<Rightarrow> Some (Inl ENOMEM, s)
      | (True, s) \<Rightarrow> do {
          data \<leftarrow> load s (sub_data sub) (sub_len sub);
          Some (Inr (sub\<lparr>sub_data := Copied data\<rparr>), s)
        })"

definition submission_create_data ::
    "int \<Rightarrow> nat \<Rightarrow> ptr \<Rightarrow> nat option \<Rightarrow> 8 word \<Rightarrow> ('x, 'k) sys \<Rightarrow>
     ((int + nat) \<times> ('x, 'k) sys) option" where
  "submission_create_data idx len data completion flags s =
     (case sys_acquire s of
        (False, s) \<Rightarrow> Some (Inl ENOMEM, s)
      | (True, s) \<Rightarrow> do {
          let sub = \<lparr>sub_md = [], sub_completion = completion, sub_data = data, sub_index = idx,
                     sub_len = u32 len, sub_error = 0, sub_zero = False, sub_completed = False,
                     sub_flags = flags\<rparr>;
          (r, s) \<leftarrow> (if flags AND SUBMIT_COPY_DATA \<noteq> 0 then copy_data sub s
                    else Some (Inr sub, s));
          case r of
            Inl err \<Rightarrow> Some (Inl err, s)
          | Inr sub \<Rightarrow> do {
              s \<leftarrow> (case sub_completion sub of None \<Rightarrow> Some s | Some c \<Rightarrow> completion_ref c s);
              let (j, H) = heap_new sub (subs s);
              Some (Inr j, s\<lparr>subs := H\<rparr>)
            }
        })"

definition submission_create_zero ::
    "int \<Rightarrow> ('x, 'k) sys \<Rightarrow> (int + nat) \<times> ('x, 'k) sys" where
  "submission_create_zero idx s =
     (case sys_acquire s of
        (False, s) \<Rightarrow> (Inl ENOMEM, s)
      | (True, s) \<Rightarrow>
          (case heap_new \<lparr>sub_md = [], sub_completion = None, sub_data = NULL, sub_index = idx,
                          sub_len = 0, sub_error = 0, sub_zero = True, sub_completed = True,
                          sub_flags = 0\<rparr> (subs s) of
             (j, H) \<Rightarrow> (Inr j, s\<lparr>subs := H\<rparr>)))"

text \<open>The copied data of a submission is freed with it.\<close>

definition submission_destroy :: "nat \<Rightarrow> ('x, 'k) sys \<Rightarrow> ('x, 'k) sys option" where
  "submission_destroy j s = do { H \<leftarrow> heap_free j (subs s); Some (s\<lparr>subs := H\<rparr>) }"

fun submission_queue_clear :: "nat \<Rightarrow> ('x, 'k) sys \<Rightarrow> ('x, 'k) sys option" where
  "submission_queue_clear 0 s = Some s"
| "submission_queue_clear (Suc n) s =
     (case submission_queue_pop (sq s) of
        (_, Sub j, q) \<Rightarrow> do {
          s \<leftarrow> submission_destroy j (s\<lparr>sq := q\<rparr>);
          submission_queue_clear n s
        }
      | _ \<Rightarrow> None)"

definition submission_queue_destroy :: "('x, 'k) sys \<Rightarrow> ('x, 'k) sys option" where
  "submission_queue_destroy s = do {
     s \<leftarrow> submission_queue_clear (sq_len (sq s)) s;
     _ \<leftarrow> free_owned (sq_ring_mem (sq s));
     Some (s\<lparr>sq := sq_zero\<rparr>)
   }"

section \<open>The state of a submission\<close>

definition submission_set_zero :: "nat \<Rightarrow> ('x, 'k) sys \<Rightarrow> ('x, 'k) sys option" where
  "submission_set_zero j s = do { sub \<leftarrow> get_sub j s; put_sub j (sub\<lparr>sub_zero := True\<rparr>) s }"

definition submission_is_zero :: "submission \<Rightarrow> bool" where
  "submission_is_zero sub = sub_zero sub"

definition submission_set_error :: "nat \<Rightarrow> int \<Rightarrow> ('x, 'k) sys \<Rightarrow> ('x, 'k) sys option" where
  "submission_set_error j err s = do {
     sub \<leftarrow> get_sub j s;
     s \<leftarrow> put_sub j (sub\<lparr>sub_error := err\<rparr>) s;
     case sub_completion sub of None \<Rightarrow> Some s | Some c \<Rightarrow> completion_set_error c err s
   }"

definition submission_error :: "submission \<Rightarrow> int" where
  "submission_error sub = sub_error sub"

text \<open>The release store at the end of \<^verbatim>\<open>submission_complete\<close>.\<close>

definition submission_store_completed :: "nat \<Rightarrow> ('x, 'k) sys \<Rightarrow> ('x, 'k) sys option" where
  "submission_store_completed j s = do {
     sub \<leftarrow> get_sub j s;
     put_sub j (sub\<lparr>sub_completion := None, sub_completed := True\<rparr>) s
   }"

definition submission_complete ::
    "('x, 'k) ext \<Rightarrow> nat \<Rightarrow> ('x, 'k) sys \<Rightarrow> ('x, 'k) sys option" where
  "submission_complete E j s = do {
     sub \<leftarrow> get_sub j s;
     s \<leftarrow> (case sub_completion sub of None \<Rightarrow> Some s | Some c \<Rightarrow> completion_unref E c s);
     submission_store_completed j s
   }"

definition submission_is_completed :: "nat \<Rightarrow> ('x, 'k) sys \<Rightarrow> bool option" where
  "submission_is_completed j s = do { sub \<leftarrow> get_sub j s; Some (sub_completed sub) }"

end
