(* ===== verification/Zero.thy ===== *)
theory Zero
  imports Prelude
begin

text \<open>
  \<^verbatim>\<open>lib/zero.c\<close>: detecting a buffer of zeros by looking at its first sixteen bytes and comparing
  the buffer with itself, shifted by sixteen bytes. The self comparison is shown to decide
  whether every byte is zero.
\<close>

section \<open>Definitions\<close>

text \<open>The \<^verbatim>\<open>uint64_t\<close> a \<^verbatim>\<open>memcpy\<close> of eight bytes gives on a little endian machine.\<close>

definition bytes_nat :: "bytes \<Rightarrow> nat" where
  "bytes_nat bs = foldr (\<lambda>b n. unat b + 256 * n) bs 0"

definition load_u64 :: "bytes \<Rightarrow> 64 word" where
  "load_u64 bs = of_nat (bytes_nat (take 8 bs))"

text \<open>\<^verbatim>\<open>memcmp\<close> of two buffers of the same length: the sign of the first difference.\<close>

fun memcmp :: "bytes \<Rightarrow> bytes \<Rightarrow> int" where
  "memcmp (x # xs) (y # ys) = (if x = y then memcmp xs ys else if x < y then - 1 else 1)"
| "memcmp _ _ = 0"

definition is_zero :: "bytes \<Rightarrow> nat \<Rightarrow> bool option" where
  "is_zero buf len = do {
     assert_that (16 \<le> len);
     n \<leftarrow> load_array buf len;
     let n0 = load_u64 n;
     let n1 = load_u64 (drop 8 n);
     if n0 OR n1 \<noteq> 0 then Some False
     else Some (memcmp (take (len - 16) n) (drop 16 n) = 0)
   }"

section \<open>Properties\<close>

lemma bytes_nat_bound: "bytes_nat bs < 256 ^ length bs"
proof (induction bs)
  case Nil
  then show ?case by (simp add: bytes_nat_def)
next
  case (Cons b bs)
  have "unat b < 256" using unsigned_less [of b] by simp
  with Cons have "unat b + 256 * bytes_nat bs < 256 * 256 ^ length bs" by linarith
  then show ?case by (simp add: bytes_nat_def)
qed

lemma bytes_nat_eq_0: "bytes_nat bs = 0 \<longleftrightarrow> bs = zeros (length bs)"
  by (induction bs) (auto simp: bytes_nat_def unat_eq_0)

lemma load_u64_eq_0: "load_u64 bs = 0 \<longleftrightarrow> take 8 bs = zeros (length (take 8 bs))"
proof -
  have "bytes_nat (take 8 bs) < 256 ^ length (take 8 bs)" by (rule bytes_nat_bound)
  also have "\<dots> \<le> 256 ^ 8" by (rule power_increasing) auto
  finally have "bytes_nat (take 8 bs) < 2 ^ 64" by simp
  then have "load_u64 bs = 0 \<longleftrightarrow> bytes_nat (take 8 bs) = 0"
    by (simp add: load_u64_def word_of_nat_eq_0_iff nat_dvd_not_less)
       (metis dvd_imp_le linorder_not_le neq0_conv dvd_0_right)
  then show ?thesis by (simp add: bytes_nat_eq_0)
qed

lemma memcmp_eq_0: "length xs = length ys \<Longrightarrow> memcmp xs ys = 0 \<longleftrightarrow> xs = ys"
  by (induction xs ys rule: memcmp.induct) auto

text \<open>A list equal to itself shifted by a prefix of zeros is a list of zeros.\<close>

lemma shift_eq_zeros:
  assumes "take k xs = zeros k" and "0 < k" and "take (length xs - k) xs = drop k xs"
  shows "xs = zeros (length xs)"
proof -
  have "xs ! i = 0" if "i < length xs" for i
    using that
  proof (induction i rule: less_induct)
    case (less i)
    have len: "k \<le> length xs" using assms(1) by (metis length_replicate length_take min.cobounded1 min.absorb_iff2 nle_le)
    show ?case
    proof (cases "i < k")
      case True
      then show ?thesis using assms(1) by (metis nth_replicate nth_take)
    next
      case False
      then have "xs ! i = drop k xs ! (i - k)" using less.prems len by simp
      also have "\<dots> = take (length xs - k) xs ! (i - k)" using assms(3) by simp
      also have "\<dots> = xs ! (i - k)" using less.prems False by simp
      finally show ?thesis using less.IH [of "i - k"] less.prems False assms(2) by simp
    qed
  qed
  then show ?thesis by (intro nth_equalityI) auto
qed

lemma shift_eq_iff:
  assumes "take k xs = zeros k" and "0 < k"
  shows "take (length xs - k) xs = drop k xs \<longleftrightarrow> xs = zeros (length xs)"
proof
  assume "xs = zeros (length xs)"
  then obtain n where "xs = zeros n" by blast
  then show "take (length xs - k) xs = drop k xs" by (simp add: min_def)
qed (rule shift_eq_zeros [OF assms])

lemma take_zeros_split:
  "take 16 xs = zeros 16 \<longleftrightarrow> take 8 xs = zeros 8 \<and> take 8 (drop 8 xs) = zeros 8"
proof
  assume z: "take 16 xs = zeros 16"
  have "take 8 xs = take 8 (take 16 xs)" and "take 8 (drop 8 xs) = drop 8 (take 16 xs)"
    by (simp_all add: drop_take)
  then show "take 8 xs = zeros 8 \<and> take 8 (drop 8 xs) = zeros 8"
    by (simp add: z)
next
  assume z: "take 8 xs = zeros 8 \<and> take 8 (drop 8 xs) = zeros 8"
  have "take 16 xs = take 8 xs @ take 8 (drop 8 xs)"
    using take_add [of 8 8 xs] by simp
  then show "take 16 xs = zeros 16"
    by (simp add: z replicate_add [symmetric])
qed

lemma is_zero_value:
  assumes "16 \<le> len" and "len \<le> length buf"
  shows "is_zero buf len = Some (take len buf = zeros len)"
proof -
  let ?n = "take len buf"
  have len: "length ?n = len" using assms(2) by simp
  have first: "load_u64 ?n OR load_u64 (drop 8 ?n) = 0 \<longleftrightarrow> take 16 ?n = zeros 16"
    using assms by (simp add: load_u64_eq_0 take_zeros_split or_eq_0_iff drop_take)
  have "memcmp (take (len - 16) ?n) (drop 16 ?n) = 0 \<longleftrightarrow> ?n = zeros len"
    if "take 16 ?n = zeros 16"
  proof -
    have "memcmp (take (len - 16) ?n) (drop 16 ?n) = 0 \<longleftrightarrow>
          take (len - 16) ?n = drop 16 ?n"
      using len assms by (intro memcmp_eq_0) simp
    then show ?thesis
      using shift_eq_iff [OF that] unfolding len by simp
  qed
  moreover have "?n \<noteq> zeros len" if "take 16 ?n \<noteq> zeros 16"
    using that assms(1) by (metis min_def take_replicate)
  ultimately show ?thesis
    using assms first by (simp add: is_zero_def assert_that_def load_array_def Let_def)
qed

lemma ensures_is_zero [simp]:
  "ensures (is_zero buf len) Q \<longleftrightarrow>
     16 \<le> len \<and> len \<le> length buf \<and> Q (take len buf = zeros len)"
proof (cases "16 \<le> len \<and> len \<le> length buf")
  case True
  then show ?thesis by (simp add: is_zero_value)
next
  case False
  then show ?thesis by (auto simp: is_zero_def)
qed

text \<open>
  C18. \<^verbatim>\<open>is_zero\<close> decides whether all bytes of the buffer are zero, although it only compares the
  buffer with itself: it returns exactly when the length is at least sixteen and inside the
  buffer, and then returns true if and only if zero is the only byte among the first \<open>len\<close>.
\<close>

theorem is_zero_correct:
  "is_zero buf len =
     (if 16 \<le> len \<and> len \<le> length buf then Some (set (take len buf) \<subseteq> {0}) else None)"
proof -
  have "xs = zeros (length xs) \<longleftrightarrow> set xs \<subseteq> {0}" for xs :: bytes
    by (induction xs) auto
  then have "take len buf = zeros len \<longleftrightarrow> set (take len buf) \<subseteq> {0}" if "len \<le> length buf"
    using that by (metis length_take min.absorb2)
  moreover have "is_zero buf len = None" if "\<not> (16 \<le> len \<and> len \<le> length buf)"
    using ensures_is_zero [of buf len "\<lambda>_. True"] that by (auto simp: ensures_def)
  ultimately show ?thesis by (simp add: is_zero_value)
qed

end
