(* ===== verification/HashPool.thy ===== *)
theory HashPool
  imports Submission Zero
begin

text \<open>
  \<^verbatim>\<open>lib/hash-pool.c\<close>: the pool of worker threads that compute the digests of blocks, with the
  interleaving of the calling thread and the workers. Code under the mutex of the pool is one
  step; a worker is a thread that moves through the program points of type \<open>thread\<close>.
\<close>

section \<open>The pool structure\<close>

definition pool_zero :: hash_pool where
  "pool_zero =
     \<lparr>p_queue = [], p_queue_mem = Null, p_workers_mem = Null, p_queue_size = 0, p_queue_len = 0,
      p_queue_head = 0, p_queue_tail = 0, p_workers_count = 0, p_workers_idle = 0, p_error = 0,
      p_stopped = False\<rparr>"

definition pool_set_error :: "int \<Rightarrow> hash_pool \<Rightarrow> hash_pool" where
  "pool_set_error err p = (if p_error p = 0 then p\<lparr>p_error := err\<rparr> else p)"

definition active_workers :: "hash_pool \<Rightarrow> nat" where
  "active_workers p = sub32 (p_workers_count p) (p_workers_idle p)"

definition need_wakeup :: "hash_pool \<Rightarrow> bool" where
  "need_wakeup p \<longleftrightarrow> p_workers_idle p > 0 \<and> p_queue_len p > active_workers p"

text \<open>
  \<^verbatim>\<open>pthread_cond_signal\<close> wakes a thread that waits, if there is one; \<^verbatim>\<open>pthread_cond_broadcast\<close> wakes
  all of them. A thread may also wake up on its own: that is a step of a thread at \<open>Wait\<close>.
\<close>

fun wake :: "'x thread \<Rightarrow> 'x thread" where
  "wake (Wait d) = Woken d"
| "wake t = t"

fun is_Wait :: "'x thread \<Rightarrow> bool" where
  "is_Wait (Wait d) = True"
| "is_Wait t = False"

fun cond_signal :: "'x thread list \<Rightarrow> 'x thread list" where
  "cond_signal [] = []"
| "cond_signal (t # ts) = (if is_Wait t then wake t # ts else t # cond_signal ts)"

definition cond_broadcast :: "'x thread list \<Rightarrow> 'x thread list" where
  "cond_broadcast ts = map wake ts"

section \<open>A worker thread\<close>

definition set_thread :: "nat \<Rightarrow> 'x thread \<Rightarrow> ('x, 'k) sys \<Rightarrow> ('x, 'k) sys" where
  "set_thread i t s = s\<lparr>threads := (threads s)[i := t]\<rparr>"

text \<open>
  \<^verbatim>\<open>wait_for_work\<close> with the mutex held: go to sleep when there is nothing to do, otherwise take
  the first submission; \<^verbatim>\<open>worker_thread\<close> then terminates on \<^verbatim>\<open>STOP\<close>.
\<close>

definition wait_for_work ::
    "nat \<Rightarrow> 'x digest \<Rightarrow> ('x, 'k) sys \<Rightarrow> ('x, 'k) sys option" where
  "wait_for_work i d s =
     (if p_queue_len (pool s) = 0 then
        Some (set_thread i (Wait d)
          (s\<lparr>pool := (pool s)\<lparr>p_workers_idle := u32 (p_workers_idle (pool s) + 1)\<rparr>\<rparr>))
      else
        (case pop_unlocked (pool s) of
           (sub, p) \<Rightarrow>
             (case sub of
                SubNULL \<Rightarrow> None
              | STOP \<Rightarrow> Some (set_thread i Exited (s\<lparr>pool := p\<rparr>))
              | Sub j \<Rightarrow> Some (set_thread i (Work d j) (s\<lparr>pool := p\<rparr>)))))"

text \<open>Coming back from \<^verbatim>\<open>cond_wait\<close> with the mutex held.\<close>

definition wait_for_work_awake ::
    "nat \<Rightarrow> 'x digest \<Rightarrow> ('x, 'k) sys \<Rightarrow> ('x, 'k) sys option" where
  "wait_for_work_awake i d s =
     wait_for_work i d
       (s\<lparr>pool := (pool s)\<lparr>p_workers_idle := sub32 (p_workers_idle (pool s)) 1\<rparr>\<rparr>)"

definition pool_is_zero_block :: "submission \<Rightarrow> ('x, 'k) sys \<Rightarrow> bool option" where
  "pool_is_zero_block sub s =
     (if sub_flags sub AND SUBMIT_COPY_DATA = 0 \<and> sub_len sub = block_size (config s) then do {
        data \<leftarrow> load s (sub_data sub) (sub_len sub);
        is_zero data (sub_len sub)
      } else Some False)"

text \<open>
  \<^verbatim>\<open>compute_block_digest\<close> returns the digest object it used; the bytes that \<^verbatim>\<open>digest_final\<close> stores
  go to the \<^verbatim>\<open>md\<close> array of the submission, of \<^verbatim>\<open>BLKHASH_MAX_MD_SIZE\<close> bytes.
\<close>

definition compute_block_digest ::
    "('x, 'k) ext \<Rightarrow> nat \<Rightarrow> 'x digest \<Rightarrow> ('x, 'k) sys \<Rightarrow> ('x digest \<times> ('x, 'k) sys) option" where
  "compute_block_digest E j d s = do {
     sub \<leftarrow> get_sub j s;
     case digest_init (crypto E) d of (err, d) \<Rightarrow>
     if err \<noteq> 0 then do { s \<leftarrow> submission_set_error j (- err) s; Some (d, s) } else do {
     data \<leftarrow> load s (sub_data sub) (sub_len sub);
     case digest_update (crypto E) d data of (err, d) \<Rightarrow>
     if err \<noteq> 0 then do { s \<leftarrow> submission_set_error j (- err) s; Some (d, s) } else
     case digest_final (crypto E) d of (err, d, out) \<Rightarrow> do {
     assert_that (length out \<le> BLKHASH_MAX_MD_SIZE);
     s \<leftarrow> put_sub j (sub\<lparr>sub_md := out @ drop (length out) (sub_md sub)\<rparr>) s;
     if err \<noteq> 0 then do { s \<leftarrow> submission_set_error j (- err) s; Some (d, s) } else Some (d, s)
   }}}"

definition worker_process ::
    "('x, 'k) ext \<Rightarrow> nat \<Rightarrow> 'x digest \<Rightarrow> ('x, 'k) sys \<Rightarrow> ('x digest \<times> ('x, 'k) sys) option" where
  "worker_process E j d s = do {
     sub \<leftarrow> get_sub j s;
     zero \<leftarrow> pool_is_zero_block sub s;
     if zero then do { s \<leftarrow> submission_set_zero j s; Some (d, s) }
     else compute_block_digest E j d s
   }"

text \<open>One step of worker \<open>i\<close>.\<close>

definition worker_thread :: "('x, 'k) ext \<Rightarrow> nat \<Rightarrow> ('x, 'k) sys \<Rightarrow> ('x, 'k) sys option" where
  "worker_thread E i s =
     (if i \<ge> length (threads s) then Some s else
      case threads s ! i of
        Start \<Rightarrow>
          (case digest_create (crypto E) (digest_name (config s)) (faults s) of
             (Inl err, fs) \<Rightarrow>
               Some (set_thread i Exited (s\<lparr>faults := fs, pool := pool_set_error err (pool s)\<rparr>))
           | (Inr d, fs) \<Rightarrow> Some (set_thread i (Loop d) (s\<lparr>faults := fs\<rparr>)))
      | Loop d \<Rightarrow> wait_for_work i d s
      | Wait d \<Rightarrow> wait_for_work_awake i d s
      | Woken d \<Rightarrow> wait_for_work_awake i d s
      | Work d j \<Rightarrow> do { (d, s) \<leftarrow> worker_process E j d s; Some (set_thread i (Done d j) s) }
      | Done d j \<Rightarrow> do {
          sub \<leftarrow> get_sub j s;
          case sub_completion sub of
            None \<Rightarrow> Some (set_thread i (Store d j) s)
          | Some c \<Rightarrow> do {
              (last, s) \<leftarrow> completion_dec c s;
              Some (set_thread i (if last then Call d j c else Store d j) s)
            }
        }
      | Call d j c \<Rightarrow> do {
          v \<leftarrow> get_comp c s;
          (was_empty, s) \<leftarrow> update_completed_enqueue (c_user_data v) (c_error v) s;
          Some (set_thread i (Signal d j c was_empty) s)
        }
      | Signal d j c was_empty \<Rightarrow> do {
          s \<leftarrow> update_completed_signal E was_empty s;
          s \<leftarrow> completion_free c s;
          Some (set_thread i (Store d j) s)
        }
      | Store d j \<Rightarrow> do {
          s \<leftarrow> submission_store_completed j s;
          Some (set_thread i (Loop d) s)
        }
      | Exited \<Rightarrow> Some s)"

section \<open>Interleaving\<close>

fun run_workers :: "('x, 'k) ext \<Rightarrow> nat list \<Rightarrow> ('x, 'k) sys \<Rightarrow> ('x, 'k) sys option" where
  "run_workers E [] s = Some s"
| "run_workers E (i # is) s = do { s \<leftarrow> worker_thread E i s; run_workers E is s }"

text \<open>A point where the calling thread looks at shared state: the scheduled steps happen first.\<close>

definition yield :: "('x, 'k) ext \<Rightarrow> ('x, 'k) sys \<Rightarrow> ('x, 'k) sys option" where
  "yield E s =
     (case sched s of [] \<Rightarrow> Some s | is # rest \<Rightarrow> run_workers E is (s\<lparr>sched := rest\<rparr>))"

text \<open>
  Waiting for the workers. The scheduled steps come first; after them the workers that are not
  blocked run one after the other. \<open>work_left\<close> bounds the number of steps the workers can take
  on their own, so that a wait that exceeds it, or finds every worker blocked, never ends.
\<close>

fun runnable :: "'x thread \<Rightarrow> bool" where
  "runnable (Wait d) = False"
| "runnable Exited = False"
| "runnable t = True"

definition first_runnable :: "('x, 'k) sys \<Rightarrow> nat option" where
  "first_runnable s = find (\<lambda>i. runnable (threads s ! i)) [0..<length (threads s)]"

fun thread_work :: "'x thread \<Rightarrow> nat" where
  "thread_work Start = 2"
| "thread_work (Loop d) = 1"
| "thread_work (Wait d) = 0"
| "thread_work (Woken d) = 1"
| "thread_work (Work d j) = 6"
| "thread_work (Done d j) = 5"
| "thread_work (Call d j c) = 4"
| "thread_work (Signal d j c b) = 3"
| "thread_work (Store d j) = 2"
| "thread_work Exited = 0"

definition work_left :: "('x, 'k) sys \<Rightarrow> nat" where
  "work_left s = sum_list (map thread_work (threads s)) + 6 * p_queue_len (pool s)"

fun run_until ::
    "('x, 'k) ext \<Rightarrow> (('x, 'k) sys \<Rightarrow> bool) \<Rightarrow> nat \<Rightarrow> ('x, 'k) sys \<Rightarrow> ('x, 'k) sys option" where
  "run_until E P 0 s = (if P s then Some s else None)"
| "run_until E P (Suc n) s =
     (if P s then Some s
      else do { i \<leftarrow> first_runnable s; s \<leftarrow> worker_thread E i s; run_until E P n s })"

fun wait_sched ::
    "('x, 'k) ext \<Rightarrow> (('x, 'k) sys \<Rightarrow> bool) \<Rightarrow> nat list list \<Rightarrow> ('x, 'k) sys \<Rightarrow> ('x, 'k) sys option"
where
  "wait_sched E P [] s = run_until E P (work_left s) s"
| "wait_sched E P (is # rest) s =
     (if P s then Some (s\<lparr>sched := is # rest\<rparr>)
      else do { s \<leftarrow> run_workers E is s; wait_sched E P rest s })"

definition wait_until ::
    "('x, 'k) ext \<Rightarrow> (('x, 'k) sys \<Rightarrow> bool) \<Rightarrow> ('x, 'k) sys \<Rightarrow> ('x, 'k) sys option" where
  "wait_until E P s = wait_sched E P (sched s) (s\<lparr>sched := []\<rparr>)"

text \<open>\<^verbatim>\<open>submission_wait\<close> of \<^verbatim>\<open>submission.h\<close>: spin until the submission is completed.\<close>

definition completed_in :: "nat \<Rightarrow> ('x, 'k) sys \<Rightarrow> bool" where
  "completed_in j s \<longleftrightarrow> (case cells (subs s) j of None \<Rightarrow> False | Some sub \<Rightarrow> sub_completed sub)"

definition submission_wait ::
    "('x, 'k) ext \<Rightarrow> nat \<Rightarrow> ('x, 'k) sys \<Rightarrow> ('x, 'k) sys option" where
  "submission_wait E j s = do { sub \<leftarrow> get_sub j s; wait_until E (completed_in j) s }"

section \<open>Operations of the pool\<close>

definition hash_pool_submit ::
    "('x, 'k) ext \<Rightarrow> nat \<Rightarrow> ('x, 'k) sys \<Rightarrow> (int \<times> ('x, 'k) sys) option" where
  "hash_pool_submit E j s = do {
     let p = pool s;
     let err = (if p_stopped p then EPERM
                else if p_error p \<noteq> 0 then p_error p
                else if p_queue_len p = p_queue_size p then ENOBUFS else 0);
     let s = (if err \<noteq> 0 then s
              else let s = s\<lparr>pool := push_unlocked p (Sub j)\<rparr>
                   in if need_wakeup (pool s) then s\<lparr>threads := cond_signal (threads s)\<rparr> else s);
     if err \<noteq> 0 then do {
       s \<leftarrow> submission_set_error j err s;
       s \<leftarrow> submission_complete E j s;
       Some (err, s)
     } else Some (0, s)
   }"

fun fail_queued :: "('x, 'k) ext \<Rightarrow> nat \<Rightarrow> ('x, 'k) sys \<Rightarrow> ('x, 'k) sys option" where
  "fail_queued E 0 s = Some s"
| "fail_queued E (Suc n) s =
     (case pop_unlocked (pool s) of
        (Sub j, p) \<Rightarrow> do {
          s \<leftarrow> submission_set_error j EIO (s\<lparr>pool := p\<rparr>);
          s \<leftarrow> submission_complete E j s;
          fail_queued E n s
        }
      | _ \<Rightarrow> None)"

fun push_stops :: "nat \<Rightarrow> hash_pool \<Rightarrow> hash_pool" where
  "push_stops 0 p = p"
| "push_stops (Suc n) p = push_stops n (push_unlocked p STOP)"

definition exited_in :: "nat \<Rightarrow> ('x, 'k) sys \<Rightarrow> bool" where
  "exited_in i s \<longleftrightarrow> threads s ! i = Exited"

fun join_workers :: "('x, 'k) ext \<Rightarrow> nat list \<Rightarrow> ('x, 'k) sys \<Rightarrow> ('x, 'k) sys option" where
  "join_workers E [] s = Some s"
| "join_workers E (i # is) s = do {
     assert_that (i < length (threads s));
     s \<leftarrow> wait_until E (exited_in i) s;
     join_workers E is s
   }"

definition stop_workers :: "('x, 'k) ext \<Rightarrow> ('x, 'k) sys \<Rightarrow> ('x, 'k) sys option" where
  "stop_workers E s = do {
     s \<leftarrow> yield E s;
     let s = s\<lparr>pool := (pool s)\<lparr>p_stopped := True\<rparr>\<rparr>;
     s \<leftarrow> fail_queued E (p_queue_len (pool s)) s;
     let s = s\<lparr>pool := push_stops (p_workers_count (pool s)) (pool s)\<rparr>;
     let s = s\<lparr>threads := cond_broadcast (threads s)\<rparr>;
     join_workers E [0..<p_workers_count (pool s)] s
   }"

definition pool_free :: "('x, 'k) sys \<Rightarrow> ('x, 'k) sys option" where
  "pool_free s = do {
     w \<leftarrow> free_owned (p_workers_mem (pool s));
     q \<leftarrow> free_owned (p_queue_mem (pool s));
     Some (s\<lparr>pool := (pool s)\<lparr>p_workers_mem := w, p_queue_mem := q\<rparr>\<rparr>)
   }"

text \<open>
  The loop that creates the threads: it returns 0, or the error of \<^verbatim>\<open>pthread_create\<close> with the
  threads created so far.
\<close>

fun create_workers :: "nat \<Rightarrow> ('x, 'k) sys \<Rightarrow> int \<times> ('x, 'k) sys" where
  "create_workers 0 s = (0, s)"
| "create_workers (Suc n) s =
     (case sys_acquire s of
        (False, s) \<Rightarrow> (EAGAIN, s)
      | (True, s) \<Rightarrow>
          create_workers n
            (s\<lparr>threads := threads s @ [Start],
               pool := (pool s)\<lparr>p_workers_count := u32 (p_workers_count (pool s) + 1)\<rparr>\<rparr>))"

definition hash_pool_init :: "('x, 'k) ext \<Rightarrow> ('x, 'k) sys \<Rightarrow> (int \<times> ('x, 'k) sys) option" where
  "hash_pool_init E s = do {
     let c = config s;
     let s = s\<lparr>pool := (pool s)\<lparr>p_queue_size := max_submissions c, p_queue_len := 0,
                 p_queue_head := 0, p_queue_tail := 0, p_workers_count := 0, p_workers_idle := 0,
                 p_stopped := False, p_error := 0\<rparr>\<rparr>;
     case sys_acquire s of
       (False, s) \<Rightarrow> Some (ENOMEM, s\<lparr>pool := (pool s)\<lparr>p_queue_mem := Null\<rparr>\<rparr>)
     | (True, s) \<Rightarrow>
     let s = s\<lparr>pool := (pool s)\<lparr>p_queue := replicate (max_submissions c) SubNULL,
                                 p_queue_mem := Allocated\<rparr>\<rparr>
     in case sys_acquire s of
       (False, s) \<Rightarrow> do {
         let s = s\<lparr>pool := (pool s)\<lparr>p_workers_mem := Null\<rparr>\<rparr>;
         q \<leftarrow> free_owned (p_queue_mem (pool s));
         Some (ENOMEM, s\<lparr>pool := (pool s)\<lparr>p_queue_mem := q\<rparr>\<rparr>)
       }
     | (True, s) \<Rightarrow>
     let s = s\<lparr>pool := (pool s)\<lparr>p_workers_mem := Allocated\<rparr>\<rparr>
     in case sys_acquire s of
       (False, s) \<Rightarrow> do { s \<leftarrow> pool_free s; Some (EAGAIN, s) }
     | (True, s) \<Rightarrow>
     case sys_acquire s of
       (False, s) \<Rightarrow> do { s \<leftarrow> pool_free s; Some (EAGAIN, s) }
     | (True, s) \<Rightarrow>
     case create_workers (workers c) s of
       (err, s) \<Rightarrow>
         if err \<noteq> 0 then do { s \<leftarrow> stop_workers E s; s \<leftarrow> pool_free s; Some (err, s) }
         else Some (0, s)
   }"

definition hash_pool_destroy :: "('x, 'k) ext \<Rightarrow> ('x, 'k) sys \<Rightarrow> ('x, 'k) sys option" where
  "hash_pool_destroy E s = do { s \<leftarrow> stop_workers E s; pool_free s }"

end
