(* ===== verification/Blkhash.thy ===== *)
theory Blkhash
  imports HashPool
begin

text \<open>
  \<^verbatim>\<open>lib/blkhash.c\<close>: the hash itself. Operations run in the calling thread and interleave with the
  workers at the points marked by \<open>yield\<close> and in the waits. A function that returns an \<^verbatim>\<open>int\<close> in
  the source returns it with the state after the call.
\<close>

section \<open>The outer digest\<close>

definition outer_update ::
    "('x, 'k) ext \<Rightarrow> bytes \<Rightarrow> ('x, 'k) sys \<Rightarrow> (int \<times> ('x, 'k) sys) option" where
  "outer_update E data s = do {
     d \<leftarrow> outer_digest s;
     case digest_update (crypto E) d data of
       (err, d) \<Rightarrow> Some (- err, s\<lparr>outer_digest := Some d\<rparr>)
   }"

text \<open>The loop of \<^verbatim>\<open>hash_submission\<close> that adds the zero blocks before a submission.\<close>

fun hash_zero_blocks ::
    "('x, 'k) ext \<Rightarrow> nat \<Rightarrow> ('x, 'k) sys \<Rightarrow> (int \<times> ('x, 'k) sys) option" where
  "hash_zero_blocks E 0 s = Some (0, s)"
| "hash_zero_blocks E (Suc n) s = do {
     md \<leftarrow> load_array (zero_md (config s)) (md_len (config s));
     (err, s) \<leftarrow> outer_update E md s;
     if err \<noteq> 0 then Some (set_error err s)
     else hash_zero_blocks E n (s\<lparr>hashed_index := s64 (hashed_index s + 1)\<rparr>)
   }"

definition hash_submission ::
    "('x, 'k) ext \<Rightarrow> nat \<Rightarrow> ('x, 'k) sys \<Rightarrow> (int \<times> ('x, 'k) sys) option" where
  "hash_submission E j s = do {
     sub \<leftarrow> get_sub j s;
     let err = submission_error sub;
     if err \<noteq> 0 then Some (set_error err s) else do {
       (r, s) \<leftarrow> hash_zero_blocks E (nat (sub_index sub - hashed_index s)) s;
       if r \<noteq> 0 then Some (r, s)
       else if \<not> submission_is_zero sub then do {
         md \<leftarrow> load_array (sub_md sub) (md_len (config s));
         (err, s) \<leftarrow> outer_update E md s;
         if err \<noteq> 0 then Some (set_error err s)
         else Some (0, s\<lparr>hashed_index := s64 (hashed_index s + 1)\<rparr>)
       } else Some (0, s)
     }
   }"

definition bswap64 :: "64 word \<Rightarrow> 64 word" where
  "bswap64 w = of_nat (bytes_nat (rev (le_bytes w)))"

definition hash_message_length ::
    "('x, 'k) ext \<Rightarrow> ('x, 'k) sys \<Rightarrow> (int \<times> ('x, 'k) sys) option" where
  "hash_message_length E s = do {
     let data = (if little_endian (host E) then message_length s else bswap64 (message_length s));
     (err, s) \<leftarrow> outer_update E (host_bytes (little_endian (host E)) data) s;
     if err \<noteq> 0 then Some (set_error err s) else Some (0, s)
   }"

section \<open>Submissions\<close>

definition maybe_hash_first_submission ::
    "('x, 'k) ext \<Rightarrow> ('x, 'k) sys \<Rightarrow> (int \<times> ('x, 'k) sys) option" where
  "maybe_hash_first_submission E s =
     (if \<not> submission_queue_full (sq s) then Some (0, s)
      else case submission_queue_pop (sq s) of
        (err, sub, q) \<Rightarrow>
          if err \<noteq> 0 then Some (set_error err s)
          else case sub of
            Sub j \<Rightarrow> do {
              s \<leftarrow> submission_wait E j (s\<lparr>sq := q\<rparr>);
              (r, s) \<leftarrow> hash_submission E j s;
              if r \<noteq> 0 then Some (error s, s)
              else do { s \<leftarrow> submission_destroy j s; Some (0, s) }
            }
          | _ \<Rightarrow> None)"

text \<open>
  The loops over the submission queue; each turn removes one entry, so the length of the queue
  bounds their number.
\<close>

fun hash_completed ::
    "('x, 'k) ext \<Rightarrow> nat \<Rightarrow> ('x, 'k) sys \<Rightarrow> (int \<times> ('x, 'k) sys) option" where
  "hash_completed E 0 s = Some (0, s)"
| "hash_completed E (Suc n) s =
     (case submission_queue_first (sq s) of
        Sub j \<Rightarrow> do {
          s \<leftarrow> yield E s;
          completed \<leftarrow> submission_is_completed j s;
          if \<not> completed then Some (0, s) else do {
            let s = s\<lparr>sq := snd (snd (submission_queue_pop (sq s)))\<rparr>;
            (r, s) \<leftarrow> hash_submission E j s;
            if r \<noteq> 0 then Some (error s, s)
            else do { s \<leftarrow> submission_destroy j s; hash_completed E n s }
          }
        }
      | SubNULL \<Rightarrow> Some (0, s)
      | STOP \<Rightarrow> None)"

definition hash_completed_submissions ::
    "('x, 'k) ext \<Rightarrow> ('x, 'k) sys \<Rightarrow> (int \<times> ('x, 'k) sys) option" where
  "hash_completed_submissions E s = hash_completed E (sq_len (sq s)) s"

fun hash_inflight ::
    "('x, 'k) ext \<Rightarrow> nat \<Rightarrow> ('x, 'k) sys \<Rightarrow> (int \<times> ('x, 'k) sys) option" where
  "hash_inflight E 0 s = Some (0, s)"
| "hash_inflight E (Suc n) s =
     (case submission_queue_first (sq s) of
        Sub j \<Rightarrow> do {
          s \<leftarrow> submission_wait E j s;
          let s = s\<lparr>sq := snd (snd (submission_queue_pop (sq s)))\<rparr>;
          (r, s) \<leftarrow> hash_submission E j s;
          if r \<noteq> 0 then Some (error s, s)
          else do { s \<leftarrow> submission_destroy j s; hash_inflight E n s }
        }
      | SubNULL \<Rightarrow> Some (0, s)
      | STOP \<Rightarrow> None)"

definition hash_inflight_submissions ::
    "('x, 'k) ext \<Rightarrow> ('x, 'k) sys \<Rightarrow> (int \<times> ('x, 'k) sys) option" where
  "hash_inflight_submissions E s = hash_inflight E (sq_len (sq s)) s"

definition submit_zero_block ::
    "('x, 'k) ext \<Rightarrow> ('x, 'k) sys \<Rightarrow> (int \<times> ('x, 'k) sys) option" where
  "submit_zero_block E s = do {
     (r, s) \<leftarrow> maybe_hash_first_submission E s;
     if r \<noteq> 0 then Some (error s, s) else
     case submission_create_zero (block_index s) s of
       (Inl err, s) \<Rightarrow> Some (set_error err s)
     | (Inr j, s) \<Rightarrow>
     case submission_queue_push (sq s) (Sub j) of
       (err, q) \<Rightarrow>
         if err \<noteq> 0 then do { s \<leftarrow> submission_destroy j s; Some (set_error err s) }
         else do {
           let s = s\<lparr>sq := q, submitted_index := block_index s\<rparr>;
           (r, s) \<leftarrow> hash_completed_submissions E s;
           if r \<noteq> 0 then Some (error s, s) else Some (0, s)
         }
   }"

text \<open>\<^verbatim>\<open>submit_data_block\<close>: the part that creates and submits the block, and the whole function.\<close>

definition enqueue_data_block ::
    "('x, 'k) ext \<Rightarrow> ptr \<Rightarrow> nat \<Rightarrow> nat option \<Rightarrow> 8 word \<Rightarrow> ('x, 'k) sys \<Rightarrow>
     (int \<times> ('x, 'k) sys) option" where
  "enqueue_data_block E buf len completion flags s = do {
     (r, s) \<leftarrow> submission_create_data (block_index s) len buf completion flags s;
     case r of
       Inl err \<Rightarrow> Some (set_error err s)
     | Inr j \<Rightarrow>
     case submission_queue_push (sq s) (Sub j) of
       (err, q) \<Rightarrow>
         if err \<noteq> 0 then do { s \<leftarrow> submission_destroy j s; Some (set_error err s) }
         else do {
           (err, s) \<leftarrow> hash_pool_submit E j (s\<lparr>sq := q\<rparr>);
           if err \<noteq> 0 then Some (set_error err s)
           else do {
             let s = s\<lparr>submitted_index := block_index s, block_index := s64 (block_index s + 1)\<rparr>;
             (r, s) \<leftarrow> hash_completed_submissions E s;
             if r \<noteq> 0 then Some (error s, s) else Some (0, s)
           }
         }
   }"

definition submit_data_block ::
    "('x, 'k) ext \<Rightarrow> ptr \<Rightarrow> nat \<Rightarrow> nat option \<Rightarrow> 8 word \<Rightarrow> ('x, 'k) sys \<Rightarrow>
     (int \<times> ('x, 'k) sys) option" where
  "submit_data_block E buf len completion flags s = do {
     (r, s) \<leftarrow> maybe_hash_first_submission E s;
     if r \<noteq> 0 then Some (error s, s) else do {
       s \<leftarrow> yield E s;
       enqueue_data_block E buf len completion flags s
     }
   }"

section \<open>The pending buffer\<close>

definition add_pending_data ::
    "ptr \<Rightarrow> nat \<Rightarrow> ('x, 'k) sys \<Rightarrow> (nat \<times> ('x, 'k) sys) option" where
  "add_pending_data buf len s = do {
     let b = pending s;
     let n = min len (sub64 (block_size (config s)) (buf_len b));
     b \<leftarrow> (if buf_zero b then do {
             data \<leftarrow> memset_at (buf_data b) 0 0 (buf_len b);
             Some (b\<lparr>buf_data := data, buf_zero := False\<rparr>)
           } else Some b);
     src \<leftarrow> load s buf n;
     data \<leftarrow> memcpy_at (buf_data b) (buf_len b) src;
     Some (n, s\<lparr>pending := b\<lparr>buf_data := data, buf_len := u64 (buf_len b + n)\<rparr>\<rparr>)
   }"

definition add_pending_zeros ::
    "nat \<Rightarrow> ('x, 'k) sys \<Rightarrow> (nat \<times> ('x, 'k) sys) option" where
  "add_pending_zeros len s = do {
     let b = pending s;
     let n = min len (sub64 (block_size (config s)) (buf_len b));
     b \<leftarrow> (if buf_len b = 0 then Some (b\<lparr>buf_zero := True\<rparr>)
           else if \<not> buf_zero b then do {
             data \<leftarrow> memset_at (buf_data b) (buf_len b) 0 n;
             Some (b\<lparr>buf_data := data\<rparr>)
           } else Some b);
     Some (n, s\<lparr>pending := b\<lparr>buf_len := u64 (buf_len b + n)\<rparr>\<rparr>)
   }"

section \<open>Consuming blocks\<close>

definition ZERO_BATCH_SIZE :: int where
  "ZERO_BATCH_SIZE = 1024"

definition consume_zero_blocks ::
    "('x, 'k) ext \<Rightarrow> nat \<Rightarrow> ('x, 'k) sys \<Rightarrow> (int \<times> ('x, 'k) sys) option" where
  "consume_zero_blocks E count s =
     (let s = s\<lparr>block_index := s64 (block_index s + int count)\<rparr>
      in if s64 (block_index s - submitted_index s) \<ge> ZERO_BATCH_SIZE then submit_zero_block E s
         else Some (0, s))"

definition is_zero_block :: "ptr \<Rightarrow> nat \<Rightarrow> ('x, 'k) sys \<Rightarrow> bool option" where
  "is_zero_block buf len s =
     (if len = block_size (config s) then do { data \<leftarrow> load s buf len; is_zero data len }
      else Some False)"

definition consume_data_block ::
    "('x, 'k) ext \<Rightarrow> ptr \<Rightarrow> nat \<Rightarrow> nat option \<Rightarrow> 8 word \<Rightarrow> ('x, 'k) sys \<Rightarrow>
     (int \<times> ('x, 'k) sys) option" where
  "consume_data_block E buf len completion flags s = do {
     zero \<leftarrow> (if flags AND SUBMIT_COPY_DATA \<noteq> 0 then is_zero_block buf len s else Some False);
     if zero then consume_zero_blocks E 1 s
     else submit_data_block E buf len completion flags s
   }"

definition consume_pending ::
    "('x, 'k) ext \<Rightarrow> nat option \<Rightarrow> ('x, 'k) sys \<Rightarrow> (int \<times> ('x, 'k) sys) option" where
  "consume_pending E completion s = do {
     let b = pending s;
     assert_that (buf_len b \<le> block_size (config s));
     (r, s) \<leftarrow> (if buf_len b = block_size (config s) \<and> buf_zero b then consume_zero_blocks E 1 s
               else do {
                 b \<leftarrow> (if buf_zero b then do {
                         data \<leftarrow> memset_at (buf_data b) 0 0 (buf_len b);
                         Some (b\<lparr>buf_data := data\<rparr>)
                       } else Some b);
                 consume_data_block E Pending_data (buf_len b) completion SUBMIT_COPY_DATA
                   (s\<lparr>pending := b\<rparr>)
               });
     if r \<noteq> 0 then Some (- 1, s)
     else Some (0, s\<lparr>pending := (pending s)\<lparr>buf_len := 0, buf_zero := False\<rparr>\<rparr>)
   }"

section \<open>Updating the hash\<close>

text \<open>
  The loop of \<^verbatim>\<open>do_update\<close> over the full blocks of the caller's buffer; it returns the address and
  the length of what is left.
\<close>

partial_function (option) update_blocks ::
    "('x, 'k) ext \<Rightarrow> nat \<Rightarrow> nat \<Rightarrow> nat option \<Rightarrow> 8 word \<Rightarrow> ('x, 'k) sys \<Rightarrow>
     (int \<times> nat \<times> nat \<times> ('x, 'k) sys) option" where
  "update_blocks E a len completion flags s =
     (if len \<ge> block_size (config s) then do {
        (r, s') \<leftarrow> consume_data_block E (User a) (block_size (config s)) completion flags s;
        if r \<noteq> 0 then Some (error s', a, len, s')
        else update_blocks E (a + block_size (config s)) (len - block_size (config s))
               completion flags s'
      } else Some (0, a, len, s))"

declare update_blocks.simps [code]

text \<open>
  \<^verbatim>\<open>do_update\<close>: the part that fills the pending buffer, which returns what is left of the caller's
  buffer; the part that follows; and the whole function.
\<close>

definition update_pending ::
    "('x, 'k) ext \<Rightarrow> nat \<Rightarrow> nat \<Rightarrow> nat option \<Rightarrow> ('x, 'k) sys \<Rightarrow>
     (int \<times> nat \<times> nat \<times> ('x, 'k) sys) option" where
  "update_pending E a len completion s =
     (if buf_len (pending s) > 0 then do {
        (n, s) \<leftarrow> add_pending_data (User a) len s;
        if buf_len (pending s) = block_size (config s) then do {
          (r, s) \<leftarrow> consume_pending E completion s;
          Some (if r \<noteq> 0 then error s else 0, a + n, len - n, s)
        } else Some (0, a + n, len - n, s)
      } else Some (0, a, len, s))"

definition update_rest ::
    "('x, 'k) ext \<Rightarrow> nat \<Rightarrow> nat \<Rightarrow> nat option \<Rightarrow> 8 word \<Rightarrow> ('x, 'k) sys \<Rightarrow>
     (int \<times> ('x, 'k) sys) option" where
  "update_rest E a len completion flags s = do {
     (r, a, len, s) \<leftarrow> update_blocks E a len completion flags s;
     if r \<noteq> 0 then Some (r, s)
     else if len > 0 then do { (n, s) \<leftarrow> add_pending_data (User a) len s; Some (0, s) }
     else Some (0, s)
   }"

definition do_update ::
    "('x, 'k) ext \<Rightarrow> nat \<Rightarrow> nat \<Rightarrow> nat option \<Rightarrow> 8 word \<Rightarrow> ('x, 'k) sys \<Rightarrow>
     (int \<times> ('x, 'k) sys) option" where
  "do_update E a len completion flags s = do {
     (r, a, len, s) \<leftarrow> update_pending E a len completion s;
     if r \<noteq> 0 then Some (r, s) else update_rest E a len completion flags s
   }"

definition blkhash_update ::
    "('x, 'k) ext \<Rightarrow> nat \<Rightarrow> nat \<Rightarrow> ('x, 'k) sys \<Rightarrow> (int \<times> ('x, 'k) sys) option" where
  "blkhash_update E a len s = do {
     s \<leftarrow> yield E s;
     if error s \<noteq> 0 then Some (error s, s)
     else do_update E a len None SUBMIT_COPY_DATA
            (s\<lparr>message_length := message_length s + of_nat len\<rparr>)
   }"

definition blkhash_aio_update ::
    "('x, 'k) ext \<Rightarrow> nat \<Rightarrow> nat \<Rightarrow> nat \<Rightarrow> ('x, 'k) sys \<Rightarrow> (int \<times> ('x, 'k) sys) option" where
  "blkhash_aio_update E a len user_data s = do {
     s \<leftarrow> yield E s;
     if error s \<noteq> 0 then Some (error s, s)
     else if inflight s \<ge> queue_depth (config s) then Some (EAGAIN, s)
     else case completion_new user_data (s\<lparr>inflight := u32 (inflight s + 1)\<rparr>) of
       (None, s) \<Rightarrow> (let s = snd (set_error ENOMEM s) in Some (error s, s))
     | (Some c, s) \<Rightarrow> do {
         (r, s) \<leftarrow> do_update E a len (Some c) 0
                    (s\<lparr>message_length := message_length s + of_nat len\<rparr>);
         s \<leftarrow> (if r \<noteq> 0 then completion_set_error c (error s) s else Some s);
         s \<leftarrow> yield E s;
         s \<leftarrow> completion_unref E c s;
         Some (0, s)
       }
   }"

definition blkhash_aio_completion_fd :: "('x, 'k) sys \<Rightarrow> int" where
  "blkhash_aio_completion_fd s =
     (case cq_event (cq s) of None \<Rightarrow> - ENOTSUP | Some e \<Rightarrow> read_fd e)"

text \<open>
  \<^verbatim>\<open>blkhash_aio_completions\<close>: the part under the mutex of the completion queue, what follows it, and
  the whole function.
\<close>

definition cq_take ::
    "nat \<Rightarrow> completion_queue \<Rightarrow> nat \<times> blkhash_completion list \<times> completion_queue" where
  "cq_take cnt q =
     (let n = min cnt (cq_count q);
          left = sub32 (cq_count q) n
      in if n > 0 then
           (n, take n (cq_array q),
            q\<lparr>cq_count := left,
              cq_array := (if left > 0 then take left (drop n (cq_array q)) @ drop left (cq_array q)
                           else cq_array q)\<rparr>)
         else (n, [], q))"

definition take_completions ::
    "('x, 'k) ext \<Rightarrow> nat \<Rightarrow> ('x, 'k) sys \<Rightarrow>
     (int \<times> blkhash_completion list \<times> ('x, 'k) sys) option" where
  "take_completions E cnt s =
     (case cq_take cnt (cq s) of
        (n, out, q) \<Rightarrow> do {
          assert_that (n > 0 \<longrightarrow> inflight s \<ge> n);
          let s = s\<lparr>cq := q, inflight := sub32 (inflight s) n\<rparr>;
          if n > 0 \<and> cq_count q > 0 then do {
            e \<leftarrow> cq_event q;
            (err, k) \<leftarrow> event_signal (host E) e (kern s);
            let s = s\<lparr>kern := k\<rparr>;
            if err \<noteq> 0 then Some (err, out, snd (set_error (- err) s))
            else Some (int n, out, s)
          } else Some (int n, out, s)
        })"

definition blkhash_aio_completions ::
    "('x, 'k) ext \<Rightarrow> nat \<Rightarrow> ('x, 'k) sys \<Rightarrow>
     (int \<times> blkhash_completion list \<times> ('x, 'k) sys) option" where
  "blkhash_aio_completions E cnt s = do {
     s \<leftarrow> yield E s;
     if error s \<noteq> 0 then Some (- error s, [], s) else take_completions E cnt s
   }"

text \<open>\<^verbatim>\<open>blkhash_zero\<close>, in the same parts as \<^verbatim>\<open>do_update\<close>.\<close>

definition zero_pending ::
    "('x, 'k) ext \<Rightarrow> nat \<Rightarrow> ('x, 'k) sys \<Rightarrow> (int \<times> nat \<times> ('x, 'k) sys) option" where
  "zero_pending E len s =
     (if buf_len (pending s) > 0 then do {
        (n, s) \<leftarrow> add_pending_zeros len s;
        if buf_len (pending s) = block_size (config s) then do {
          (r, s) \<leftarrow> consume_pending E None s;
          Some (if r \<noteq> 0 then error s else 0, len - n, s)
        } else Some (0, len - n, s)
      } else Some (0, len, s))"

definition zero_rest ::
    "('x, 'k) ext \<Rightarrow> nat \<Rightarrow> ('x, 'k) sys \<Rightarrow> (int \<times> ('x, 'k) sys) option" where
  "zero_rest E len s = do {
     (r, len, s) \<leftarrow>
       (if len \<ge> block_size (config s) then do {
          assert_that (block_size (config s) \<noteq> 0);
          (r, s) \<leftarrow> consume_zero_blocks E (len div block_size (config s)) s;
          Some (if r \<noteq> 0 then error s else 0, len mod block_size (config s), s)
        } else Some (0, len, s));
     if r \<noteq> 0 then Some (r, s)
     else if len > 0 then do { (n, s) \<leftarrow> add_pending_zeros len s; Some (0, s) }
     else Some (0, s)
   }"

definition blkhash_zero ::
    "('x, 'k) ext \<Rightarrow> nat \<Rightarrow> ('x, 'k) sys \<Rightarrow> (int \<times> ('x, 'k) sys) option" where
  "blkhash_zero E len s = do {
     s \<leftarrow> yield E s;
     if error s \<noteq> 0 then Some (error s, s) else do {
       (r, len, s) \<leftarrow> zero_pending E len (s\<lparr>message_length := message_length s + of_nat len\<rparr>);
       if r \<noteq> 0 then Some (r, s) else zero_rest E len s
     }
   }"

section \<open>Finishing\<close>

text \<open>The digest is what \<^verbatim>\<open>md_value\<close> receives.\<close>

definition blkhash_final ::
    "('x, 'k) ext \<Rightarrow> ('x, 'k) sys \<Rightarrow> (int \<times> bytes \<times> ('x, 'k) sys) option" where
  "blkhash_final E s =
     (if finalized s then Some (EINVAL, [], s) else do {
        let s = s\<lparr>finalized := True\<rparr>;
        (r, s) \<leftarrow> (if buf_len (pending s) > 0 then consume_pending E None s
                  else submit_zero_block E s);
        if r \<noteq> 0 then Some (error s, [], s) else do {
        (r, s) \<leftarrow> hash_inflight_submissions E s;
        if r \<noteq> 0 then Some (error s, [], s) else do {
        (r, s) \<leftarrow> hash_message_length E s;
        if r \<noteq> 0 then Some (error s, [], s) else do {
        d \<leftarrow> outer_digest s;
        case digest_final (crypto E) d of
          (err, d, md) \<Rightarrow> Some (- err, md, s\<lparr>outer_digest := Some d\<rparr>)
      }}}})"

definition blkhash_free :: "('x, 'k) ext \<Rightarrow> ('x, 'k) sys \<Rightarrow> ('x, 'k) sys option" where
  "blkhash_free E s = do {
     b \<leftarrow> free_owned (buf_data_mem (pending s));
     let s = s\<lparr>outer_digest := None, pending := (pending s)\<lparr>buf_data_mem := b\<rparr>\<rparr>;
     s \<leftarrow> (if queue_depth (config s) \<noteq> 0 then do {
             a \<leftarrow> free_owned (cq_array_mem (cq s));
             Some (s\<lparr>kern := event_close (host E) (cq_event (cq s)) (kern s),
                     cq := (cq s)\<lparr>cq_array_mem := a, cq_event := None\<rparr>\<rparr>)
           } else Some s);
     s \<leftarrow> submission_queue_destroy s;
     hash_pool_destroy E s
   }"

section \<open>Creation\<close>

text \<open>A hash just allocated with \<^verbatim>\<open>calloc\<close>, in a world with nothing allocated.\<close>

definition sys_init ::
    "(nat \<Rightarrow> byte) \<Rightarrow> 'k \<Rightarrow> bool list \<Rightarrow> nat list list \<Rightarrow> ('x, 'k) sys" where
  "sys_init m k fs sc =
     \<lparr>config = config_zero, pool = pool_zero, sq = sq_zero,
      cq = \<lparr>cq_array = [], cq_array_mem = Null, cq_event = None, cq_count = 0\<rparr>,
      pending = \<lparr>buf_data = [], buf_data_mem = Null, buf_len = 0, buf_zero = False\<rparr>,
      outer_digest = None, block_index = 0, submitted_index = 0, hashed_index = 0,
      message_length = 0, inflight = 0, error = 0, finalized = False,
      subs = heap_empty, comps = heap_empty, mem = m, threads = [], kern = k, faults = fs,
      sched = sc\<rparr>"

definition new_failed ::
    "('x, 'k) ext \<Rightarrow> int \<Rightarrow> ('x, 'k) sys \<Rightarrow> (int \<times> ('x, 'k) sys) option" where
  "new_failed E err s = do { s \<leftarrow> blkhash_free E s; Some (err, s) }"

definition new_cq ::
    "('x, 'k) ext \<Rightarrow> ('x, 'k) sys \<Rightarrow> int \<times> ('x, 'k) sys" where
  "new_cq E s =
     (if queue_depth (config s) > 0 then
        (case sys_acquire s of
           (False, s) \<Rightarrow> (EAGAIN, s)
         | (True, s) \<Rightarrow>
        (case sys_acquire s of
           (False, s) \<Rightarrow> (ENOMEM, s)
         | (True, s) \<Rightarrow>
        (let s = s\<lparr>cq := (cq s)\<lparr>cq_array :=
                    replicate (queue_depth (config s)) \<lparr>bc_user_data = 0, bc_error = 0\<rparr>,
                    cq_array_mem := Allocated\<rparr>\<rparr>
         in case event_open (host E) (EVENT_CLOEXEC OR EVENT_NONBLOCK) (faults s) (kern s) of
              (Inl err, fs, k) \<Rightarrow> (- err, s\<lparr>faults := fs, kern := k\<rparr>)
            | (Inr e, fs, k) \<Rightarrow>
                (0, s\<lparr>faults := fs, kern := k, cq := (cq s)\<lparr>cq_event := Some e\<rparr>\<rparr>))))
      else (0, s))"

text \<open>
  \<^verbatim>\<open>blkhash_new_opts\<close> returns 0 where the source returns the hash, and otherwise the value it
  leaves in \<^verbatim>\<open>errno\<close>.
\<close>

definition blkhash_new_opts ::
    "('x, 'k) ext \<Rightarrow> blkhash_opts \<Rightarrow> ('x, 'k) sys \<Rightarrow> (int \<times> ('x, 'k) sys) option" where
  "blkhash_new_opts E opts s =
     (case sys_acquire s of
        (False, s) \<Rightarrow> Some (ENOMEM, s)
      | (True, s) \<Rightarrow> do {
          (err, c, fs) \<leftarrow> config_init (crypto E) (config s) opts (faults s);
          let s = s\<lparr>config := c, faults := fs\<rparr>;
          if err \<noteq> 0 then new_failed E err s else do {
          (err, s) \<leftarrow> hash_pool_init E s;
          if err \<noteq> 0 then new_failed E err s else
          case submission_queue_init (sq s) (max_submissions (config s)) (faults s) of
            (err, q, fs) \<Rightarrow>
          let s = s\<lparr>sq := q, faults := fs\<rparr>
          in if err \<noteq> 0 then new_failed E err s else
          case new_cq E s of (err, s) \<Rightarrow>
          if err \<noteq> 0 then new_failed E err s else
          case sys_acquire s of
            (False, s) \<Rightarrow> new_failed E ENOMEM s
          | (True, s) \<Rightarrow>
          let s = s\<lparr>pending := (pending s)\<lparr>buf_data := zeros (block_size (config s)),
                                            buf_data_mem := Allocated\<rparr>\<rparr>
          in case digest_create (crypto E) (digest_name (config s)) (faults s) of
            (Inl err, fs) \<Rightarrow> new_failed E (- err) (s\<lparr>faults := fs\<rparr>)
          | (Inr d, fs) \<Rightarrow>
          case digest_init (crypto E) d of (err, d) \<Rightarrow>
          let s = s\<lparr>faults := fs, outer_digest := Some d\<rparr>
          in if err \<noteq> 0 then new_failed E (- err) s else Some (0, s)
        }})"

definition blkhash_new ::
    "('x, 'k) ext \<Rightarrow> ('x, 'k) sys \<Rightarrow> (int \<times> ('x, 'k) sys) option" where
  "blkhash_new E s = blkhash_new_opts E default_opts s"

end
