(* ===== verification/Interleaving.thy ===== *)
theory Interleaving
  imports HashPool
begin

text \<open>
  The calling thread and the workers run interleaved. What holds of every interleaving follows
  from what holds of one step of one worker: the locale \<open>worker_steps\<close> is the contract of a
  step, \<open>worker_wait\<close> the contract of something the calling thread waits for.
\<close>

section \<open>What a step of a worker leaves alone\<close>

definition caller_eq :: "('x, 'k) sys \<Rightarrow> ('x, 'k) sys \<Rightarrow> bool" where
  "caller_eq s s' \<longleftrightarrow>
     config s' = config s \<and> sq s' = sq s \<and> pending s' = pending s \<and>
     outer_digest s' = outer_digest s \<and> block_index s' = block_index s \<and>
     submitted_index s' = submitted_index s \<and> hashed_index s' = hashed_index s \<and>
     message_length s' = message_length s \<and> inflight s' = inflight s \<and>
     finalized s' = finalized s \<and> mem s' = mem s \<and> cq_event (cq s') = cq_event (cq s) \<and>
     cq_array_mem (cq s') = cq_array_mem (cq s) \<and>
     p_queue_size (pool s') = p_queue_size (pool s) \<and>
     p_queue_mem (pool s') = p_queue_mem (pool s) \<and>
     p_workers_mem (pool s') = p_workers_mem (pool s) \<and>
     p_workers_count (pool s') = p_workers_count (pool s)"

lemma caller_eq_refl [simp]: "caller_eq s s"
  by (simp add: caller_eq_def)

lemma caller_eq_trans: "caller_eq s s' \<Longrightarrow> caller_eq s' s'' \<Longrightarrow> caller_eq s s''"
  by (simp add: caller_eq_def)

lemma caller_eq_sched [simp]:
  "caller_eq s (s'\<lparr>sched := sc\<rparr>) \<longleftrightarrow> caller_eq s s'"
  "caller_eq (s\<lparr>sched := sc\<rparr>) s' \<longleftrightarrow> caller_eq s s'"
  by (simp_all add: caller_eq_def)

lemma first_runnable_ex:
  assumes "i < length (threads s)" and "runnable (threads s ! i)"
  shows "\<exists>k < length (threads s). first_runnable s = Some k \<and> runnable (threads s ! k)"
proof -
  have "first_runnable s \<noteq> None"
    unfolding first_runnable_def find_None_iff using assms by auto
  then obtain k where k: "first_runnable s = Some k" by blast
  then have "k < length (threads s)" "runnable (threads s ! k)"
    unfolding first_runnable_def find_Some_iff by auto
  with k show ?thesis by blast
qed

section \<open>Any number of steps\<close>

locale worker_steps =
  fixes E :: "('x, 'k) ext"
    and I :: "('x, 'k) sys \<Rightarrow> bool"
  assumes step:
      "I s \<Longrightarrow> ensures (worker_thread E i s) (\<lambda>s'. I s' \<and> caller_eq s s' \<and>
         (i < length (threads s) \<and> runnable (threads s ! i) \<longrightarrow> work_left s' < work_left s))"
    and sched_free: "I (s\<lparr>sched := sc\<rparr>) \<longleftrightarrow> I s"
begin

lemma ensures_after:
  assumes "caller_eq s s1" and "ensures m (\<lambda>s'. I s' \<and> caller_eq s1 s' \<and> Q s')"
  shows "ensures m (\<lambda>s'. I s' \<and> caller_eq s s' \<and> Q s')"
  using assms(2) by (rule ensures_mono) (use assms(1) caller_eq_trans in blast)

lemma run_workers_inv:
  "I s \<Longrightarrow> ensures (run_workers E is s) (\<lambda>s'. I s' \<and> caller_eq s s')"
proof (induction "is" arbitrary: s)
  case (Cons i "is")
  have "ensures (worker_thread E i s) (\<lambda>s1. ensures (run_workers E is s1) (\<lambda>s'. I s' \<and> caller_eq s s'))"
    using step [OF Cons.prems, of i]
    by (rule ensures_mono) (use ensures_after [of s _ _ "\<lambda>_. True"] Cons.IH in auto)
  then show ?case by simp
qed simp

lemma yield_inv:
  assumes "I s"
  shows "ensures (yield E s) (\<lambda>s'. I s' \<and> caller_eq s s')"
proof (cases "sched s")
  case (Cons "is" rest)
  then show ?thesis
    using run_workers_inv [of "s\<lparr>sched := rest\<rparr>" "is"] assms sched_free by (simp add: yield_def)
qed (use assms in \<open>simp add: yield_def\<close>)

end

section \<open>Waiting\<close>

locale worker_wait = worker_steps E I for E :: "('x, 'k) ext" and I +
  fixes P :: "('x, 'k) sys \<Rightarrow> bool"
  assumes progress: "I s \<Longrightarrow> \<not> P s \<Longrightarrow> \<exists>i < length (threads s). runnable (threads s ! i)"
    and P_sched: "P (s\<lparr>sched := sc\<rparr>) \<longleftrightarrow> P s"
begin

lemma first_runnable_step:
  assumes "I s" and "\<not> P s"
  shows "\<exists>i. first_runnable s = Some i \<and>
    ensures (worker_thread E i s) (\<lambda>s'. I s' \<and> caller_eq s s' \<and> work_left s' < work_left s)"
proof -
  obtain i where i: "i < length (threads s)" "first_runnable s = Some i" "runnable (threads s ! i)"
    using first_runnable_ex progress [OF assms] by blast
  have "ensures (worker_thread E i s) (\<lambda>s'. I s' \<and> caller_eq s s' \<and> work_left s' < work_left s)"
    using step [OF assms(1), of i] by (rule ensures_mono) (use i in simp)
  with i(2) show ?thesis by blast
qed

text \<open>The fuel of a wait is enough: a worker that can run gets closer to what is waited for.\<close>

lemma run_until_ends:
  "I s \<Longrightarrow> work_left s \<le> n \<Longrightarrow> ensures (run_until E P n s) (\<lambda>s'. I s' \<and> caller_eq s s' \<and> P s')"
proof (induction n arbitrary: s)
  case 0
  then have "P s" using first_runnable_step [of s] by (auto elim!: ensuresE)
  with 0 show ?case by simp
next
  case (Suc n)
  show ?case
  proof (cases "P s")
    case False
    then obtain i where i: "first_runnable s = Some i"
        "ensures (worker_thread E i s) (\<lambda>s'. I s' \<and> caller_eq s s' \<and> work_left s' < work_left s)"
      using first_runnable_step [OF Suc.prems(1)] by blast
    have "ensures (worker_thread E i s) (\<lambda>s1. ensures (run_until E P n s1) (\<lambda>s'. I s' \<and> caller_eq s s' \<and> P s'))"
      using i(2) by (rule ensures_mono) (use Suc ensures_after in auto)
    with False i(1) show ?thesis by simp
  qed (use Suc in simp)
qed

lemma wait_sched_ends:
  "I s \<Longrightarrow> ensures (wait_sched E P sc s) (\<lambda>s'. I s' \<and> caller_eq s s' \<and> P s')"
proof (induction sc arbitrary: s)
  case Nil
  then show ?case by (simp add: run_until_ends)
next
  case (Cons "is" sc)
  have "ensures (run_workers E is s) (\<lambda>s1. ensures (wait_sched E P sc s1) (\<lambda>s'. I s' \<and> caller_eq s s' \<and> P s'))"
    using run_workers_inv [OF Cons.prems] by (rule ensures_mono) (use Cons.IH ensures_after in blast)
  then show ?case using Cons.prems by (simp add: P_sched sched_free)
qed

lemma wait_until_ends:
  "I s \<Longrightarrow> ensures (wait_until E P s) (\<lambda>s'. I s' \<and> caller_eq s s' \<and> P s')"
  using wait_sched_ends [of "s\<lparr>sched := []\<rparr>"] by (simp add: wait_until_def sched_free)

end

end
