(* ===== verification/Workers.thy ===== *)
theory Workers
  imports Interleaving "HOL-Library.Multiset"
begin

text \<open>
  What the worker threads keep true while they run, whatever the interleaving: the invariant
  \<open>winv\<close>, that every step of a worker returns and keeps it, and that a wait for a submission
  ends. The invariant is stated on the parts of the state it is about, so that a step that
  changes one part leaves the others alone.
\<close>

section \<open>What a thread holds\<close>

fun thread_digest :: "'x thread \<Rightarrow> 'x digest option" where
  "thread_digest Start = None"
| "thread_digest (Loop d) = Some d"
| "thread_digest (Wait d) = Some d"
| "thread_digest (Woken d) = Some d"
| "thread_digest (Work d j) = Some d"
| "thread_digest (Done d j) = Some d"
| "thread_digest (Call d j c) = Some d"
| "thread_digest (Signal d j c b) = Some d"
| "thread_digest (Store d j) = Some d"
| "thread_digest Exited = None"

text \<open>
  The submission a thread still has to process; the one whose reference to a completion it still
  has to drop; the one it still has to mark as completed; the completion it has to deliver and
  free; the one it has delivered and has to free.
\<close>

fun thread_todo :: "'x thread \<Rightarrow> nat multiset" where
  "thread_todo (Work d j) = {#j#}"
| "thread_todo t = {#}"

fun thread_refs :: "'x thread \<Rightarrow> nat multiset" where
  "thread_refs (Work d j) = {#j#}"
| "thread_refs (Done d j) = {#j#}"
| "thread_refs t = {#}"

fun thread_busy :: "'x thread \<Rightarrow> nat multiset" where
  "thread_busy (Work d j) = {#j#}"
| "thread_busy (Done d j) = {#j#}"
| "thread_busy (Call d j c) = {#j#}"
| "thread_busy (Signal d j c b) = {#j#}"
| "thread_busy (Store d j) = {#j#}"
| "thread_busy t = {#}"

fun thread_calls :: "'x thread \<Rightarrow> nat multiset" where
  "thread_calls (Call d j c) = {#c#}"
| "thread_calls (Signal d j c b) = {#c#}"
| "thread_calls t = {#}"

fun thread_sigs :: "'x thread \<Rightarrow> nat multiset" where
  "thread_sigs (Signal d j c b) = {#c#}"
| "thread_sigs t = {#}"

fun thread_idle :: "'x thread \<Rightarrow> nat" where
  "thread_idle (Wait d) = 1"
| "thread_idle (Woken d) = 1"
| "thread_idle t = 0"

fun thread_notify :: "'x thread \<Rightarrow> bool" where
  "thread_notify (Signal d j c b) = b"
| "thread_notify t = False"

text \<open>The sum of a quantity over all threads.\<close>

definition tsum :: "('x thread \<Rightarrow> 'b::comm_monoid_add) \<Rightarrow> 'x thread list \<Rightarrow> 'b" where
  "tsum f ts = sum_list (map f ts)"

lemma tsum_simps [simp]:
  "tsum f [] = 0" "tsum f (t # ts) = f t + tsum f ts"
  "tsum f (ts @ us) = tsum f ts + tsum f us"
  by (simp_all add: tsum_def)

lemma tsum_mono:
  fixes f g :: "'x thread \<Rightarrow> nat multiset"
  shows "(\<And>t. f t \<subseteq># g t) \<Longrightarrow> tsum f ts \<subseteq># tsum g ts"
  by (induction ts) (auto intro: subset_mset.add_mono)

lemma todo_refs: "thread_todo t \<subseteq># thread_refs t"
  by (cases t) auto

lemma refs_busy: "thread_refs t \<subseteq># thread_busy t"
  by (cases t) auto

lemma sigs_calls: "thread_sigs t \<subseteq># thread_calls t"
  by (cases t) auto

lemma in_tsum_iff: "x \<in># tsum f ts \<longleftrightarrow> (\<exists>t\<in>set ts. x \<in># f t)"
  by (induction ts) auto

section \<open>The invariant\<close>

text \<open>
  The log of a hash: for every submission that the calling thread has not consumed yet, in
  order, its address, the index of its block and the bytes of the block, or no bytes for a
  submission that only marks a position.
\<close>

type_synonym entry = "nat \<times> nat \<times> bytes option"

text \<open>
  The context of the invariant: what the hash function and the kernel mean; the asynchronous
  updates whose completion the application has not received yet (the user data, the address
  and the length of the buffer); the completion the calling thread holds; the log; whether the
  application has taken the event without asking for completions since.
\<close>

record ('x, 'k) ghost =
  g_hash :: "'x hash_model"
  g_event :: "'k event_model"
  g_out :: "(nat \<times> nat \<times> nat) list"
  g_held :: "nat option"
  g_log :: "entry list"
  g_waited :: bool

fun sub_id :: "sub_ptr \<Rightarrow> nat" where
  "sub_id (Sub j) = j"
| "sub_id p = 0"

definition queued :: "hash_pool \<Rightarrow> nat list" where
  "queued p = map sub_id (pq_view p)"

definition pool_inv :: "hash_pool \<Rightarrow> 'x thread list \<Rightarrow> bool" where
  "pool_inv p ts \<longleftrightarrow>
     pq_inv p \<and> pq_view p = map Sub (queued p) \<and> p_error p = 0 \<and> \<not> p_stopped p \<and>
     p_workers_idle p = tsum thread_idle ts \<and> p_workers_count p = length ts \<and>
     0 < length ts \<and> length ts < 2 ^ 32 \<and> (p_queue_len p > 0 \<longrightarrow> (\<exists>t\<in>set ts. runnable t))"

definition threads_ok :: "'x crypto \<Rightarrow> string \<Rightarrow> 'x hash_model \<Rightarrow> 'x thread list \<Rightarrow> bool" where
  "threads_ok C name M ts \<longleftrightarrow>
     (\<forall>t\<in>set ts. t \<noteq> Exited \<and> (\<forall>d. thread_digest t = Some d \<longrightarrow> digest_usable C name M d))"

definition data_at :: "(nat \<Rightarrow> byte) \<Rightarrow> ptr \<Rightarrow> bytes \<Rightarrow> bool" where
  "data_at m p data \<longleftrightarrow>
     (case p of User a \<Rightarrow> map m [a..<a + length data] = data | Copied bs \<Rightarrow> bs = data | _ \<Rightarrow> False)"

definition entry_ok ::
    "nat \<Rightarrow> (bytes \<Rightarrow> bytes) \<Rightarrow> (nat \<Rightarrow> byte) \<Rightarrow> bool \<Rightarrow> submission \<Rightarrow> nat \<Rightarrow> bytes option \<Rightarrow> bool" where
  "entry_ok bs hash m todo sub k b \<longleftrightarrow>
     sub_index sub = int k \<and> sub_error sub = 0 \<and>
     (case b of
        None \<Rightarrow> sub_zero sub \<and> sub_completed sub
      | Some data \<Rightarrow>
          if todo then \<not> sub_zero sub \<and> sub_md sub = [] \<and> sub_len sub = length data \<and>
                       length data \<le> bs \<and> data_at m (sub_data sub) data
          else if sub_zero sub then data = zeros bs else sub_md sub = hash data)"

definition unfinished :: "submission heap \<Rightarrow> nat \<Rightarrow> bool" where
  "unfinished H j \<longleftrightarrow> (\<exists>sub. cells H j = Some sub \<and> \<not> sub_completed sub)"

text \<open>
  The submissions that are not processed yet, those that hold a reference to a completion, those
  that are not marked as completed, and the completions to deliver and free.
\<close>

definition todo_of :: "('x, 'k) sys \<Rightarrow> nat multiset" where
  "todo_of s = mset (queued (pool s)) + tsum thread_todo (threads s)"

definition refs_of :: "('x, 'k) sys \<Rightarrow> nat multiset" where
  "refs_of s = mset (queued (pool s)) + tsum thread_refs (threads s)"

definition busy_of :: "('x, 'k) sys \<Rightarrow> nat multiset" where
  "busy_of s = mset (queued (pool s)) + tsum thread_busy (threads s)"

definition calls_of :: "('x, 'k) sys \<Rightarrow> nat multiset" where
  "calls_of s = tsum thread_calls (threads s)"

definition sigs_of :: "('x, 'k) sys \<Rightarrow> nat multiset" where
  "sigs_of s = tsum thread_sigs (threads s)"

definition notify_of :: "('x, 'k) sys \<Rightarrow> bool" where
  "notify_of s \<longleftrightarrow> (\<exists>t\<in>set (threads s). thread_notify t)"

lemmas holdings_defs = todo_of_def refs_of_def busy_of_def calls_of_def sigs_of_def notify_of_def

definition subs_inv ::
    "nat \<Rightarrow> (bytes \<Rightarrow> bytes) \<Rightarrow> (nat \<Rightarrow> byte) \<Rightarrow> nat multiset \<Rightarrow> nat multiset \<Rightarrow> submission heap \<Rightarrow>
     entry list \<Rightarrow> bool" where
  "subs_inv bs hash m todo busy H L \<longleftrightarrow>
     heap_ok H \<and> distinct (map fst L) \<and> (\<forall>j. cells H j \<noteq> None \<longleftrightarrow> j \<in> fst ` set L) \<and>
     (\<forall>j k b sub. (j, k, b) \<in> set L \<longrightarrow> cells H j = Some sub \<longrightarrow>
        entry_ok bs hash m (j \<in># todo) sub k b) \<and>
     busy = mset (filter (unfinished H) (map fst L))"

definition comp_of :: "submission heap \<Rightarrow> nat \<Rightarrow> nat option" where
  "comp_of H j = Option.bind (cells H j) sub_completion"

definition comps_inv ::
    "nat multiset \<Rightarrow> nat multiset \<Rightarrow> nat option \<Rightarrow> submission heap \<Rightarrow> completion heap \<Rightarrow> bool" where
  "comps_inv refs calls held Hs Hc \<longleftrightarrow>
     heap_ok Hc \<and>
     (\<forall>c v. cells Hc c = Some v \<longrightarrow> c_error v = 0 \<and>
        c_refs v =
          count (image_mset (comp_of Hs) refs) (Some c) + (if held = Some c then 1 else 0)) \<and>
     (\<forall>c. Some c \<in># image_mset (comp_of Hs) refs \<longrightarrow> cells Hc c \<noteq> None) \<and>
     (\<forall>c. held = Some c \<longrightarrow> cells Hc c \<noteq> None) \<and>
     (\<forall>c. count calls c = (if \<exists>v. cells Hc c = Some v \<and> c_refs v = 0 then 1 else 0))"

text \<open>The completions that were not added to the completion queue yet.\<close>

definition undelivered :: "completion heap \<Rightarrow> nat multiset \<Rightarrow> nat set" where
  "undelivered Hc sigs = {c. cells Hc c \<noteq> None \<and> c \<notin># sigs}"

definition user_data_of :: "completion heap \<Rightarrow> nat \<Rightarrow> nat" where
  "user_data_of Hc c = (case cells Hc c of None \<Rightarrow> 0 | Some v \<Rightarrow> c_user_data v)"

definition cq_inv ::
    "nat \<Rightarrow> completion_queue \<Rightarrow> completion heap \<Rightarrow> nat multiset \<Rightarrow> (nat \<times> nat \<times> nat) list \<Rightarrow> nat \<Rightarrow>
     bool" where
  "cq_inv qd q Hc sigs out infl \<longleftrightarrow>
     length (cq_array q) = qd \<and> qd < 2 ^ 32 \<and> (qd = 0 \<longrightarrow> (\<forall>c. cells Hc c = None)) \<and> infl = length out \<and> length out \<le> qd \<and>
     mset (map bc_user_data (take (cq_count q) (cq_array q))) +
       image_mset (user_data_of Hc) (mset_set (undelivered Hc sigs)) = mset (map fst out) \<and>
     (\<forall>e\<in>set (take (cq_count q) (cq_array q)). bc_error e = 0) \<and> cq_count q \<le> qd"

definition event_inv ::
    "'k event_model \<Rightarrow> nat \<Rightarrow> completion_queue \<Rightarrow> bool \<Rightarrow> bool \<Rightarrow> 'k \<Rightarrow> bool" where
  "event_inv EM qd q notify waited k \<longleftrightarrow>
     (qd > 0 \<longrightarrow> (\<exists>e. cq_event q = Some e \<and> event_opened EM e k \<and>
        (cq_count q > 0 \<and> \<not> waited \<longrightarrow> event_ready EM e k \<or> notify)))"

text \<open>
  A submission that reads the memory of the application belongs to an asynchronous update that
  the application knows is not completed.
\<close>

definition borrow_inv ::
    "nat multiset \<Rightarrow> submission heap \<Rightarrow> completion heap \<Rightarrow> (nat \<times> nat \<times> nat) list \<Rightarrow> bool" where
  "borrow_inv todo Hs Hc out \<longleftrightarrow>
     (\<forall>j sub a. j \<in># todo \<longrightarrow> cells Hs j = Some sub \<longrightarrow> sub_data sub = User a \<longrightarrow>
        (\<exists>c v a0 n0. sub_completion sub = Some c \<and> cells Hc c = Some v \<and>
           (c_user_data v, a0, n0) \<in> set out \<and> a0 \<le> a \<and> a + sub_len sub \<le> a0 + n0))"

text \<open>The completion the calling thread holds is the one of the last update.\<close>

definition held_inv :: "nat option \<Rightarrow> completion heap \<Rightarrow> (nat \<times> nat \<times> nat) list \<Rightarrow> bool" where
  "held_inv held Hc out \<longleftrightarrow>
     (\<forall>c. held = Some c \<longrightarrow> (\<exists>v a n rest. cells Hc c = Some v \<and> out = (c_user_data v, a, n) # rest))"

definition winv :: "('x, 'k) ext \<Rightarrow> ('x, 'k) ghost \<Rightarrow> ('x, 'k) sys \<Rightarrow> bool" where
  "winv E G s \<longleftrightarrow>
     crypto_ok (crypto E) (digest_name (config s)) (g_hash G) \<and>
     (queue_depth (config s) > 0 \<longrightarrow> eventfd_ok (host E) (g_event G)) \<and>
     faults s = [] \<and> error s = 0 \<and> 16 \<le> block_size (config s) \<and>
     length (g_log G) + 2 < 2 ^ 32 \<and>
     pool_inv (pool s) (threads s) \<and>
     threads_ok (crypto E) (digest_name (config s)) (g_hash G) (threads s) \<and>
     subs_inv (block_size (config s)) (hash_of (g_hash G)) (mem s) (todo_of s) (busy_of s)
       (subs s) (g_log G) \<and>
     comps_inv (refs_of s) (calls_of s) (g_held G) (subs s) (comps s) \<and>
     cq_inv (queue_depth (config s)) (cq s) (comps s) (sigs_of s) (g_out G) (inflight s) \<and>
     event_inv (g_event G) (queue_depth (config s)) (cq s) (notify_of s) (g_waited G) (kern s) \<and>
     borrow_inv (todo_of s) (subs s) (comps s) (g_out G) \<and>
     held_inv (g_held G) (comps s) (g_out G)"

section \<open>Steps of a worker\<close>

lemma set_thread_split:
  "threads s = xs @ t # ys \<Longrightarrow> set_thread (length xs) t' s = s\<lparr>threads := xs @ t' # ys\<rparr>"
  by (simp add: set_thread_def)

text \<open>A step that changes the pool and the program counters, but not what the threads hold.\<close>

lemma winv_holdings:
  assumes inv: "winv E G s"
    and same: "todo_of s' = todo_of s" "refs_of s' = refs_of s" "busy_of s' = busy_of s"
      "calls_of s' = calls_of s" "sigs_of s' = sigs_of s" "notify_of s' = notify_of s"
    and pool: "pool_inv (pool s') (threads s')"
      "threads_ok (crypto E) (digest_name (config s')) (g_hash G) (threads s')"
    and rest: "config s' = config s" "faults s' = faults s" "error s' = error s" "mem s' = mem s"
      "subs s' = subs s" "comps s' = comps s" "cq s' = cq s" "kern s' = kern s"
      "inflight s' = inflight s"
  shows "winv E G s'"
  using inv pool unfolding winv_def same rest by simp

lemma winvD:
  assumes "winv E G s"
  shows "pool_inv (pool s) (threads s)"
    and "threads_ok (crypto E) (digest_name (config s)) (g_hash G) (threads s)"
    and "crypto_ok (crypto E) (digest_name (config s)) (g_hash G)"
    and "faults s = []" and "error s = 0" and "16 \<le> block_size (config s)"
    and "subs_inv (block_size (config s)) (hash_of (g_hash G)) (mem s) (todo_of s) (busy_of s)
           (subs s) (g_log G)"
    and "comps_inv (refs_of s) (calls_of s) (g_held G) (subs s) (comps s)"
    and "cq_inv (queue_depth (config s)) (cq s) (comps s) (sigs_of s) (g_out G) (inflight s)"
    and "event_inv (g_event G) (queue_depth (config s)) (cq s) (notify_of s) (g_waited G) (kern s)"
    and "borrow_inv (todo_of s) (subs s) (comps s) (g_out G)"
    and "length (g_log G) + 2 < 2 ^ 32"
    and "queue_depth (config s) > 0 \<Longrightarrow> eventfd_ok (host E) (g_event G)"
    and "held_inv (g_held G) (comps s) (g_out G)"
  using assms unfolding winv_def by blast+

lemma idle_le: "tsum thread_idle ts \<le> length ts"
proof (induction ts)
  case (Cons t ts)
  then show ?case by (cases t) auto
qed simp

lemma pool_inv_running:
  "pool_inv p (xs @ t # ys) \<Longrightarrow> thread_idle t' = thread_idle t \<Longrightarrow> runnable t' \<Longrightarrow>
   pool_inv p (xs @ t' # ys)"
  by (auto simp: pool_inv_def)

lemma threads_ok_replace:
  "threads_ok C n M (xs @ t # ys) \<Longrightarrow> t' \<noteq> Exited \<Longrightarrow>
   (\<And>d. thread_digest t' = Some d \<Longrightarrow> digest_usable C n M d) \<Longrightarrow>
   threads_ok C n M (xs @ t' # ys)"
  by (auto simp: threads_ok_def)

lemma threads_ok_digest:
  "threads_ok C n M (xs @ t # ys) \<Longrightarrow> thread_digest t = Some d \<Longrightarrow> digest_usable C n M d"
  by (simp add: threads_ok_def)

text \<open>Leaving \<^verbatim>\<open>cond_wait\<close>: the thread is no longer idle, and is where it was before it slept.\<close>

lemma winv_awake:
  assumes inv: "winv E G s" and ts: "threads s = xs @ t # ys" and t: "t = Wait d \<or> t = Woken d"
  shows "winv E G (s\<lparr>pool := (pool s)\<lparr>p_workers_idle := sub32 (p_workers_idle (pool s)) 1\<rparr>,
                     threads := xs @ Loop d # ys\<rparr>)" (is "winv E G ?s")
proof (rule winv_holdings [OF inv])
  have pool: "pool_inv (pool s) (xs @ t # ys)" using winvD(1) [OF inv] ts by simp
  have "p_workers_idle (pool s) < 2 ^ 32"
    using pool idle_le [of "xs @ t # ys"] unfolding pool_inv_def by linarith
  then have "p_workers_idle (pool ?s) = tsum thread_idle (xs @ Loop d # ys)"
    using pool t by (auto simp: pool_inv_def)
  then show "pool_inv (pool ?s) (threads ?s)"
    using pool by (auto simp: pool_inv_def pq_inv_def pq_view_def queued_def)
  show "threads_ok (crypto E) (digest_name (config ?s)) (g_hash G) (threads ?s)"
    using winvD(2) [OF inv] ts t by (auto simp: threads_ok_def)
qed (use t in \<open>auto simp: holdings_defs ts queued_def pq_view_def\<close>)

lemma winv_sleep:
  assumes inv: "winv E G s" and ts: "threads s = xs @ Loop d # ys"
    and empty: "p_queue_len (pool s) = 0"
  shows "winv E G (s\<lparr>pool := (pool s)\<lparr>p_workers_idle := u32 (p_workers_idle (pool s) + 1)\<rparr>,
                     threads := xs @ Wait d # ys\<rparr>)" (is "winv E G ?s")
proof (rule winv_holdings [OF inv])
  have pool: "pool_inv (pool s) (xs @ Loop d # ys)" using winvD(1) [OF inv] ts by simp
  have "p_workers_idle (pool s) + 1 < 2 ^ 32"
    using pool idle_le [of xs] idle_le [of ys] by (simp add: pool_inv_def)
  then show "pool_inv (pool ?s) (threads ?s)"
    using pool empty by (auto simp: pool_inv_def pq_inv_def pq_view_def queued_def)
  show "threads_ok (crypto E) (digest_name (config ?s)) (g_hash G) (threads ?s)"
    using winvD(2) [OF inv] ts by (auto simp: threads_ok_def)
qed (auto simp: holdings_defs ts queued_def pq_view_def)

lemma pool_inv_pop:
  assumes "pool_inv p ts" and "p_queue_len p \<noteq> 0"
  shows "\<exists>j. pop_unlocked p = (Sub j, snd (pop_unlocked p)) \<and>
             queued p = j # queued (snd (pop_unlocked p)) \<and>
             pq_inv (snd (pop_unlocked p)) \<and>
             pq_view (snd (pop_unlocked p)) = map Sub (queued (snd (pop_unlocked p)))"
proof -
  let ?p = "snd (pop_unlocked p)"
  have inv: "pq_inv p" and view: "pq_view p = map Sub (queued p)"
    using assms by (auto simp: pool_inv_def)
  have ne: "pq_view p \<noteq> []" using assms(2) by (metis length_0_conv length_pq_view)
  have pop: "pq_view p = fst (pop_unlocked p) # pq_view ?p"
    using pqf.pop_view [OF inv ne] .
  then obtain j js where j: "fst (pop_unlocked p) = Sub j" "pq_view ?p = map Sub js"
    using view by (metis map_eq_Cons_conv)
  then have "queued ?p = js" by (simp add: queued_def comp_def)
  then have "queued p = j # queued ?p" using pop j by (simp add: queued_def comp_def)
  moreover have "pq_inv ?p" using pqf.pop_inv [OF inv ne] .
  moreover have "pop_unlocked p = (Sub j, ?p)" using j(1) by (metis prod.collapse)
  ultimately show ?thesis using j(2) \<open>queued ?p = js\<close> by simp
qed

lemma winv_take:
  assumes inv: "winv E G s" and ts: "threads s = xs @ Loop d # ys"
    and work: "p_queue_len (pool s) \<noteq> 0"
  shows "\<exists>j. pop_unlocked (pool s) = (Sub j, snd (pop_unlocked (pool s))) \<and>
    winv E G (s\<lparr>pool := snd (pop_unlocked (pool s)), threads := xs @ Work d j # ys\<rparr>)"
proof -
  let ?p = "snd (pop_unlocked (pool s))"
  have pool: "pool_inv (pool s) (xs @ Loop d # ys)" using winvD(1) [OF inv] ts by simp
  obtain j where j: "pop_unlocked (pool s) = (Sub j, ?p)" "queued (pool s) = j # queued ?p"
      "pq_inv ?p" "pq_view ?p = map Sub (queued ?p)"
    using pool_inv_pop [OF pool work] by blast
  have "winv E G (s\<lparr>pool := ?p, threads := xs @ Work d j # ys\<rparr>)" (is "winv E G ?s")
  proof (rule winv_holdings [OF inv])
    show "pool_inv (pool ?s) (threads ?s)"
      using pool j by (auto simp: pool_inv_def pop_unlocked_def)
    show "threads_ok (crypto E) (digest_name (config ?s)) (g_hash G) (threads ?s)"
      using winvD(2) [OF inv] ts by (auto simp: threads_ok_def)
  qed (auto simp: holdings_defs ts j(2))
  with j(1) show ?thesis by blast
qed

subsection \<open>Processing a submission\<close>

lemma todo_sub_refs: "todo_of s \<subseteq># refs_of s"
  unfolding todo_of_def refs_of_def
  by (intro subset_mset.add_mono tsum_mono todo_refs) simp

lemma refs_sub_busy: "refs_of s \<subseteq># busy_of s"
  unfolding refs_of_def busy_of_def
  by (intro subset_mset.add_mono tsum_mono refs_busy) simp

lemma subs_inv_entry:
  assumes "subs_inv bs hash m todo busy H L" and "j \<in># busy"
  shows "\<exists>k b sub. (j, k, b) \<in> set L \<and> cells H j = Some sub \<and> \<not> sub_completed sub \<and>
                   entry_ok bs hash m (j \<in># todo) sub k b"
proof -
  have "j \<in># mset (filter (unfinished H) (map fst L))" using assms by (simp add: subs_inv_def)
  then obtain k b sub where "(j, k, b) \<in> set L" "cells H j = Some sub" "\<not> sub_completed sub"
    by (auto simp: unfinished_def)
  with assms(1) show ?thesis unfolding subs_inv_def by blast
qed

lemma subs_inv_single:
  assumes "subs_inv bs hash m todo busy H L"
  shows "count busy j \<le> 1"
proof -
  have "distinct (filter (unfinished H) (map fst L))" using assms by (simp add: subs_inv_def)
  then have "count (mset (filter (unfinished H) (map fst L))) j \<le> 1"
    by (metis distinct_count_atmost_1 le_refl zero_le)
  moreover have "busy = mset (filter (unfinished H) (map fst L))"
    using assms by (simp only: subs_inv_def)
  ultimately show ?thesis by (simp only:)
qed

text \<open>The submissions a worker still has to process hold the bytes of their block.\<close>

lemma todo_entry:
  assumes "winv E G s" and "j \<in># todo_of s"
  shows "\<exists>k data sub. (j, k, Some data) \<in> set (g_log G) \<and> cells (subs s) j = Some sub \<and>
    \<not> sub_completed sub \<and> sub_index sub = int k \<and> sub_error sub = 0 \<and> \<not> sub_zero sub \<and>
    sub_md sub = [] \<and> sub_len sub = length data \<and> length data \<le> block_size (config s) \<and>
    load s (sub_data sub) (sub_len sub) = Some data"
proof -
  have "j \<in># busy_of s"
    using assms(2) todo_sub_refs refs_sub_busy by (metis mset_subset_eqD)
  then obtain k b sub where e: "(j, k, b) \<in> set (g_log G)" "cells (subs s) j = Some sub"
      "\<not> sub_completed sub"
      "entry_ok (block_size (config s)) (hash_of (g_hash G)) (mem s) True sub k b"
    using subs_inv_entry [OF winvD(7) [OF assms(1)]] assms(2) by metis
  then obtain data where b: "b = Some data" by (cases b) (auto simp: entry_ok_def)
  moreover have "load s (sub_data sub) (sub_len sub) = Some data"
    using e(4) b by (auto simp: entry_ok_def data_at_def load_array_def split: ptr.splits)
  ultimately show ?thesis
    using e by (auto simp: entry_ok_def)
qed

definition processed :: "nat \<Rightarrow> (bytes \<Rightarrow> bytes) \<Rightarrow> bytes \<Rightarrow> submission \<Rightarrow> bool" where
  "processed bs hash data sub \<longleftrightarrow> (if sub_zero sub then data = zeros bs else sub_md sub = hash data)"

lemma worker_process_ok:
  assumes inv: "winv E G s" and sub: "cells (subs s) j = Some sub"
    and data: "load s (sub_data sub) (sub_len sub) = Some data" "sub_len sub = length data"
    and new: "\<not> sub_zero sub" "sub_md sub = []"
    and d: "digest_usable (crypto E) (digest_name (config s)) (g_hash G) d"
  shows "\<exists>d' sub'. worker_process E j d s =
      Some (d', s\<lparr>subs := (subs s)\<lparr>cells := (cells (subs s))(j \<mapsto> sub')\<rparr>\<rparr>) \<and>
    digest_usable (crypto E) (digest_name (config s)) (g_hash G) d' \<and>
    processed (block_size (config s)) (hash_of (g_hash G)) data sub' \<and>
    sub_index sub' = sub_index sub \<and> sub_error sub' = sub_error sub \<and>
    sub_completed sub' = sub_completed sub \<and> sub_completion sub' = sub_completion sub"
proof (cases "sub_flags sub AND SUBMIT_COPY_DATA = 0 \<and> length data = block_size (config s) \<and>
              data = zeros (block_size (config s))")
  case True
  then have "pool_is_zero_block sub s = Some True"
    using data winvD(6) [OF inv] by (simp add: pool_is_zero_block_def is_zero_value)
  then have "worker_process E j d s =
      Some (d, s\<lparr>subs := (subs s)\<lparr>cells := (cells (subs s))(j \<mapsto> sub\<lparr>sub_zero := True\<rparr>)\<rparr>\<rparr>)"
    using sub by (simp add: worker_process_def get_sub_def submission_set_zero_def put_sub_def
        heap_put_def)
  with d True show ?thesis
    by (intro exI [of _ d] exI [of _ "sub\<lparr>sub_zero := True\<rparr>"]) (simp add: processed_def)
next
  case False
  then have nz: "pool_is_zero_block sub s = Some False"
    using data winvD(6) [OF inv] by (auto simp: pool_is_zero_block_def is_zero_value)
  let ?h = "hash_of (g_hash G) data"
  obtain d1 d2 d3 where dig: "digest_init (crypto E) d = (0, d1)"
      "digest_update (crypto E) d1 data = (0, d2)" "digest_final (crypto E) d2 = (0, d3, ?h)"
      "digest_usable (crypto E) (digest_name (config s)) (g_hash G) d3"
    using dg.one_shot [OF winvD(3) [OF inv] d] by blast
  have len: "length ?h \<le> BLKHASH_MAX_MD_SIZE"
    using crypto_ok_len [OF winvD(3) [OF inv]] crypto_ok_max [OF winvD(3) [OF inv]] by simp
  have "compute_block_digest E j d s =
      Some (d3, s\<lparr>subs := (subs s)\<lparr>cells := (cells (subs s))(j \<mapsto> sub\<lparr>sub_md := ?h\<rparr>)\<rparr>\<rparr>)"
    using sub dig len data(1) new(2)
    by (simp add: compute_block_digest_def get_sub_def put_sub_def heap_put_def assert_that_def)
  then have "worker_process E j d s =
      Some (d3, s\<lparr>subs := (subs s)\<lparr>cells := (cells (subs s))(j \<mapsto> sub\<lparr>sub_md := ?h\<rparr>)\<rparr>\<rparr>)"
    using sub nz by (simp add: worker_process_def get_sub_def)
  with dig(4) new(1) show ?thesis
    by (intro exI [of _ d3] exI [of _ "sub\<lparr>sub_md := ?h\<rparr>"]) (simp add: processed_def)
qed

lemma subs_inv_process:
  assumes inv: "subs_inv bs hash m (add_mset j todo) busy H L" and nin: "j \<notin># todo"
    and e: "(j, k, Some data) \<in> set L" and sub: "cells H j = Some sub"
    and sub': "sub_index sub' = sub_index sub" "sub_error sub' = sub_error sub"
      "sub_completed sub' = sub_completed sub"
    and p: "processed bs hash data sub'"
  shows "subs_inv bs hash m todo busy (H\<lparr>cells := (cells H)(j \<mapsto> sub')\<rparr>) L"
proof -
  let ?H = "H\<lparr>cells := (cells H)(j \<mapsto> sub')\<rparr>"
  have "unfinished ?H = unfinished H"
    using sub sub' by (auto simp: unfinished_def fun_eq_iff)
  moreover have "entry_ok bs hash m (i \<in># todo) sub'' l b"
    if "(i, l, b) \<in> set L" "cells ?H i = Some sub''" for i l b sub''
  proof (cases "i = j")
    case True
    have "distinct (map fst L)" using inv by (simp only: subs_inv_def)
    then have "(l, b) = (k, Some data)"
      using that(1) e True eq_key_imp_eq_value by fastforce
    moreover have "sub'' = sub'" using that(2) True by simp
    moreover have "entry_ok bs hash m True sub k (Some data)"
      using inv e sub unfolding subs_inv_def by fastforce
    ultimately show ?thesis
      using True nin sub' p by (auto simp: entry_ok_def processed_def)
  next
    case False
    then have "cells H i = Some sub''" using that(2) by simp
    then have "entry_ok bs hash m (i \<in># add_mset j todo) sub'' l b"
      using inv that(1) unfolding subs_inv_def by blast
    with False show ?thesis by simp
  qed
  moreover have "(\<forall>i. cells ?H i \<noteq> None \<longleftrightarrow> i \<in> fst ` set L)"
    using inv sub by (auto simp: subs_inv_def)
  ultimately show ?thesis
    using inv sub unfolding subs_inv_def by (simp add: subs_inv_def)
qed

lemma winvI:
  assumes "winv E G s"
    and "config s' = config s" "faults s' = faults s" "error s' = error s" "mem s' = mem s"
      "inflight s' = inflight s"
    and "pool_inv (pool s') (threads s')"
    and "threads_ok (crypto E) (digest_name (config s)) (g_hash G) (threads s')"
    and "subs_inv (block_size (config s)) (hash_of (g_hash G)) (mem s) (todo_of s') (busy_of s')
           (subs s') (g_log G)"
    and "comps_inv (refs_of s') (calls_of s') (g_held G) (subs s') (comps s')"
    and "cq_inv (queue_depth (config s)) (cq s') (comps s') (sigs_of s') (g_out G) (inflight s)"
    and "event_inv (g_event G) (queue_depth (config s)) (cq s') (notify_of s') (g_waited G) (kern s')"
    and "borrow_inv (todo_of s') (subs s') (comps s') (g_out G)"
    and "held_inv (g_held G) (comps s') (g_out G)"
  shows "winv E G s'"
  using assms unfolding winv_def by metis

lemma comp_of_upd:
  "cells H j = Some sub \<Longrightarrow> sub_completion sub' = sub_completion sub \<Longrightarrow>
   comp_of (H\<lparr>cells := (cells H)(j \<mapsto> sub')\<rparr>) = comp_of H"
  by (auto simp: comp_of_def fun_eq_iff)

lemma comps_inv_cong:
  "comp_of Hs' = comp_of Hs \<Longrightarrow> comps_inv refs calls held Hs' Hc = comps_inv refs calls held Hs Hc"
  by (simp add: comps_inv_def)

lemma borrow_inv_del:
  "borrow_inv (add_mset j todo) Hs Hc out \<Longrightarrow> j \<notin># todo \<Longrightarrow>
   borrow_inv todo (Hs\<lparr>cells := (cells Hs)(j := v)\<rparr>) Hc out"
  unfolding borrow_inv_def by (intro allI impI) (auto split: if_splits)

text \<open>A submission is in one place only.\<close>

lemma busy_once:
  assumes "winv E G s" and "busy_of s = add_mset j busy"
  shows "j \<notin># busy"
proof
  assume "j \<in># busy"
  then have "count (busy_of s) j \<ge> 2" using assms(2) by (simp add: Suc_le_eq)
  then show False using subs_inv_single [OF winvD(7) [OF assms(1)], of j] by simp
qed

lemma todo_once:
  assumes "winv E G s" and "todo_of s = add_mset j todo"
  shows "j \<notin># todo"
proof
  assume "j \<in># todo"
  then have "count (todo_of s) j \<ge> 2" using assms(2) by (simp add: Suc_le_eq)
  moreover have "count (todo_of s) j \<le> count (busy_of s) j"
    using subset_mset.order_trans [OF todo_sub_refs refs_sub_busy] by (rule mset_subset_eq_count)
  ultimately show False using subs_inv_single [OF winvD(7) [OF assms(1)], of j] by simp
qed

lemma winv_process:
  assumes inv: "winv E G s" and ts: "threads s = xs @ Work d j # ys"
  shows "\<exists>d' sub'. worker_process E j d s =
      Some (d', s\<lparr>subs := (subs s)\<lparr>cells := (cells (subs s))(j \<mapsto> sub')\<rparr>\<rparr>) \<and>
    winv E G (s\<lparr>subs := (subs s)\<lparr>cells := (cells (subs s))(j \<mapsto> sub')\<rparr>,
               threads := xs @ Done d' j # ys\<rparr>)"
proof -
  have "j \<in># todo_of s" by (simp add: todo_of_def ts)
  then obtain k data sub where e: "(j, k, Some data) \<in> set (g_log G)" "cells (subs s) j = Some sub"
      "\<not> sub_zero sub" "sub_md sub = []" "sub_len sub = length data"
      "load s (sub_data sub) (sub_len sub) = Some data"
    using todo_entry [OF inv] by blast
  have "digest_usable (crypto E) (digest_name (config s)) (g_hash G) d"
    using winvD(2) [OF inv] by (simp add: threads_ok_def ts)
  then obtain d' sub' where p: "worker_process E j d s =
        Some (d', s\<lparr>subs := (subs s)\<lparr>cells := (cells (subs s))(j \<mapsto> sub')\<rparr>\<rparr>)"
      "digest_usable (crypto E) (digest_name (config s)) (g_hash G) d'"
      "processed (block_size (config s)) (hash_of (g_hash G)) data sub'"
      "sub_index sub' = sub_index sub" "sub_error sub' = sub_error sub"
      "sub_completed sub' = sub_completed sub" "sub_completion sub' = sub_completion sub"
    using worker_process_ok [OF inv e(2,6,5,3,4)] by blast
  let ?H = "(subs s)\<lparr>cells := (cells (subs s))(j \<mapsto> sub')\<rparr>"
  let ?s = "s\<lparr>subs := ?H, threads := xs @ Done d' j # ys\<rparr>"
  have todo: "todo_of s = add_mset j (todo_of ?s)" and busy: "busy_of ?s = busy_of s"
    and refs: "refs_of ?s = refs_of s" and rest: "calls_of ?s = calls_of s" "sigs_of ?s = sigs_of s"
      "notify_of ?s = notify_of s"
    by (auto simp: holdings_defs ts)
  have nin: "j \<notin># todo_of ?s"
    using todo_once [OF inv todo] .
  have "winv E G ?s"
  proof (rule winvI [OF inv])
    show "pool_inv (pool ?s) (threads ?s)"
      using pool_inv_running winvD(1) [OF inv] ts by fastforce
    show "threads_ok (crypto E) (digest_name (config s)) (g_hash G) (threads ?s)"
      using winvD(2) [OF inv] p(2) ts by (auto simp: threads_ok_def)
    show "subs_inv (block_size (config s)) (hash_of (g_hash G)) (mem s) (todo_of ?s) (busy_of ?s)
        (subs ?s) (g_log G)"
      using subs_inv_process [OF winvD(7) [OF inv, unfolded todo] nin e(1,2) p(4,5,6,3)] busy by simp
    show "comps_inv (refs_of ?s) (calls_of ?s) (g_held G) (subs ?s) (comps ?s)"
      using winvD(8) [OF inv] refs rest comps_inv_cong [OF comp_of_upd [OF e(2) p(7)]] by simp
    show "borrow_inv (todo_of ?s) (subs ?s) (comps ?s) (g_out G)"
      using borrow_inv_del [OF winvD(11) [OF inv, unfolded todo] nin] by simp
  qed (use winvD(9,10,14) [OF inv] rest in simp_all)
  with p(1) show ?thesis by blast
qed

subsection \<open>Dropping a reference to a completion\<close>

lemma comps_inv_drop_none:
  "comps_inv (add_mset j refs) calls held Hs Hc \<Longrightarrow> comp_of Hs j = None \<Longrightarrow>
   comps_inv refs calls held Hs Hc"
  by (simp add: comps_inv_def)

lemma comps_inv_live:
  assumes "comps_inv (add_mset j refs) calls held Hs Hc" and "comp_of Hs j = Some c"
  shows "\<exists>v. cells Hc c = Some v \<and> 0 < c_refs v"
proof -
  have "Some c \<in># image_mset (comp_of Hs) (add_mset j refs)" using assms(2) by simp
  then obtain v where "cells Hc c = Some v" using assms(1) unfolding comps_inv_def by blast
  with assms show ?thesis by (auto simp: comps_inv_def)
qed

lemma comps_inv_dec:
  assumes inv: "comps_inv (add_mset j refs) calls held Hs Hc" and c: "comp_of Hs j = Some c"
    and v: "cells Hc c = Some v"
  shows "comps_inv refs (if c_refs v = 1 then add_mset c calls else calls) held Hs
           (Hc\<lparr>cells := (cells Hc)(c \<mapsto> v\<lparr>c_refs := c_refs v - 1\<rparr>)\<rparr>)"
proof -
  let ?v = "v\<lparr>c_refs := c_refs v - 1\<rparr>"
  let ?Hc = "Hc\<lparr>cells := (cells Hc)(c \<mapsto> ?v)\<rparr>"
  let ?n = "\<lambda>c. count (image_mset (comp_of Hs) refs) (Some c)"
  have pos: "0 < c_refs v" using comps_inv_live [OF inv c] v by simp
  have n: "count (image_mset (comp_of Hs) (add_mset j refs)) (Some i) = ?n i + (if i = c then 1 else 0)"
    for i using c by simp
  have refs: "c_error w = 0 \<and>
      c_refs w = ?n i + (if i = c then 1 else 0) + (if held = Some i then 1 else 0)"
    if "cells Hc i = Some w" for i w
    using inv that unfolding comps_inv_def n by blast
  have calls: "count calls i = (if \<exists>w. cells Hc i = Some w \<and> c_refs w = 0 then 1 else 0)" for i
    using inv unfolding comps_inv_def by blast
  show ?thesis
    unfolding comps_inv_def
  proof (intro conjI allI impI)
    show "heap_ok ?Hc" using inv v by (simp add: comps_inv_def)
  next
    fix i w
    assume "cells ?Hc i = Some w"
    then show "c_error w = 0" "c_refs w = ?n i + (if held = Some i then 1 else 0)"
      using refs [of i] refs [OF v] by (auto split: if_splits)
  next
    fix i
    assume "Some i \<in># image_mset (comp_of Hs) refs"
    then have "Some i \<in># image_mset (comp_of Hs) (add_mset j refs)" by auto
    then have "cells Hc i \<noteq> None" using inv unfolding comps_inv_def by blast
    then show "cells ?Hc i \<noteq> None" by simp
  next
    fix i
    assume "held = Some i"
    then have "cells Hc i \<noteq> None" using inv unfolding comps_inv_def by blast
    then show "cells ?Hc i \<noteq> None" by simp
  next
    fix i
    show "count (if c_refs v = 1 then add_mset c calls else calls) i =
        (if \<exists>w. cells ?Hc i = Some w \<and> c_refs w = 0 then 1 else 0)"
      using calls [of i] pos v by auto
  qed
qed

lemma user_data_of_upd:
  "cells Hc c = Some v \<Longrightarrow> c_user_data v' = c_user_data v \<Longrightarrow>
   user_data_of (Hc\<lparr>cells := (cells Hc)(c \<mapsto> v')\<rparr>) = user_data_of Hc"
  by (auto simp: user_data_of_def fun_eq_iff)

lemma undelivered_upd:
  "cells Hc c = Some v \<Longrightarrow> undelivered (Hc\<lparr>cells := (cells Hc)(c \<mapsto> v')\<rparr>) sigs = undelivered Hc sigs"
  by (auto simp: undelivered_def)

lemma cq_inv_upd:
  assumes "cells Hc c = Some v" and "c_user_data v' = c_user_data v"
  shows "cq_inv qd q (Hc\<lparr>cells := (cells Hc)(c \<mapsto> v')\<rparr>) sigs out infl \<longleftrightarrow> cq_inv qd q Hc sigs out infl"
proof -
  have "(\<forall>i. cells (Hc\<lparr>cells := (cells Hc)(c \<mapsto> v')\<rparr>) i = None) \<longleftrightarrow> (\<forall>i. cells Hc i = None)"
    using assms(1) by (simp, metis option.distinct(1))
  then show ?thesis
    unfolding cq_inv_def user_data_of_upd [OF assms] undelivered_upd [OF assms(1)] by (simp only:)
qed

lemma held_inv_upd:
  "cells Hc c = Some v \<Longrightarrow> c_user_data v' = c_user_data v \<Longrightarrow> held_inv held Hc out \<Longrightarrow>
   held_inv held (Hc\<lparr>cells := (cells Hc)(c \<mapsto> v')\<rparr>) out"
  by (auto simp: held_inv_def)

lemma borrow_inv_upd:
  assumes "cells Hc c = Some v" and "c_user_data v' = c_user_data v" and "borrow_inv todo Hs Hc out"
  shows "borrow_inv todo Hs (Hc\<lparr>cells := (cells Hc)(c \<mapsto> v')\<rparr>) out"
  unfolding borrow_inv_def
proof (intro allI impI)
  fix j sub a
  assume "j \<in># todo" "cells Hs j = Some sub" "sub_data sub = User a"
  then obtain c' w a0 n0 where *: "sub_completion sub = Some c'" "cells Hc c' = Some w"
      "(c_user_data w, a0, n0) \<in> set out" "a0 \<le> a" "a + sub_len sub \<le> a0 + n0"
    using assms(3) unfolding borrow_inv_def by blast
  then show "\<exists>c'' w a0 n0. sub_completion sub = Some c'' \<and>
      cells (Hc\<lparr>cells := (cells Hc)(c \<mapsto> v')\<rparr>) c'' = Some w \<and>
      (c_user_data w, a0, n0) \<in> set out \<and> a0 \<le> a \<and> a + sub_len sub \<le> a0 + n0"
    using assms(1,2) by (cases "c' = c") auto
qed

lemma comp_refs_bound:
  assumes "winv E G s" and "cells (comps s) c = Some v"
  shows "c_refs v + 1 < 2 ^ 32"
proof -
  have "c_refs v \<le> count (image_mset (comp_of (subs s)) (refs_of s)) (Some c) + 1"
    using winvD(8) [OF assms(1)] assms(2) by (auto simp: comps_inv_def)
  also have "count (image_mset (comp_of (subs s)) (refs_of s)) (Some c) \<le> size (refs_of s)"
    by (metis count_le_replicate_mset_subset_eq size_image_mset size_mset_mono size_replicate_mset le_refl)
  also have "size (refs_of s) \<le> size (busy_of s)" by (simp add: refs_sub_busy size_mset_mono)
  also have "size (busy_of s) \<le> length (g_log G)"
    using winvD(7) [OF assms(1)] by (simp add: subs_inv_def del: mset_filter)
  finally show ?thesis using winvD(12) [OF assms(1)] by linarith
qed

lemma winv_done_none:
  assumes inv: "winv E G s" and ts: "threads s = xs @ Done d j # ys"
    and none: "comp_of (subs s) j = None"
  shows "winv E G (s\<lparr>threads := xs @ Store d j # ys\<rparr>)" (is "winv E G ?s")
proof (rule winvI [OF inv])
  have refs: "refs_of s = add_mset j (refs_of ?s)"
    and rest: "todo_of ?s = todo_of s" "busy_of ?s = busy_of s" "calls_of ?s = calls_of s"
      "sigs_of ?s = sigs_of s" "notify_of ?s = notify_of s"
    by (auto simp: holdings_defs ts)
  show "comps_inv (refs_of ?s) (calls_of ?s) (g_held G) (subs ?s) (comps ?s)"
    using comps_inv_drop_none [OF winvD(8) [OF inv, unfolded refs] none] rest by simp
  show "pool_inv (pool ?s) (threads ?s)"
    using pool_inv_running winvD(1) [OF inv] ts by fastforce
  show "threads_ok (crypto E) (digest_name (config s)) (g_hash G) (threads ?s)"
    using winvD(2) [OF inv] ts by (auto simp: threads_ok_def)
  show "subs_inv (block_size (config s)) (hash_of (g_hash G)) (mem s) (todo_of ?s) (busy_of ?s)
      (subs ?s) (g_log G)"
    using winvD(7) [OF inv] rest by simp
  show "cq_inv (queue_depth (config s)) (cq ?s) (comps ?s) (sigs_of ?s) (g_out G) (inflight s)"
    using winvD(9) [OF inv] rest by simp
  show "event_inv (g_event G) (queue_depth (config s)) (cq ?s) (notify_of ?s) (g_waited G) (kern ?s)"
    using winvD(10) [OF inv] rest by simp
  show "borrow_inv (todo_of ?s) (subs ?s) (comps ?s) (g_out G)"
    using winvD(11) [OF inv] rest by simp
qed (use winvD(14) [OF inv] in simp_all)

lemma winv_done_some:
  assumes inv: "winv E G s" and ts: "threads s = xs @ Done d j # ys"
    and some: "comp_of (subs s) j = Some c"
  shows "\<exists>v. completion_dec c s = Some (c_refs v = 1,
        s\<lparr>comps := (comps s)\<lparr>cells := (cells (comps s))(c \<mapsto> v\<lparr>c_refs := c_refs v - 1\<rparr>)\<rparr>\<rparr>) \<and>
      winv E G (s\<lparr>comps := (comps s)\<lparr>cells := (cells (comps s))(c \<mapsto> v\<lparr>c_refs := c_refs v - 1\<rparr>)\<rparr>,
        threads := xs @ (if c_refs v = 1 then Call d j c else Store d j) # ys\<rparr>)"
proof -
  have refs: "refs_of s = add_mset j (refs_of (s\<lparr>threads := xs @ Store d j # ys\<rparr>))"
    by (simp add: refs_of_def ts)
  obtain v where v: "cells (comps s) c = Some v" "0 < c_refs v"
    using comps_inv_live [OF winvD(8) [OF inv, unfolded refs] some] by blast
  have "sub32 (c_refs v) 1 = c_refs v - 1"
    using comp_refs_bound [OF inv v(1)] v(2) by simp
  then have dec: "completion_dec c s = Some (c_refs v = 1,
      s\<lparr>comps := (comps s)\<lparr>cells := (cells (comps s))(c \<mapsto> v\<lparr>c_refs := c_refs v - 1\<rparr>)\<rparr>\<rparr>)"
    using v by (auto simp: completion_dec_def get_comp_def put_comp_def heap_put_def)
  let ?t = "if c_refs v = 1 then Call d j c else Store d j"
  let ?Hc = "(comps s)\<lparr>cells := (cells (comps s))(c \<mapsto> v\<lparr>c_refs := c_refs v - 1\<rparr>)\<rparr>"
  let ?s = "s\<lparr>comps := ?Hc, threads := xs @ ?t # ys\<rparr>"
  have h: "todo_of ?s = todo_of s" "busy_of ?s = busy_of s" "sigs_of ?s = sigs_of s"
      "notify_of ?s = notify_of s" "refs_of s = add_mset j (refs_of ?s)"
      "calls_of ?s = (if c_refs v = 1 then add_mset c (calls_of s) else calls_of s)"
    by (auto simp: holdings_defs ts)
  have "winv E G ?s"
  proof (rule winvI [OF inv])
    show "comps_inv (refs_of ?s) (calls_of ?s) (g_held G) (subs ?s) (comps ?s)"
      using comps_inv_dec [OF winvD(8) [OF inv, unfolded h(5)] some v(1)] h(6) by simp
    show "cq_inv (queue_depth (config s)) (cq ?s) (comps ?s) (sigs_of ?s) (g_out G) (inflight s)"
      using winvD(9) [OF inv] h cq_inv_upd [OF v(1), of "v\<lparr>c_refs := c_refs v - 1\<rparr>"] by simp
    show "borrow_inv (todo_of ?s) (subs ?s) (comps ?s) (g_out G)"
      using borrow_inv_upd [OF v(1) _ winvD(11) [OF inv], of "v\<lparr>c_refs := c_refs v - 1\<rparr>"] h by simp
    show "held_inv (g_held G) (comps ?s) (g_out G)"
      using held_inv_upd [OF v(1) _ winvD(14) [OF inv], of "v\<lparr>c_refs := c_refs v - 1\<rparr>"] by simp
    show "pool_inv (pool ?s) (threads ?s)"
      using pool_inv_running [of "pool s" xs "Done d j" ys ?t] winvD(1) [OF inv] ts by auto
    show "threads_ok (crypto E) (digest_name (config s)) (g_hash G) (threads ?s)"
      using winvD(2) [OF inv] ts by (auto simp: threads_ok_def split: if_splits)
  qed (use winvD(7,10) [OF inv] h in simp_all)
  with dec show ?thesis by blast
qed

subsection \<open>Delivering a completion\<close>

lemma finite_undelivered: "heap_ok Hc \<Longrightarrow> finite (undelivered Hc sigs)"
  by (rule finite_subset [of _ "{..<fresh Hc}"]) (auto simp: undelivered_def heap_ok_def)

lemma cq_inv_enqueue:
  assumes inv: "cq_inv qd q Hc sigs out infl" and ok: "heap_ok Hc"
    and v: "cells Hc c = Some v" "c_error v = 0" and c: "c \<notin># sigs"
  shows "cq_count q < qd" (is ?less)
    and "cq_inv qd (q\<lparr>cq_array := (cq_array q)[cq_count q :=
           \<lparr>bc_user_data = c_user_data v, bc_error = c_error v\<rparr>], cq_count := u32 (cq_count q + 1)\<rparr>)
         Hc (add_mset c sigs) out infl" (is "cq_inv qd ?q _ _ _ _")
proof -
  let ?U = "undelivered Hc sigs" and ?V = "undelivered Hc (add_mset c sigs)"
  have V: "?V = ?U - {c}" and cU: "c \<in> ?U" using v c by (auto simp: undelivered_def)
  have U: "mset_set ?U = add_mset c (mset_set ?V)"
    unfolding V using mset_set.remove [OF finite_undelivered [OF ok] cU] .
  have eq: "mset (map bc_user_data (take (cq_count q) (cq_array q))) +
      image_mset (user_data_of Hc) (mset_set ?U) = mset (map fst out)"
    and len: "length (cq_array q) = qd" "qd < 2 ^ 32" "length out \<le> qd" "cq_count q \<le> qd"
    using inv by (auto simp: cq_inv_def)
  have "size (mset (map bc_user_data (take (cq_count q) (cq_array q)))) + size (mset_set ?U) = length out"
    using arg_cong [OF eq, of size] by simp
  then show less: ?less using len U by simp
  then have take: "take (cq_count ?q) (cq_array ?q) =
      take (cq_count q) (cq_array q) @ [\<lparr>bc_user_data = c_user_data v, bc_error = c_error v\<rparr>]"
    using len by (simp add: take_Suc_conv_app_nth)
  have "user_data_of Hc c = c_user_data v" using v by (simp add: user_data_of_def)
  then have "mset (map bc_user_data (take (cq_count ?q) (cq_array ?q))) +
      image_mset (user_data_of Hc) (mset_set ?V) = mset (map fst out)"
    unfolding take using eq unfolding U by simp
  moreover have "\<forall>e\<in>set (take (cq_count ?q) (cq_array ?q)). bc_error e = 0"
    unfolding take using inv v(2) by (auto simp: cq_inv_def)
  moreover have "cq_count ?q \<le> qd" "length (cq_array ?q) = qd" using less len by simp_all
  ultimately show "cq_inv qd ?q Hc (add_mset c sigs) out infl"
    using inv unfolding cq_inv_def by blast
qed

lemma cq_inv_free:
  assumes inv: "cq_inv qd q Hc (add_mset c sigs) out infl"
  shows "cq_inv qd q (Hc\<lparr>cells := (cells Hc)(c := None)\<rparr>) sigs out infl"
proof -
  let ?Hc = "Hc\<lparr>cells := (cells Hc)(c := None)\<rparr>"
  have U: "undelivered ?Hc sigs = undelivered Hc (add_mset c sigs)"
    by (auto simp: undelivered_def)
  have "image_mset (user_data_of ?Hc) (mset_set (undelivered Hc (add_mset c sigs))) =
      image_mset (user_data_of Hc) (mset_set (undelivered Hc (add_mset c sigs)))"
  proof (rule image_mset_cong)
    fix i
    assume "i \<in># mset_set (undelivered Hc (add_mset c sigs))"
    then have "i \<in> undelivered Hc (add_mset c sigs)"
      by (metis elem_mset_set empty_iff mset_set.infinite set_mset_empty)
    then show "user_data_of ?Hc i = user_data_of Hc i"
      by (auto simp: undelivered_def user_data_of_def)
  qed
  then show ?thesis using inv unfolding cq_inv_def U by simp
qed

lemma calls_once:
  assumes "winv E G s" and "calls_of s = add_mset c calls"
  shows "c \<notin># calls" and "\<exists>v. cells (comps s) c = Some v \<and> c_refs v = 0 \<and> c_error v = 0"
proof -
  have "count (calls_of s) c =
      (if \<exists>v. cells (comps s) c = Some v \<and> c_refs v = 0 then 1 else 0)"
    using winvD(8) [OF assms(1)] unfolding comps_inv_def by blast
  then show "c \<notin># calls" "\<exists>v. cells (comps s) c = Some v \<and> c_refs v = 0 \<and> c_error v = 0"
    using assms(2) winvD(8) [OF assms(1)]
    by (auto simp: comps_inv_def not_in_iff split: if_splits)
qed

lemma sigs_sub_calls: "sigs_of s \<subseteq># calls_of s"
  unfolding sigs_of_def calls_of_def by (intro tsum_mono sigs_calls)

lemma winv_call:
  assumes inv: "winv E G s" and ts: "threads s = xs @ Call d j c # ys"
  shows "\<exists>v q b. cells (comps s) c = Some v \<and>
    update_completed_enqueue (c_user_data v) (c_error v) s = Some (b, s\<lparr>cq := q\<rparr>) \<and>
    cq_event q = cq_event (cq s) \<and> cq_array_mem q = cq_array_mem (cq s) \<and>
    winv E G (s\<lparr>cq := q, threads := xs @ Signal d j c b # ys\<rparr>)"
proof -
  let ?b = "cq_count (cq s) = 0"
  let ?ts = "xs @ Signal d j c ?b # ys"
  have calls: "calls_of s = add_mset c (calls_of (s\<lparr>threads := xs @ Store d j # ys\<rparr>))"
    by (simp add: calls_of_def ts)
  obtain v where v: "cells (comps s) c = Some v" "c_error v = 0"
    using calls_once(2) [OF inv calls] by blast
  have "sigs_of s = sigs_of (s\<lparr>threads := xs @ Store d j # ys\<rparr>)" by (simp add: sigs_of_def ts)
  then have nin: "c \<notin># sigs_of s"
    using calls_once(1) [OF inv calls] sigs_sub_calls mset_subset_eqD by metis
  let ?q = "(cq s)\<lparr>cq_array := (cq_array (cq s))[cq_count (cq s) :=
      \<lparr>bc_user_data = c_user_data v, bc_error = c_error v\<rparr>], cq_count := u32 (cq_count (cq s) + 1)\<rparr>"
  have "heap_ok (comps s)" using winvD(8) [OF inv] by (simp add: comps_inv_def)
  note q = cq_inv_enqueue [OF winvD(9) [OF inv] this v nin]
  have len: "length (cq_array (cq s)) = queue_depth (config s)"
    using winvD(9) [OF inv] by (simp add: cq_inv_def)
  let ?s = "s\<lparr>cq := ?q, threads := ?ts\<rparr>"
  have h: "todo_of ?s = todo_of s" "busy_of ?s = busy_of s" "refs_of ?s = refs_of s"
      "calls_of ?s = calls_of s" "sigs_of ?s = add_mset c (sigs_of s)"
      "notify_of ?s \<longleftrightarrow> ?b \<or> notify_of s"
    by (auto simp: holdings_defs ts)
  have "winv E G ?s"
  proof (rule winvI [OF inv])
    show "cq_inv (queue_depth (config s)) (cq ?s) (comps ?s) (sigs_of ?s) (g_out G) (inflight s)"
      using q(2) h(5) by simp
    show "event_inv (g_event G) (queue_depth (config s)) (cq ?s) (notify_of ?s) (g_waited G) (kern ?s)"
      using winvD(10) [OF inv] unfolding h(6) by (auto simp: event_inv_def)
    show "pool_inv (pool ?s) (threads ?s)"
      using pool_inv_running winvD(1) [OF inv] ts by fastforce
    show "threads_ok (crypto E) (digest_name (config s)) (g_hash G) (threads ?s)"
      using winvD(2) [OF inv] ts by (auto simp: threads_ok_def)
  qed (use winvD(7,8,11,14) [OF inv] h in simp_all)
  moreover have "update_completed_enqueue (c_user_data v) (c_error v) s = Some (?b, s\<lparr>cq := ?q\<rparr>)"
    using q(1) len by (simp add: update_completed_enqueue_def assert_that_def Let_def)
  ultimately show ?thesis using v(1) by (intro exI [of _ v] exI [of _ ?q] exI [of _ ?b]) simp
qed

text \<open>A completion without references is not mentioned by a submission any more.\<close>

lemma comps_inv_free:
  assumes inv: "comps_inv refs (add_mset c calls) held Hs Hc"
    and nin: "c \<notin># calls" and v: "cells Hc c = Some v" "c_refs v = 0"
  shows "comps_inv refs calls held Hs (Hc\<lparr>cells := (cells Hc)(c := None)\<rparr>)"
    and "Some c \<notin># image_mset (comp_of Hs) refs"
proof -
  have zero: "count (image_mset (comp_of Hs) refs) (Some c) = 0" "held \<noteq> Some c"
    using inv v by (auto simp: comps_inv_def split: if_splits)
  then show nref: "Some c \<notin># image_mset (comp_of Hs) refs"
    by (simp only: not_in_iff)
  have "count calls i = (if \<exists>w. cells (Hc\<lparr>cells := (cells Hc)(c := None)\<rparr>) i = Some w \<and> c_refs w = 0
      then 1 else 0)" for i
  proof -
    have "count (add_mset c calls) i = (if \<exists>w. cells Hc i = Some w \<and> c_refs w = 0 then 1 else 0)"
      using inv unfolding comps_inv_def by blast
    then show ?thesis using nin by (auto simp: not_in_iff split: if_splits)
  qed
  moreover have "cells (Hc\<lparr>cells := (cells Hc)(c := None)\<rparr>) i \<noteq> None"
    if "Some i \<in># image_mset (comp_of Hs) refs" for i
  proof -
    have "i \<noteq> c" using nref that by blast
    then show ?thesis using inv that by (simp add: comps_inv_def)
  qed
  ultimately show "comps_inv refs calls held Hs (Hc\<lparr>cells := (cells Hc)(c := None)\<rparr>)"
    using inv zero(2) unfolding comps_inv_def by (intro conjI allI impI) (simp_all split: if_splits)
qed

lemma borrow_inv_free:
  assumes inv: "borrow_inv todo Hs Hc out" and sub: "todo \<subseteq># refs"
    and c: "Some c \<notin># image_mset (comp_of Hs) refs"
  shows "borrow_inv todo Hs (Hc\<lparr>cells := (cells Hc)(c := None)\<rparr>) out"
  unfolding borrow_inv_def
proof (intro allI impI)
  fix j sb a
  assume j: "j \<in># todo" "cells Hs j = Some sb" "sub_data sb = User a"
  then obtain c' w a0 n0 where *: "sub_completion sb = Some c'" "cells Hc c' = Some w"
      "(c_user_data w, a0, n0) \<in> set out" "a0 \<le> a" "a + sub_len sb \<le> a0 + n0"
    using inv unfolding borrow_inv_def by blast
  have "comp_of Hs j = Some c'" using j * by (simp add: comp_of_def)
  then have "c' \<noteq> c" using c j(1) sub by (metis image_eqI mset_subset_eqD set_image_mset)
  with * show "\<exists>c'' w a0 n0. sub_completion sb = Some c'' \<and>
      cells (Hc\<lparr>cells := (cells Hc)(c := None)\<rparr>) c'' = Some w \<and>
      (c_user_data w, a0, n0) \<in> set out \<and> a0 \<le> a \<and> a + sub_len sb \<le> a0 + n0"
    by auto
qed

lemma event_inv_signal:
  assumes inv: "event_inv EM qd q notify waited k" and qd: "qd > 0"
    and K: "qd > 0 \<Longrightarrow> eventfd_ok K EM"
  shows "\<exists>e k'. cq_event q = Some e \<and> event_signal K e k = Some (0, k') \<and>
           event_inv EM qd q notify' waited k'"
proof -
  obtain e where e: "cq_event q = Some e" "event_opened EM e k"
    using inv qd by (auto simp: event_inv_def)
  then obtain k' where "event_signal K e k = Some (0, k')" "event_opened EM e k'" "event_ready EM e k'"
    using ev.signal_ready [OF K [OF qd] e(2)] by (auto elim!: ensuresE)
  with e show ?thesis by (auto simp: event_inv_def)
qed

lemma update_completed_signal_ok:
  assumes inv: "winv E G s" and c: "cells (comps s) c \<noteq> None"
  shows "\<exists>k. update_completed_signal E b s = Some (s\<lparr>kern := k\<rparr>) \<and>
    event_inv (g_event G) (queue_depth (config s)) (cq s) (\<not> b \<and> notify_of s) (g_waited G) k"
proof (cases b)
  case True
  have "queue_depth (config s) > 0"
    using winvD(9) [OF inv] c by (auto simp: cq_inv_def)
  then obtain e k where "cq_event (cq s) = Some e" "event_signal (host E) e (kern s) = Some (0, k)"
      "event_inv (g_event G) (queue_depth (config s)) (cq s) False (g_waited G) k"
    using event_inv_signal [OF winvD(10) [OF inv] _ winvD(13) [OF inv]] by blast
  with True show ?thesis by (auto simp: update_completed_signal_def)
next
  case False
  then show ?thesis
    using winvD(10) [OF inv] by (intro exI [of _ "kern s"]) (simp add: update_completed_signal_def)
qed

lemma winv_signal:
  assumes inv: "winv E G s" and ts: "threads s = xs @ Signal d j c b # ys"
  shows "\<exists>k. update_completed_signal E b s = Some (s\<lparr>kern := k\<rparr>) \<and> cells (comps s) c \<noteq> None \<and>
    winv E G (s\<lparr>kern := k, comps := (comps s)\<lparr>cells := (cells (comps s))(c := None)\<rparr>,
               threads := xs @ Store d j # ys\<rparr>)"
proof -
  have calls: "calls_of s = add_mset c (calls_of (s\<lparr>threads := xs @ Store d j # ys\<rparr>))"
    by (simp add: calls_of_def ts)
  obtain v where v: "cells (comps s) c = Some v" "c_refs v = 0"
    using calls_once(2) [OF inv calls] by blast
  then have live: "cells (comps s) c \<noteq> None" by simp
  obtain k where k: "update_completed_signal E b s = Some (s\<lparr>kern := k\<rparr>)"
      "event_inv (g_event G) (queue_depth (config s)) (cq s) (\<not> b \<and> notify_of s) (g_waited G) k"
    using update_completed_signal_ok [OF inv live] by blast
  let ?Hc = "(comps s)\<lparr>cells := (cells (comps s))(c := None)\<rparr>"
  let ?s = "s\<lparr>kern := k, comps := ?Hc, threads := xs @ Store d j # ys\<rparr>"
  have h: "todo_of ?s = todo_of s" "busy_of ?s = busy_of s" "refs_of ?s = refs_of s"
      "calls_of s = add_mset c (calls_of ?s)" "sigs_of s = add_mset c (sigs_of ?s)"
      "notify_of s \<longleftrightarrow> b \<or> notify_of ?s"
    by (auto simp: holdings_defs ts)
  note free = comps_inv_free [OF winvD(8) [OF inv, unfolded h(4)] calls_once(1) [OF inv h(4)] v]
  have "winv E G ?s"
  proof (rule winvI [OF inv])
    show "comps_inv (refs_of ?s) (calls_of ?s) (g_held G) (subs ?s) (comps ?s)"
      using free(1) h(3) by simp
    show "cq_inv (queue_depth (config s)) (cq ?s) (comps ?s) (sigs_of ?s) (g_out G) (inflight s)"
      using cq_inv_free [OF winvD(9) [OF inv, unfolded h(5)]] by simp
    show "event_inv (g_event G) (queue_depth (config s)) (cq ?s) (notify_of ?s) (g_waited G) (kern ?s)"
      using k(2) h(6) by (auto simp: event_inv_def)
    show "borrow_inv (todo_of ?s) (subs ?s) (comps ?s) (g_out G)"
      using borrow_inv_free [OF winvD(11) [OF inv] todo_sub_refs free(2)] h(1) by simp
    have "g_held G \<noteq> Some c" using winvD(8) [OF inv] v by (auto simp: comps_inv_def)
    then show "held_inv (g_held G) (comps ?s) (g_out G)"
      using winvD(14) [OF inv] by (auto simp: held_inv_def)
    show "pool_inv (pool ?s) (threads ?s)"
      using pool_inv_running winvD(1) [OF inv] ts by fastforce
    show "threads_ok (crypto E) (digest_name (config s)) (g_hash G) (threads ?s)"
      using winvD(2) [OF inv] ts by (auto simp: threads_ok_def)
  qed (use winvD(7) [OF inv] h in simp_all)
  with k(1) live show ?thesis by blast
qed

subsection \<open>Storing the completed flag\<close>

lemma subs_inv_store:
  assumes inv: "subs_inv bs hash m todo (add_mset j busy) H L" and nin: "j \<notin># busy"
    and sub: "cells H j = Some sub"
  shows "subs_inv bs hash m todo busy
    (H\<lparr>cells := (cells H)(j \<mapsto> sub\<lparr>sub_completion := None, sub_completed := True\<rparr>)\<rparr>) L"
proof -
  let ?sub = "sub\<lparr>sub_completion := None, sub_completed := True\<rparr>"
  let ?H = "H\<lparr>cells := (cells H)(j \<mapsto> ?sub)\<rparr>"
  have "busy = mset (filter (unfinished ?H) (map fst L))"
  proof (rule multiset_eqI)
    fix i
    have old: "add_mset j busy = filter_mset (unfinished H) (mset (map fst L))"
      using inv by (simp add: subs_inv_def)
    have "unfinished ?H i \<longleftrightarrow> unfinished H i \<and> i \<noteq> j" by (auto simp: unfinished_def)
    then show "count busy i = count (mset (filter (unfinished ?H) (map fst L))) i"
      using arg_cong [OF old, of "\<lambda>X. count X i"] nin by (auto simp: not_in_iff split: if_splits)
  qed
  moreover have "entry_ok bs hash m (i \<in># todo) sub' l b"
    if "(i, l, b) \<in> set L" "cells ?H i = Some sub'" for i l b sub'
  proof -
    have old: "entry_ok bs hash m (i \<in># todo) sb l b" if "cells H i = Some sb" for sb
      using inv \<open>(i, l, b) \<in> set L\<close> that unfolding subs_inv_def by blast
    show ?thesis
    proof (cases "i = j")
      case True
      then have "sub' = ?sub" using that(2) by simp
      then show ?thesis using old [of sub] True sub by (auto simp: entry_ok_def split: option.splits)
    next
      case False
      then show ?thesis using old [of sub'] that(2) by simp
    qed
  qed
  moreover have "\<forall>i. cells ?H i \<noteq> None \<longleftrightarrow> i \<in> fst ` set L"
    using inv sub by (auto simp: subs_inv_def)
  ultimately show ?thesis
    using inv sub unfolding subs_inv_def by (simp add: subs_inv_def)
qed

lemma winv_store:
  assumes inv: "winv E G s" and ts: "threads s = xs @ Store d j # ys"
  shows "\<exists>sub. submission_store_completed j s =
      Some (s\<lparr>subs := (subs s)\<lparr>cells := (cells (subs s))(j \<mapsto>
        sub\<lparr>sub_completion := None, sub_completed := True\<rparr>)\<rparr>\<rparr>) \<and>
    winv E G (s\<lparr>subs := (subs s)\<lparr>cells := (cells (subs s))(j \<mapsto>
        sub\<lparr>sub_completion := None, sub_completed := True\<rparr>)\<rparr>, threads := xs @ Loop d # ys\<rparr>)"
proof -
  have "j \<in># busy_of s" by (simp add: busy_of_def ts)
  then obtain sub where sub: "cells (subs s) j = Some sub"
    using subs_inv_entry [OF winvD(7) [OF inv]] by blast
  let ?H = "(subs s)\<lparr>cells := (cells (subs s))(j \<mapsto>
        sub\<lparr>sub_completion := None, sub_completed := True\<rparr>)\<rparr>"
  let ?s = "s\<lparr>subs := ?H, threads := xs @ Loop d # ys\<rparr>"
  have h: "todo_of ?s = todo_of s" "busy_of s = add_mset j (busy_of ?s)" "refs_of ?s = refs_of s"
      "calls_of ?s = calls_of s" "sigs_of ?s = sigs_of s" "notify_of ?s = notify_of s"
    by (auto simp: holdings_defs ts)
  have nin: "j \<notin># busy_of ?s" using busy_once [OF inv h(2)] .
  then have nref: "j \<notin># refs_of ?s" using refs_sub_busy mset_subset_eqD by metis
  then have ntodo: "j \<notin># todo_of ?s" using todo_sub_refs mset_subset_eqD by metis
  have comp: "image_mset (comp_of ?H) (refs_of ?s) = image_mset (comp_of (subs s)) (refs_of ?s)"
    using nref by (intro image_mset_cong) (auto simp: comp_of_def)
  have "winv E G ?s"
  proof (rule winvI [OF inv])
    show "subs_inv (block_size (config s)) (hash_of (g_hash G)) (mem s) (todo_of ?s) (busy_of ?s)
        (subs ?s) (g_log G)"
      using subs_inv_store [OF winvD(7) [OF inv, unfolded h(2)] nin sub] h(1) by simp
    show "comps_inv (refs_of ?s) (calls_of ?s) (g_held G) (subs ?s) (comps ?s)"
      using winvD(8) [OF inv] comp h(3,4) by (simp add: comps_inv_def)
    show "borrow_inv (todo_of ?s) (subs ?s) (comps ?s) (g_out G)"
      using winvD(11) [OF inv] ntodo h(1) by (auto simp: borrow_inv_def split: if_splits)
    show "pool_inv (pool ?s) (threads ?s)"
      using pool_inv_running winvD(1) [OF inv] ts by fastforce
    show "threads_ok (crypto E) (digest_name (config s)) (g_hash G) (threads ?s)"
      using winvD(2) [OF inv] ts by (auto simp: threads_ok_def)
  qed (use winvD(9,10,14) [OF inv] h in simp_all)
  moreover have "submission_store_completed j s = Some (s\<lparr>subs := ?H\<rparr>)"
    using sub by (simp add: submission_store_completed_def get_sub_def put_sub_def heap_put_def)
  ultimately show ?thesis by blast
qed

subsection \<open>Every step\<close>

text \<open>
  A step of a worker keeps the invariant, leaves what the calling thread owns alone, and makes
  progress unless the thread was asleep.
\<close>

definition step_ok ::
    "('x, 'k) ext \<Rightarrow> ('x, 'k) ghost \<Rightarrow> ('x, 'k) sys \<Rightarrow> ('x, 'k) sys \<Rightarrow> bool" where
  "step_ok E G s s' \<longleftrightarrow> winv E G s' \<and> caller_eq s s'"

lemma work_left_tsum: "work_left s = tsum thread_work (threads s) + 6 * p_queue_len (pool s)"
  by (simp add: work_left_def tsum_def)

lemma pop_unlocked_keeps:
  "p_queue_size (snd (pop_unlocked p)) = p_queue_size p"
  "p_queue_mem (snd (pop_unlocked p)) = p_queue_mem p"
  "p_workers_mem (snd (pop_unlocked p)) = p_workers_mem p"
  "p_workers_count (snd (pop_unlocked p)) = p_workers_count p"
  by (simp_all add: pop_unlocked_def)

lemma wait_for_work_ok:
  assumes inv: "winv E G s" and ts: "threads s = xs @ Loop d # ys"
  shows "ensures (wait_for_work (length xs) d s)
           (\<lambda>s'. step_ok E G s s' \<and> work_left s' < work_left s)"
proof (cases "p_queue_len (pool s) = 0")
  case True
  then show ?thesis
    using winv_sleep [OF inv ts True]
    by (simp add: wait_for_work_def set_thread_def ts step_ok_def caller_eq_def work_left_tsum)
next
  case False
  obtain j where j: "pop_unlocked (pool s) = (Sub j, snd (pop_unlocked (pool s)))"
      "winv E G (s\<lparr>pool := snd (pop_unlocked (pool s)), threads := xs @ Work d j # ys\<rparr>)"
    using winv_take [OF inv ts False] by blast
  have "p_queue_len (pool s) < 2 ^ 32" using winvD(1) [OF inv] by (simp add: pool_inv_def pq_inv_def)
  then have "p_queue_len (snd (pop_unlocked (pool s))) = p_queue_len (pool s) - 1"
    using False by (simp add: pop_unlocked_def)
  moreover have "wait_for_work (length xs) d s =
      Some (s\<lparr>pool := snd (pop_unlocked (pool s)), threads := xs @ Work d j # ys\<rparr>)"
    using False by (subst wait_for_work_def, subst j(1)) (simp add: set_thread_def ts)
  ultimately show ?thesis
    using j(2) False by (simp add: step_ok_def caller_eq_def work_left_tsum ts pop_unlocked_keeps)
qed

lemma wait_for_work_awake_ok:
  assumes inv: "winv E G s" and ts: "threads s = xs @ t # ys" and t: "t = Wait d \<or> t = Woken d"
  shows "ensures (wait_for_work_awake (length xs) d s)
           (\<lambda>s'. step_ok E G s s' \<and> (runnable t \<longrightarrow> work_left s' < work_left s))"
proof -
  let ?s = "s\<lparr>pool := (pool s)\<lparr>p_workers_idle := sub32 (p_workers_idle (pool s)) 1\<rparr>,
              threads := xs @ Loop d # ys\<rparr>"
  have "set_thread (length xs) u (s\<lparr>pool := p\<rparr>) = set_thread (length xs) u (?s\<lparr>pool := p\<rparr>)" for u p
    by (simp add: set_thread_def ts)
  then have "wait_for_work_awake (length xs) d s = wait_for_work (length xs) d ?s"
    unfolding wait_for_work_awake_def wait_for_work_def
    by (simp split: prod.splits sub_ptr.splits)
  moreover have "ensures (wait_for_work (length xs) d ?s)
      (\<lambda>s'. step_ok E G ?s s' \<and> work_left s' < work_left ?s)"
    using wait_for_work_ok [OF winv_awake [OF inv ts t]] by simp
  moreover have "runnable t \<longrightarrow> work_left ?s = work_left s"
    using t by (auto simp: work_left_tsum ts)
  ultimately show ?thesis
    by (auto simp: step_ok_def caller_eq_def elim!: ensures_mono)
qed

lemma start_ok:
  assumes inv: "winv E G s" and ts: "threads s = xs @ Start # ys"
  shows "\<exists>d. digest_create (crypto E) (digest_name (config s)) (faults s) = (Inr d, faults s) \<and>
             winv E G (s\<lparr>threads := xs @ Loop d # ys\<rparr>)"
proof -
  obtain d where d: "digest_create (crypto E) (digest_name (config s)) [] = (Inr d, [])"
      "digest_usable (crypto E) (digest_name (config s)) (g_hash G) d"
    using dg.create_usable [OF winvD(3) [OF inv]] by blast
  have "winv E G (s\<lparr>threads := xs @ Loop d # ys\<rparr>)" (is "winv E G ?s")
  proof (rule winv_holdings [OF inv])
    show "pool_inv (pool ?s) (threads ?s)"
      using pool_inv_running winvD(1) [OF inv] ts by fastforce
    show "threads_ok (crypto E) (digest_name (config ?s)) (g_hash G) (threads ?s)"
      using winvD(2) [OF inv] ts d(2) by (auto simp: threads_ok_def)
  qed (auto simp: holdings_defs ts)
  with d winvD(4) [OF inv] show ?thesis by auto
qed

theorem worker_step_ok:
  assumes inv: "winv E G s"
  shows "ensures (worker_thread E i s)
    (\<lambda>s'. step_ok E G s s' \<and>
          (i < length (threads s) \<and> runnable (threads s ! i) \<longrightarrow> work_left s' < work_left s))"
proof (cases "i < length (threads s)")
  case False
  then show ?thesis using inv by (simp add: worker_thread_def step_ok_def)
next
  case True
  define xs t ys where "xs = take i (threads s)" and "t = threads s ! i" and "ys = drop (Suc i) (threads s)"
  have ts: "threads s = xs @ t # ys" and i: "i = length xs" and nth: "threads s ! length xs = t"
    using True by (simp_all add: xs_def t_def ys_def id_take_nth_drop min_def)
  have set [simp]: "set_thread (length xs) u s' = s'\<lparr>threads := xs @ u # ys\<rparr>"
    if "threads s' = xs @ t # ys" for u and s' :: "('a, 'b) sys"
    using that by (simp add: set_thread_def)
  note step = worker_thread_def step_ok_def caller_eq_def work_left_tsum
  show ?thesis
  proof (cases t)
    case Start
    then show ?thesis
      using start_ok [OF inv ts [unfolded Start]] True ts nth unfolding i by (auto simp: step)
  next
    case (Loop d)
    then show ?thesis
      using wait_for_work_ok [OF inv ts [unfolded Loop]] True nth unfolding i
      by (auto simp: worker_thread_def elim!: ensures_mono)
  next
    case (Wait d)
    then show ?thesis
      using wait_for_work_awake_ok [OF inv ts, of d] True nth unfolding i
      by (auto simp: worker_thread_def elim!: ensures_mono)
  next
    case (Woken d)
    then show ?thesis
      using wait_for_work_awake_ok [OF inv ts, of d] True nth unfolding i
      by (auto simp: worker_thread_def elim!: ensures_mono)
  next
    case (Work d j)
    then show ?thesis
      using winv_process [OF inv ts [unfolded Work]] True ts nth unfolding i by (auto simp: step)
  next
    case (Done d j)
    have "j \<in># busy_of s" by (simp add: busy_of_def ts Done)
    then obtain sub where sub: "cells (subs s) j = Some sub"
      using subs_inv_entry [OF winvD(7) [OF inv]] by blast
    then show ?thesis
      using winv_done_none [OF inv ts [unfolded Done]] winv_done_some [OF inv ts [unfolded Done]]
        True ts nth Done unfolding i
      by (cases "sub_completion sub") (auto simp: step comp_of_def)
  next
    case (Call d j c)
    then show ?thesis
      using winv_call [OF inv ts [unfolded Call]] True ts nth unfolding i by (auto simp: step)
  next
    case (Signal d j c b)
    then show ?thesis
      using winv_signal [OF inv ts [unfolded Signal]] True ts nth unfolding i
      by (auto simp: step completion_free_def)
  next
    case (Store d j)
    then show ?thesis
      using winv_store [OF inv ts [unfolded Store]] True ts nth unfolding i by (auto simp: step)
  next
    case Exited
    then show ?thesis using winvD(2) [OF inv] ts by (simp add: threads_ok_def)
  qed
qed

section \<open>Interleaving and waiting\<close>

lemma winv_sched [simp]: "winv E G (s\<lparr>sched := sc\<rparr>) \<longleftrightarrow> winv E G s"
  by (simp add: winv_def holdings_defs)

lemma step_ok_sched [simp]:
  "step_ok E G s (s'\<lparr>sched := sc\<rparr>) \<longleftrightarrow> step_ok E G s s'"
  "step_ok E G (s\<lparr>sched := sc\<rparr>) s' \<longleftrightarrow> step_ok E G s s'"
  by (simp_all add: step_ok_def)

lemma step_ok_refl: "winv E G s \<Longrightarrow> step_ok E G s s"
  by (simp add: step_ok_def)

lemma step_ok_trans: "step_ok E G s s' \<Longrightarrow> step_ok E G s' s'' \<Longrightarrow> step_ok E G s s''"
  unfolding step_ok_def by (blast intro: caller_eq_trans)

interpretation wk: worker_steps E "winv E G" for E G
proof
  fix s i assume "winv E G s"
  from worker_step_ok [OF this, of i]
  show "ensures (worker_thread E i s) (\<lambda>s'. winv E G s' \<and> caller_eq s s' \<and>
      (i < length (threads s) \<and> runnable (threads s ! i) \<longrightarrow> work_left s' < work_left s))"
    by (rule ensures_mono) (simp add: step_ok_def)
qed simp

lemma yield_ok: "winv E G s \<Longrightarrow> ensures (yield E s) (step_ok E G s)"
  unfolding step_ok_def by (rule wk.yield_inv)

text \<open>As long as a submission is not completed, some worker can run.\<close>

lemma runnable_exists:
  assumes inv: "winv E G s" and j: "j \<in> fst ` set (g_log G)" and nc: "\<not> completed_in j s"
  shows "\<exists>i < length (threads s). runnable (threads s ! i)"
proof -
  have H: "cells (subs s) j \<noteq> None" and busy: "busy_of s = mset (filter (unfinished (subs s)) (map fst (g_log G)))"
    using winvD(7) [OF inv] j by (auto simp: subs_inv_def)
  then have "unfinished (subs s) j" using nc by (auto simp: unfinished_def completed_in_def)
  then have "j \<in># busy_of s" using j busy by (auto simp: image_iff)
  then consider "j \<in> set (queued (pool s))" | "j \<in># tsum thread_busy (threads s)"
    by (auto simp: busy_of_def)
  then have "\<exists>t\<in>set (threads s). runnable t"
  proof cases
    case 1
    then have "p_queue_len (pool s) > 0"
      by (metis length_map length_pos_if_in_set length_pq_view queued_def)
    then show ?thesis using winvD(1) [OF inv] by (auto simp: pool_inv_def)
  next
    case 2
    then obtain t where t: "t \<in> set (threads s)" "j \<in># thread_busy t" by (auto simp: in_tsum_iff)
    have "runnable t" using t(2) by (induction t) simp_all
    with t show ?thesis by blast
  qed
  then show ?thesis by (metis in_set_conv_nth)
qed

text \<open>Waiting for a submission ends, whatever the schedule, and the submission is completed.\<close>

interpretation sub_wait: worker_wait E "\<lambda>s. winv E G s \<and> j \<in> fst ` set (g_log G)" "completed_in j" for E G j
proof
  fix s i assume "winv E G s \<and> j \<in> fst ` set (g_log G)"
  then show "ensures (worker_thread E i s) (\<lambda>s'. (winv E G s' \<and> j \<in> fst ` set (g_log G)) \<and> caller_eq s s' \<and>
      (i < length (threads s) \<and> runnable (threads s ! i) \<longrightarrow> work_left s' < work_left s))"
    using wk.step [of E G s i] by (auto elim!: ensures_mono)
next
  fix s assume "winv E G s \<and> j \<in> fst ` set (g_log G)" "\<not> completed_in j s"
  then show "\<exists>i < length (threads s). runnable (threads s ! i)" using runnable_exists by blast
qed (simp_all add: completed_in_def)

lemma submission_wait_ok:
  assumes "winv E G s" and "j \<in> fst ` set (g_log G)"
  shows "ensures (submission_wait E j s) (\<lambda>s'. step_ok E G s s' \<and> completed_in j s')"
proof -
  have "cells (subs s) j \<noteq> None" using winvD(7) [OF assms(1)] assms(2) by (simp add: subs_inv_def)
  then show ?thesis
    using sub_wait.wait_until_ends [where E = E and G = G and j = j and s = s] assms
    by (auto simp: submission_wait_def step_ok_def elim!: ensures_mono)
qed

end
