(* ===== verification/Caller.thy ===== *)
theory Caller
  imports Blkhash Workers
begin

text \<open>
  The calling thread and the invariant of the workers: creating, submitting and destroying a
  submission, taking and dropping a reference to a completion, receiving completions, and
  writing to memory the hash does not borrow all keep \<open>winv\<close>.
\<close>

section \<open>What the invariant does not depend on\<close>

lemma winv_frame [simp]:
  "winv E G (s\<lparr>sq := q\<rparr>) \<longleftrightarrow> winv E G s"
  "winv E G (s\<lparr>outer_digest := d\<rparr>) \<longleftrightarrow> winv E G s"
  "winv E G (s\<lparr>hashed_index := i\<rparr>) \<longleftrightarrow> winv E G s"
  "winv E G (s\<lparr>block_index := i\<rparr>) \<longleftrightarrow> winv E G s"
  "winv E G (s\<lparr>submitted_index := i\<rparr>) \<longleftrightarrow> winv E G s"
  "winv E G (s\<lparr>message_length := w\<rparr>) \<longleftrightarrow> winv E G s"
  "winv E G (s\<lparr>pending := b\<rparr>) \<longleftrightarrow> winv E G s"
  "winv E G (s\<lparr>finalized := f\<rparr>) \<longleftrightarrow> winv E G s"
  by (simp_all add: winv_def holdings_defs)

section \<open>Destroying a submission\<close>

lemma completed_not_busy:
  assumes "winv E G s" and "completed_in j s"
  shows "j \<notin># busy_of s"
  using winvD(7) [OF assms(1)] assms(2)
  by (auto simp: subs_inv_def unfinished_def completed_in_def split: option.splits)

lemma subs_invD:
  "subs_inv bs hash m todo busy H L \<Longrightarrow> (j, k, b) \<in> set L \<Longrightarrow> cells H j = Some sub \<Longrightarrow>
   entry_ok bs hash m (j \<in># todo) sub k b"
  unfolding subs_inv_def by blast

text \<open>What the calling thread finds in a completed submission.\<close>

lemma completed_entry:
  assumes inv: "winv E G s" and c: "completed_in j s" and e: "(j, k, b) \<in> set (g_log G)"
  shows "\<exists>sub. cells (subs s) j = Some sub \<and> sub_index sub = int k \<and> sub_error sub = 0 \<and>
    (case b of None \<Rightarrow> sub_zero sub
     | Some data \<Rightarrow> processed (block_size (config s)) (hash_of (g_hash G)) data sub)"
proof -
  obtain sub where sub: "cells (subs s) j = Some sub"
    using c by (auto simp: completed_in_def split: option.splits)
  have "j \<notin># todo_of s"
    using completed_not_busy [OF inv c] mset_subset_eqD [OF todo_sub_refs]
      mset_subset_eqD [OF refs_sub_busy] by blast
  then have "entry_ok (block_size (config s)) (hash_of (g_hash G)) (mem s) False sub k b"
    using subs_invD [OF winvD(7) [OF inv] e sub] by simp
  with sub show ?thesis by (auto simp: entry_ok_def processed_def split: option.splits)
qed

lemma subs_inv_destroy:
  assumes inv: "subs_inv bs hash m todo busy H ((j, k, b) # L)" and nb: "j \<notin># busy"
  shows "subs_inv bs hash m todo busy (H\<lparr>cells := (cells H)(j := None)\<rparr>) L"
proof -
  let ?H = "H\<lparr>cells := (cells H)(j := None)\<rparr>"
  have dist: "j \<notin> fst ` set L" "distinct (map fst L)" using inv by (auto simp: subs_inv_def)
  have "unfinished ?H i = unfinished H i" if "i \<in> fst ` set L" for i
    using dist that by (auto simp: unfinished_def)
  then have "filter (unfinished ?H) (map fst L) = filter (unfinished H) (map fst L)"
    by (intro filter_cong) auto
  moreover have "\<not> unfinished H j"
    using inv nb by (auto simp: subs_inv_def split: if_splits)
  ultimately have "busy = mset (filter (unfinished ?H) (map fst L))"
    using inv by (simp add: subs_inv_def)
  moreover have "entry_ok bs hash m (i \<in># todo) sub l c"
    if "(i, l, c) \<in> set L" "cells ?H i = Some sub" for i l c sub
    using inv that unfolding subs_inv_def by (auto split: if_splits)
  moreover have "\<forall>i. cells ?H i \<noteq> None \<longleftrightarrow> i \<in> fst ` set L"
    using inv dist by (auto simp: subs_inv_def)
  ultimately show ?thesis
    using inv dist unfolding subs_inv_def by (simp add: subs_inv_def)
qed

lemma winv_destroy:
  assumes inv: "winv E G s" and L: "g_log G = (j, k, b) # L" and c: "completed_in j s"
  shows "winv E (G\<lparr>g_log := L\<rparr>) (s\<lparr>subs := (subs s)\<lparr>cells := (cells (subs s))(j := None)\<rparr>\<rparr>)"
    (is "winv E ?G ?s")
proof -
  have nb: "j \<notin># busy_of s" using completed_not_busy [OF inv c] .
  then have nref: "j \<notin># refs_of s" using mset_subset_eqD [OF refs_sub_busy] by blast
  then have ntodo: "j \<notin># todo_of s" using mset_subset_eqD [OF todo_sub_refs] by blast
  have h: "todo_of ?s = todo_of s" "busy_of ?s = busy_of s" "refs_of ?s = refs_of s"
      "calls_of ?s = calls_of s" "sigs_of ?s = sigs_of s" "notify_of ?s = notify_of s"
    by (auto simp: holdings_defs)
  have comp: "image_mset (comp_of (subs ?s)) (refs_of s) = image_mset (comp_of (subs s)) (refs_of s)"
    using nref by (intro image_mset_cong) (auto simp: comp_of_def)
  have "comps_inv (refs_of s) (calls_of s) (g_held G) (subs ?s) (comps s)"
    using winvD(8) [OF inv] comp by (simp add: comps_inv_def)
  moreover have "borrow_inv (todo_of s) (subs ?s) (comps s) (g_out G)"
    using winvD(11) [OF inv] ntodo by (auto simp: borrow_inv_def split: if_splits)
  moreover have "subs_inv (block_size (config s)) (hash_of (g_hash G)) (mem s) (todo_of s)
      (busy_of s) (subs ?s) L"
    using subs_inv_destroy [OF winvD(7) [OF inv, unfolded L] nb] by simp
  moreover have "length L + 2 < 2 ^ 32" using winvD(12) [OF inv] L by simp
  ultimately show ?thesis
    using inv unfolding winv_def h by simp
qed

section \<open>Submitting a block\<close>

lemma tsum_cond_signal:
  "(\<And>d. f (Woken d) = f (Wait d)) \<Longrightarrow> tsum f (cond_signal ts) = tsum f ts"
proof (induction ts)
  case (Cons t ts)
  then show ?case by (cases t) auto
qed simp

lemma set_cond_signal:
  "t \<in> set (cond_signal ts) \<Longrightarrow> t \<in> set ts \<or> (\<exists>d. t = Woken d \<and> Wait d \<in> set ts)"
proof (induction ts)
  case (Cons u ts)
  then show ?case by (cases u) auto
qed simp

lemma cond_signal_runnable:
  "(\<exists>t\<in>set ts. runnable t) \<or> (\<exists>t\<in>set ts. is_Wait t) \<Longrightarrow> \<exists>t\<in>set (cond_signal ts). runnable t"
proof (induction ts)
  case (Cons u ts)
  then show ?case by (cases u) auto
qed simp

lemma length_cond_signal [simp]: "length (cond_signal ts) = length ts"
  by (induction ts) auto

lemma notify_cond_signal:
  "(\<exists>t\<in>set (cond_signal ts). thread_notify t) \<longleftrightarrow> (\<exists>t\<in>set ts. thread_notify t)"
proof (induction ts)
  case (Cons u ts)
  then show ?case by (cases u) auto
qed simp

lemma all_waiting_idle:
  "(\<And>t. t \<in> set ts \<Longrightarrow> t \<noteq> Exited \<and> \<not> runnable t) \<Longrightarrow> tsum thread_idle ts = length ts"
proof (induction ts)
  case (Cons u ts)
  have "u \<noteq> Exited" "\<not> runnable u" using Cons.prems [of u] by auto
  then have "thread_idle u = 1" by (induction u) simp_all
  with Cons show ?case by simp
qed simp

lemma pool_inv_submit:
  assumes inv: "pool_inv p ts" and room: "p_queue_len p < p_queue_size p"
    and ex: "\<And>t. t \<in> set ts \<Longrightarrow> t \<noteq> Exited"
    and p': "p' = push_unlocked p (Sub j)"
    and ts': "ts' = (if need_wakeup p' then cond_signal ts else ts)"
  shows "pool_inv p' ts'" and "queued p' = queued p @ [j]"
proof -
  have pq: "pq_inv p" and view: "pq_view p = map Sub (queued p)" using inv by (auto simp: pool_inv_def)
  have room': "length (pq_view p) < p_queue_size p" using room by simp
  have view': "pq_view p' = pq_view p @ [Sub j]" and pq': "pq_inv p'"
    unfolding p' using pqf.push_view [OF pq room'] pqf.push_inv [OF pq room'] by auto
  then show q: "queued p' = queued p @ [j]" by (simp add: queued_def)
  have keep: "p_error p' = p_error p" "p_stopped p' = p_stopped p"
      "p_workers_idle p' = p_workers_idle p" "p_workers_count p' = p_workers_count p"
    by (simp_all add: p' push_unlocked_def)
  have len: "p_queue_len p' > 0" using view' by (metis length_pq_view length_append_singleton zero_less_Suc)
  have "\<exists>t\<in>set ts'. runnable t"
  proof (cases "\<exists>t\<in>set ts. runnable t")
    case True
    then show ?thesis using cond_signal_runnable by (auto simp: ts')
  next
    case False
    then have idle: "p_workers_idle p' = length ts" and wait: "\<exists>t\<in>set ts. is_Wait t"
    proof -
      show "p_workers_idle p' = length ts"
        using all_waiting_idle [of ts] ex False inv keep by (auto simp: pool_inv_def)
      obtain t where t: "t \<in> set ts" using inv by (cases ts) (auto simp: pool_inv_def)
      then have "t \<noteq> Exited" "\<not> runnable t" using ex False by auto
      then have "is_Wait t" by (induction t) simp_all
      with t show "\<exists>t\<in>set ts. is_Wait t" by blast
    qed
    have "p_workers_count p' = length ts" "0 < length ts" "length ts < 2 ^ 32"
      using inv keep unfolding pool_inv_def by auto
    then have "need_wakeup p'"
      using idle len by (simp add: need_wakeup_def active_workers_def)
    then show ?thesis using cond_signal_runnable wait by (auto simp: ts')
  qed
  moreover have "tsum thread_idle ts' = tsum thread_idle ts" "length ts' = length ts"
    by (simp_all add: ts' tsum_cond_signal)
  ultimately show "pool_inv p' ts'"
    using inv keep pq' view' view q by (simp add: pool_inv_def)
qed

text \<open>A submission just created is one more entry of the log.\<close>

lemma subs_inv_add:
  assumes inv: "subs_inv bs hash m todo busy H L"
    and entry: "entry_ok bs hash m (fresh H \<in># todo') sub k b"
    and todo: "\<And>i. i \<noteq> fresh H \<Longrightarrow> i \<in># todo' \<longleftrightarrow> i \<in># todo"
    and busy': "busy' = (if sub_completed sub then busy else add_mset (fresh H) busy)"
  shows "subs_inv bs hash m todo' busy'
    (H\<lparr>cells := (cells H)(fresh H \<mapsto> sub), fresh := Suc (fresh H)\<rparr>) (L @ [(fresh H, k, b)])"
proof -
  let ?j = "fresh H"
  let ?H = "H\<lparr>cells := (cells H)(?j \<mapsto> sub), fresh := Suc (fresh H)\<rparr>"
  let ?L = "L @ [(?j, k, b)]"
  have ok: "heap_ok H" and dom: "\<And>j. cells H j \<noteq> None \<longleftrightarrow> j \<in> fst ` set L" and dist: "distinct (map fst L)"
    and busy: "busy = mset (filter (unfinished H) (map fst L))"
    using inv unfolding subs_inv_def by blast+
  have new: "?j \<notin> fst ` set L" using dom [of ?j] ok by simp
  have "unfinished ?H i = unfinished H i" if "i \<in> fst ` set L" for i
  proof -
    have "i \<noteq> ?j" using new that by blast
    then show ?thesis by (simp add: unfinished_def)
  qed
  then have "filter (unfinished ?H) (map fst L) = filter (unfinished H) (map fst L)"
    by (intro filter_cong) auto
  moreover have "unfinished ?H ?j \<longleftrightarrow> \<not> sub_completed sub" by (simp add: unfinished_def)
  ultimately have "busy' = mset (filter (unfinished ?H) (map fst ?L))"
    using busy busy' by (simp del: mset_filter)
  moreover have "entry_ok bs hash m (i \<in># todo') sb l c"
    if "(i, l, c) \<in> set ?L" "cells ?H i = Some sb" for i l c sb
  proof (cases "i = ?j")
    case True
    then have "(i, l, c) \<notin> set L" using new by force
    then show ?thesis using that True entry by simp
  next
    case False
    then show ?thesis using subs_invD [OF inv, of i l c sb] that todo by auto
  qed
  moreover have "\<forall>i. cells ?H i \<noteq> None \<longleftrightarrow> i \<in> fst ` set ?L" using dom by auto
  ultimately show ?thesis
    using dist new ok unfolding subs_inv_def by simp
qed

text \<open>A new submission may take a reference to the completion the calling thread holds.\<close>

lemma comps_inv_noref:
  assumes inv: "comps_inv refs calls held Hs Hc" and j: "comp_of Hs' j = None"
    and same: "\<And>i. i \<in># refs \<Longrightarrow> comp_of Hs' i = comp_of Hs i"
  shows "comps_inv (add_mset j refs) calls held Hs' Hc"
proof -
  have "image_mset (comp_of Hs') refs = image_mset (comp_of Hs) refs"
    using same by (rule image_mset_cong)
  then show ?thesis using inv j by (simp add: comps_inv_def)
qed

lemma comps_inv_ref:
  assumes inv: "comps_inv refs calls (Some c) Hs Hc" and j: "comp_of Hs' j = Some c"
    and same: "\<And>i. i \<in># refs \<Longrightarrow> comp_of Hs' i = comp_of Hs i" and v: "cells Hc c = Some v"
  shows "comps_inv (add_mset j refs) calls (Some c) Hs'
           (Hc\<lparr>cells := (cells Hc)(c \<mapsto> v\<lparr>c_refs := c_refs v + 1\<rparr>)\<rparr>)"
proof -
  let ?v = "v\<lparr>c_refs := c_refs v + 1\<rparr>"
  let ?Hc = "Hc\<lparr>cells := (cells Hc)(c \<mapsto> ?v)\<rparr>"
  let ?n = "\<lambda>i. count (image_mset (comp_of Hs) refs) (Some i)"
  have "image_mset (comp_of Hs') refs = image_mset (comp_of Hs) refs"
    using same by (rule image_mset_cong)
  then have img: "image_mset (comp_of Hs') (add_mset j refs) =
      add_mset (Some c) (image_mset (comp_of Hs) refs)"
    using j by simp
  have refs: "c_error w = 0 \<and> c_refs w = ?n i + (if i = c then 1 else 0)"
    if "cells Hc i = Some w" for i w
    using inv that by (auto simp: comps_inv_def)
  have calls: "count calls i = (if \<exists>w. cells Hc i = Some w \<and> c_refs w = 0 then 1 else 0)" for i
    using inv unfolding comps_inv_def by blast
  have live: "Some i \<in># image_mset (comp_of Hs) refs \<Longrightarrow> cells Hc i \<noteq> None" for i
    using inv unfolding comps_inv_def by blast
  show ?thesis
    unfolding comps_inv_def img
  proof (intro conjI allI impI)
    show "heap_ok ?Hc" using inv v by (simp add: comps_inv_def)
  next
    fix i w
    assume "cells ?Hc i = Some w"
    then show "c_error w = 0"
      "c_refs w = count (add_mset (Some c) (image_mset (comp_of Hs) refs)) (Some i) +
         (if Some c = Some i then 1 else 0)"
      using refs [of i] refs [OF v] by (auto split: if_splits)
  next
    fix i
    assume "Some i \<in># add_mset (Some c) (image_mset (comp_of Hs) refs)"
    then show "cells ?Hc i \<noteq> None" using live [of i] by auto
  next
    fix i
    assume "Some c = Some i"
    then show "cells ?Hc i \<noteq> None" by simp
  next
    fix i
    have "c_refs v \<noteq> 0" using refs [OF v] by simp
    then show "count calls i = (if \<exists>w. cells ?Hc i = Some w \<and> c_refs w = 0 then 1 else 0)"
      using calls [of i] v by auto
  qed
qed

text \<open>The heap of completions after a submission took its reference.\<close>

definition ref_comp :: "nat option \<Rightarrow> completion heap \<Rightarrow> completion heap" where
  "ref_comp co Hc =
     (case co of
        None \<Rightarrow> Hc
      | Some c \<Rightarrow>
          (case cells Hc c of
             None \<Rightarrow> Hc
           | Some v \<Rightarrow> Hc\<lparr>cells := (cells Hc)(c \<mapsto> v\<lparr>c_refs := c_refs v + 1\<rparr>)\<rparr>))"

lemma cq_inv_ref_comp [simp]:
  "cq_inv qd q (ref_comp co Hc) sigs out infl \<longleftrightarrow> cq_inv qd q Hc sigs out infl"
  using cq_inv_upd [of Hc _ _ "v\<lparr>c_refs := c_refs v + 1\<rparr>" for v]
  by (auto simp: ref_comp_def split: option.splits)

lemma borrow_inv_ref_comp:
  "borrow_inv todo Hs Hc out \<Longrightarrow> borrow_inv todo Hs (ref_comp co Hc) out"
  using borrow_inv_upd [of Hc _ _ "v\<lparr>c_refs := c_refs v + 1\<rparr>" for v]
  by (auto simp: ref_comp_def split: option.splits)

lemma held_inv_ref_comp:
  "held_inv held Hc out \<Longrightarrow> held_inv held (ref_comp co Hc) out"
  using held_inv_upd [of Hc _ _ "v\<lparr>c_refs := c_refs v + 1\<rparr>" for v]
  by (auto simp: ref_comp_def split: option.splits)

lemma borrow_inv_new:
  assumes inv: "borrow_inv todo Hs Hc out" and j: "j \<notin># todo"
    and new: "\<And>a. sub_data sub = User a \<Longrightarrow>
      \<exists>c v a0 n0. sub_completion sub = Some c \<and> cells Hc c = Some v \<and>
        (c_user_data v, a0, n0) \<in> set out \<and> a0 \<le> a \<and> a + sub_len sub \<le> a0 + n0"
  shows "borrow_inv (add_mset j todo) (Hs\<lparr>cells := (cells Hs)(j \<mapsto> sub), fresh := n\<rparr>) Hc out"
  unfolding borrow_inv_def
proof (intro allI impI)
  fix i sb a
  assume "i \<in># add_mset j todo" "cells (Hs\<lparr>cells := (cells Hs)(j \<mapsto> sub), fresh := n\<rparr>) i = Some sb"
    "sub_data sb = User a"
  then show "\<exists>c v a0 n0. sub_completion sb = Some c \<and> cells Hc c = Some v \<and>
      (c_user_data v, a0, n0) \<in> set out \<and> a0 \<le> a \<and> a + sub_len sb \<le> a0 + n0"
    using new inv unfolding borrow_inv_def by (cases "i = j") auto
qed

text \<open>The state after a submission was created, and put in the queue of the pool.\<close>

definition submitted :: "submission \<Rightarrow> ('x, 'k) sys \<Rightarrow> ('x, 'k) sys" where
  "submitted sub s =
     (let j = fresh (subs s); p = push_unlocked (pool s) (Sub j)
      in s\<lparr>subs := (subs s)\<lparr>cells := (cells (subs s))(j \<mapsto> sub), fresh := Suc j\<rparr>,
           comps := ref_comp (sub_completion sub) (comps s), pool := p,
           threads := if need_wakeup p then cond_signal (threads s) else threads s\<rparr>)"

lemma pool_room:
  assumes "winv E G s"
  shows "p_queue_len (pool s) \<le> length (g_log G)"
proof -
  have "p_queue_len (pool s) = size (mset (queued (pool s)))" by (simp add: queued_def)
  also have "\<dots> \<le> size (busy_of s)" by (simp add: busy_of_def)
  also have "\<dots> \<le> length (g_log G)"
    using winvD(7) [OF assms] by (simp add: subs_inv_def del: mset_filter)
  finally show ?thesis .
qed

lemma winv_submit:
  assumes inv: "winv E G s"
    and sub: "sub_index sub = int k" "sub_error sub = 0" "\<not> sub_completed sub" "\<not> sub_zero sub"
      "sub_md sub = []" "sub_len sub = length data" "length data \<le> block_size (config s)"
      "data_at (mem s) (sub_data sub) data"
    and held: "sub_completion sub = None \<or> sub_completion sub = g_held G"
    and borrow: "\<And>a. sub_data sub = User a \<Longrightarrow>
      \<exists>c v a0 n0. sub_completion sub = Some c \<and> cells (comps s) c = Some v \<and>
        (c_user_data v, a0, n0) \<in> set (g_out G) \<and> a0 \<le> a \<and> a + sub_len sub \<le> a0 + n0"
    and room: "p_queue_len (pool s) < p_queue_size (pool s)" "length (g_log G) + 3 < 2 ^ 32"
  shows "winv E (G\<lparr>g_log := g_log G @ [(fresh (subs s), k, Some data)]\<rparr>) (submitted sub s)"
    (is "winv E ?G ?s")
proof -
  let ?j = "fresh (subs s)"
  let ?p = "push_unlocked (pool s) (Sub ?j)"
  let ?ts = "if need_wakeup ?p then cond_signal (threads s) else threads s"
  let ?H = "(subs s)\<lparr>cells := (cells (subs s))(?j \<mapsto> sub), fresh := Suc ?j\<rparr>"
  have ex: "t \<noteq> Exited" if "t \<in> set (threads s)" for t
    using winvD(2) [OF inv] that by (simp add: threads_ok_def)
  note pool = pool_inv_submit [OF winvD(1) [OF inv] room(1) ex refl refl, of ?j]
  have t: "tsum f ?ts = tsum f (threads s)" if "\<And>d. f (Woken d) = f (Wait d)"
    for f :: "'a thread \<Rightarrow> nat multiset"
    using that by (simp add: tsum_cond_signal)
  have h: "todo_of ?s = add_mset ?j (todo_of s)" "busy_of ?s = add_mset ?j (busy_of s)"
      "refs_of ?s = add_mset ?j (refs_of s)" "calls_of ?s = calls_of s" "sigs_of ?s = sigs_of s"
      "notify_of ?s = notify_of s"
    unfolding submitted_def holdings_defs Let_def
    by (simp_all add: t pool(2) notify_cond_signal)
  have ok: "heap_ok (subs s)" using winvD(7) [OF inv] by (simp add: subs_inv_def)
  have nbusy: "?j \<notin># busy_of s"
    using subs_inv_entry [OF winvD(7) [OF inv], of ?j] ok by auto
  then have nref: "?j \<notin># refs_of s" using mset_subset_eqD [OF refs_sub_busy] by blast
  then have ntodo: "?j \<notin># todo_of s" using mset_subset_eqD [OF todo_sub_refs] by blast
  have comp: "comp_of ?H ?j = sub_completion sub" by (simp add: comp_of_def)
  have same: "comp_of ?H i = comp_of (subs s) i" if "i \<in># refs_of s" for i
    using nref that by (auto simp: comp_of_def)
  have comps: "comps_inv (refs_of ?s) (calls_of ?s) (g_held G) ?H (ref_comp (sub_completion sub) (comps s))"
  proof (cases "sub_completion sub")
    case None
    then show ?thesis
      using comps_inv_noref [OF winvD(8) [OF inv] _ same, of ?j] comp h by (simp add: ref_comp_def)
  next
    case (Some c)
    then have c: "g_held G = Some c" using held by simp
    then obtain v where v: "cells (comps s) c = Some v"
      using winvD(8) [OF inv] by (auto simp: comps_inv_def)
    then show ?thesis
      using comps_inv_ref [OF winvD(8) [OF inv, unfolded c] _ same v, of ?j] comp h Some c
      by (simp add: ref_comp_def)
  qed
  have "threads_ok (crypto E) (digest_name (config s)) (g_hash G) ?ts"
    using winvD(2) [OF inv] by (auto simp: threads_ok_def dest!: set_cond_signal)
  moreover have "borrow_inv (add_mset ?j (todo_of s)) ?H (ref_comp (sub_completion sub) (comps s)) (g_out G)"
    using borrow_inv_ref_comp [OF borrow_inv_new [OF winvD(11) [OF inv] ntodo borrow]] by simp
  moreover have "subs_inv (block_size (config s)) (hash_of (g_hash G)) (mem s)
      (add_mset ?j (todo_of s)) (add_mset ?j (busy_of s)) ?H (g_log G @ [(?j, k, Some data)])"
    using sub by (intro subs_inv_add [OF winvD(7) [OF inv]]) (simp_all add: entry_ok_def)
  moreover have "held_inv (g_held G) (ref_comp (sub_completion sub) (comps s)) (g_out G)"
    using held_inv_ref_comp [OF winvD(14) [OF inv]] .
  ultimately show ?thesis
    using inv comps pool(1) room(2) unfolding winv_def h
    by (simp add: submitted_def Let_def)
qed

text \<open>A submission that only marks a position is completed from the start.\<close>

lemma fresh_not_held:
  assumes "winv E G s"
  shows "fresh (subs s) \<notin># busy_of s" "fresh (subs s) \<notin># refs_of s" "fresh (subs s) \<notin># todo_of s"
proof -
  have "heap_ok (subs s)" using winvD(7) [OF assms] by (simp add: subs_inv_def)
  then show b: "fresh (subs s) \<notin># busy_of s"
    using subs_inv_entry [OF winvD(7) [OF assms], of "fresh (subs s)"] by auto
  then show r: "fresh (subs s) \<notin># refs_of s" using mset_subset_eqD [OF refs_sub_busy] by blast
  then show "fresh (subs s) \<notin># todo_of s" using mset_subset_eqD [OF todo_sub_refs] by blast
qed

lemma winv_mark:
  assumes inv: "winv E G s" and room: "length (g_log G) + 3 < 2 ^ 32"
    and sub: "sub_index sub = int k" "sub_error sub = 0" "sub_completed sub" "sub_zero sub"
  shows "winv E (G\<lparr>g_log := g_log G @ [(fresh (subs s), k, None)]\<rparr>)
    (s\<lparr>subs := (subs s)\<lparr>cells := (cells (subs s))(fresh (subs s) \<mapsto> sub),
                         fresh := Suc (fresh (subs s))\<rparr>\<rparr>)" (is "winv E ?G ?s")
proof -
  let ?j = "fresh (subs s)"
  note n = fresh_not_held [OF inv]
  have h: "todo_of ?s = todo_of s" "busy_of ?s = busy_of s" "refs_of ?s = refs_of s"
      "calls_of ?s = calls_of s" "sigs_of ?s = sigs_of s" "notify_of ?s = notify_of s"
    by (auto simp: holdings_defs)
  have "image_mset (comp_of (subs ?s)) (refs_of s) = image_mset (comp_of (subs s)) (refs_of s)"
    using n(2) by (intro image_mset_cong) (auto simp: comp_of_def)
  then have "comps_inv (refs_of s) (calls_of s) (g_held G) (subs ?s) (comps s)"
    using winvD(8) [OF inv] by (simp add: comps_inv_def)
  moreover have "borrow_inv (todo_of s) (subs ?s) (comps s) (g_out G)"
    using winvD(11) [OF inv] n(3) by (auto simp: borrow_inv_def split: if_splits)
  moreover have "subs_inv (block_size (config s)) (hash_of (g_hash G)) (mem s) (todo_of s)
      (busy_of s) (subs ?s) (g_log G @ [(?j, k, None)])"
    using subs_inv_add [OF winvD(7) [OF inv], of "todo_of s" sub k None "busy_of s"] sub n(3)
    by (simp add: entry_ok_def)
  ultimately show ?thesis
    using inv room unfolding winv_def h by simp
qed

section \<open>Completions\<close>

lemma winv_completion_new:
  assumes inv: "winv E G s" and held: "g_held G = None" and room: "inflight s < queue_depth (config s)"
  shows "winv E (G\<lparr>g_held := Some (fresh (comps s)), g_out := (ud, a, n) # g_out G\<rparr>)
    (s\<lparr>inflight := inflight s + 1,
       comps := (comps s)\<lparr>cells := (cells (comps s))(fresh (comps s) \<mapsto>
           \<lparr>c_callback = Update_completed, c_user_data = ud, c_error = 0, c_refs = 1\<rparr>),
         fresh := Suc (fresh (comps s))\<rparr>\<rparr>)" (is "winv E ?G ?s")
proof -
  let ?c = "fresh (comps s)" and ?Hc = "comps ?s"
  have ok: "heap_ok (comps s)" using winvD(8) [OF inv] by (simp add: comps_inv_def)
  then have new: "cells (comps s) ?c = None" by simp
  have calls: "count (calls_of s) ?c = 0" and refs: "Some ?c \<notin># image_mset (comp_of (subs s)) (refs_of s)"
    using winvD(8) [OF inv] new by (auto simp: comps_inv_def)
  then have sigs: "?c \<notin># sigs_of s"
    using mset_subset_eqD [OF sigs_sub_calls] by (metis count_eq_zero_iff)
  have h: "todo_of ?s = todo_of s" "busy_of ?s = busy_of s" "refs_of ?s = refs_of s"
      "calls_of ?s = calls_of s" "sigs_of ?s = sigs_of s" "notify_of ?s = notify_of s"
    by (auto simp: holdings_defs)
  have c0: "count (image_mset (comp_of (subs s)) (refs_of s)) (Some ?c) = 0"
    using refs by (simp only: not_in_iff)
  have "comps_inv (refs_of s) (calls_of s) (Some ?c) (subs s) ?Hc"
    using winvD(8) [OF inv] held ok new calls c0 unfolding comps_inv_def
    by (intro conjI allI impI) (auto split: if_splits)
  moreover have "cq_inv (queue_depth (config s)) (cq s) ?Hc (sigs_of s) ((ud, a, n) # g_out G) (inflight s + 1)"
  proof -
    have U: "undelivered ?Hc (sigs_of s) = insert ?c (undelivered (comps s) (sigs_of s))"
      using sigs by (auto simp: undelivered_def)
    have "?c \<notin> undelivered (comps s) (sigs_of s)" using new by (simp add: undelivered_def)
    then have "mset_set (undelivered ?Hc (sigs_of s)) = add_mset ?c (mset_set (undelivered (comps s) (sigs_of s)))"
      unfolding U using finite_undelivered [OF ok] by simp
    moreover have "image_mset (user_data_of ?Hc) (mset_set (undelivered (comps s) (sigs_of s))) =
        image_mset (user_data_of (comps s)) (mset_set (undelivered (comps s) (sigs_of s)))"
      using finite_undelivered [OF ok] new
      by (intro image_mset_cong) (auto simp: user_data_of_def undelivered_def)
    ultimately show ?thesis
      using winvD(9) [OF inv] room by (auto simp: cq_inv_def user_data_of_def)
  qed
  moreover have "borrow_inv (todo_of s) (subs s) ?Hc ((ud, a, n) # g_out G)"
    unfolding borrow_inv_def
  proof (intro allI impI)
    fix j sub b
    assume "j \<in># todo_of s" "cells (subs s) j = Some sub" "sub_data sub = User b"
    then obtain c v a0 n0 where *: "sub_completion sub = Some c" "cells (comps s) c = Some v"
        "(c_user_data v, a0, n0) \<in> set (g_out G)" "a0 \<le> b" "b + sub_len sub \<le> a0 + n0"
      using winvD(11) [OF inv] unfolding borrow_inv_def by blast
    moreover have "c \<noteq> ?c" using *(2) new by auto
    ultimately show "\<exists>c v a0 n0. sub_completion sub = Some c \<and> cells ?Hc c = Some v \<and>
        (c_user_data v, a0, n0) \<in> set ((ud, a, n) # g_out G) \<and> a0 \<le> b \<and> b + sub_len sub \<le> a0 + n0"
      by (intro exI [of _ c] exI [of _ v] exI [of _ a0] exI [of _ n0]) simp
  qed
  moreover have "held_inv (Some ?c) ?Hc ((ud, a, n) # g_out G)" by (simp add: held_inv_def)
  ultimately show ?thesis
    using inv unfolding winv_def h by simp
qed

text \<open>The calling thread drops the reference it holds.\<close>

lemma comps_inv_release:
  assumes inv: "comps_inv refs calls (Some c) Hs Hc" and v: "cells Hc c = Some v" and more: "c_refs v \<noteq> 1"
  shows "comps_inv refs calls None Hs (Hc\<lparr>cells := (cells Hc)(c \<mapsto> v\<lparr>c_refs := c_refs v - 1\<rparr>)\<rparr>)"
proof -
  let ?Hc = "Hc\<lparr>cells := (cells Hc)(c \<mapsto> v\<lparr>c_refs := c_refs v - 1\<rparr>)\<rparr>"
  let ?n = "\<lambda>i. count (image_mset (comp_of Hs) refs) (Some i)"
  have refs: "c_error w = 0 \<and> c_refs w = ?n i + (if i = c then 1 else 0)"
    if "cells Hc i = Some w" for i w
    using inv that by (auto simp: comps_inv_def)
  have calls: "count calls i = (if \<exists>w. cells Hc i = Some w \<and> c_refs w = 0 then 1 else 0)" for i
    using inv unfolding comps_inv_def by blast
  have live: "Some i \<in># image_mset (comp_of Hs) refs \<Longrightarrow> cells Hc i \<noteq> None" for i
    using inv unfolding comps_inv_def by blast
  show ?thesis
    unfolding comps_inv_def
  proof (intro conjI allI impI)
    show "heap_ok ?Hc" using inv v by (simp add: comps_inv_def)
  next
    fix i w
    assume "cells ?Hc i = Some w"
    then show "c_error w = 0" "c_refs w = ?n i + (if None = Some i then 1 else 0)"
      using refs [of i] refs [OF v] by (auto split: if_splits)
  next
    fix i
    assume "Some i \<in># image_mset (comp_of Hs) refs"
    then show "cells ?Hc i \<noteq> None" using live [of i] by auto
  next
    fix i
    show "count calls i = (if \<exists>w. cells ?Hc i = Some w \<and> c_refs w = 0 then 1 else 0)"
      using calls [of i] v refs [OF v] more by auto
  qed simp
qed

lemma comps_inv_release_last:
  assumes inv: "comps_inv refs calls (Some c) Hs Hc" and v: "cells Hc c = Some v" and last: "c_refs v = 1"
  shows "comps_inv refs calls None Hs (Hc\<lparr>cells := (cells Hc)(c := None)\<rparr>)"
    and "Some c \<notin># image_mset (comp_of Hs) refs" and "c \<notin># calls"
proof -
  have zero: "count (image_mset (comp_of Hs) refs) (Some c) = 0"
    and calls: "\<And>i. count calls i = (if \<exists>w. cells Hc i = Some w \<and> c_refs w = 0 then 1 else 0)"
    using inv v last by (auto simp: comps_inv_def)
  then show nref: "Some c \<notin># image_mset (comp_of Hs) refs" by (simp only: not_in_iff)
  show "c \<notin># calls" using calls [of c] v last by (simp add: not_in_iff)
  have "count calls i =
      (if \<exists>w. cells (Hc\<lparr>cells := (cells Hc)(c := None)\<rparr>) i = Some w \<and> c_refs w = 0 then 1 else 0)" for i
    using calls [of i] v last by auto
  moreover have "cells (Hc\<lparr>cells := (cells Hc)(c := None)\<rparr>) i \<noteq> None"
    if "Some i \<in># image_mset (comp_of Hs) refs" for i
  proof -
    have "i \<noteq> c" using nref that by blast
    then show ?thesis using inv that by (simp add: comps_inv_def)
  qed
  ultimately show "comps_inv refs calls None Hs (Hc\<lparr>cells := (cells Hc)(c := None)\<rparr>)"
    using inv unfolding comps_inv_def by (intro conjI allI impI) (simp_all split: if_splits)
qed

text \<open>
  What dropping the last reference leaves alone; dropping any reference of the calling thread
  also leaves it alone.
\<close>

lemma winv_unref_more:
  assumes inv: "winv E G s" and held: "g_held G = Some c" and v: "cells (comps s) c = Some v"
    and more: "c_refs v \<noteq> 1"
  shows "winv E (G\<lparr>g_held := None\<rparr>)
    (s\<lparr>comps := (comps s)\<lparr>cells := (cells (comps s))(c \<mapsto> v\<lparr>c_refs := c_refs v - 1\<rparr>)\<rparr>\<rparr>)"
    (is "winv E ?G ?s")
proof -
  let ?v = "v\<lparr>c_refs := c_refs v - 1\<rparr>"
  have h: "todo_of ?s = todo_of s" "busy_of ?s = busy_of s" "refs_of ?s = refs_of s"
      "calls_of ?s = calls_of s" "sigs_of ?s = sigs_of s" "notify_of ?s = notify_of s"
    by (auto simp: holdings_defs)
  have "comps_inv (refs_of s) (calls_of s) None (subs s) (comps ?s)"
    using comps_inv_release [OF winvD(8) [OF inv, unfolded held] v more] by simp
  moreover have "borrow_inv (todo_of s) (subs s) (comps ?s) (g_out G)"
    using borrow_inv_upd [OF v _ winvD(11) [OF inv], of ?v] by simp
  moreover have "cq_inv (queue_depth (config s)) (cq s) (comps ?s) (sigs_of s) (g_out G) (inflight s)"
    using winvD(9) [OF inv] cq_inv_upd [OF v, of ?v] by simp
  ultimately show ?thesis
    using inv unfolding winv_def h by (simp add: held_inv_def)
qed

lemma winv_unref_last:
  assumes inv: "winv E G s" and held: "g_held G = Some c" and v: "cells (comps s) c = Some v"
    and last: "c_refs v = 1"
  shows "\<exists>q k. update_completed E (c_user_data v) (c_error v)
        (s\<lparr>comps := (comps s)\<lparr>cells := (cells (comps s))(c \<mapsto> v\<lparr>c_refs := 0\<rparr>)\<rparr>\<rparr>) =
      Some (s\<lparr>comps := (comps s)\<lparr>cells := (cells (comps s))(c \<mapsto> v\<lparr>c_refs := 0\<rparr>)\<rparr>, cq := q, kern := k\<rparr>) \<and>
    cq_event q = cq_event (cq s) \<and> cq_array_mem q = cq_array_mem (cq s) \<and>
    winv E (G\<lparr>g_held := None\<rparr>)
      (s\<lparr>cq := q, kern := k, comps := (comps s)\<lparr>cells := (cells (comps s))(c := None)\<rparr>\<rparr>)"
proof -
  let ?b = "cq_count (cq s) = 0"
  let ?Hc = "(comps s)\<lparr>cells := (cells (comps s))(c := None)\<rparr>"
  let ?s1 = "s\<lparr>comps := (comps s)\<lparr>cells := (cells (comps s))(c \<mapsto> v\<lparr>c_refs := 0\<rparr>)\<rparr>\<rparr>"
  let ?q = "(cq s)\<lparr>cq_array := (cq_array (cq s))[cq_count (cq s) :=
      \<lparr>bc_user_data = c_user_data v, bc_error = c_error v\<rparr>], cq_count := u32 (cq_count (cq s) + 1)\<rparr>"
  note rel = comps_inv_release_last [OF winvD(8) [OF inv, unfolded held] v last]
  have err: "c_error v = 0" using winvD(8) [OF inv] v by (simp add: comps_inv_def)
  have ok: "heap_ok (comps s)" using winvD(8) [OF inv] by (simp add: comps_inv_def)
  have nsig: "c \<notin># sigs_of s" using rel(3) mset_subset_eqD [OF sigs_sub_calls] by blast
  note q = cq_inv_enqueue [OF winvD(9) [OF inv] ok v err nsig]
  have len: "length (cq_array (cq s)) = queue_depth (config s)"
    using winvD(9) [OF inv] by (simp add: cq_inv_def)
  have enq: "update_completed_enqueue (c_user_data v) (c_error v) ?s1 = Some (?b, ?s1\<lparr>cq := ?q\<rparr>)"
    using q(1) len by (simp add: update_completed_enqueue_def assert_that_def Let_def)
  have "event_inv (g_event G) (queue_depth (config s)) ?q (?b \<or> notify_of s) (g_waited G) (kern s)"
    using winvD(10) [OF inv] by (auto simp: event_inv_def)
  moreover have "queue_depth (config s) > 0" using q(1) by simp
  ultimately obtain e k where k: "cq_event ?q = Some e" "event_signal (host E) e (kern s) = Some (0, k)"
      "event_inv (g_event G) (queue_depth (config s)) ?q (notify_of s) (g_waited G) k"
    using event_inv_signal [OF _ _ winvD(13) [OF inv]] by blast
  let ?k = "if ?b then k else kern s"
  have ev: "event_inv (g_event G) (queue_depth (config s)) ?q (notify_of s) (g_waited G) ?k"
    using k(3) winvD(10) [OF inv] by (auto simp: event_inv_def)
  have sig: "update_completed_signal E ?b (?s1\<lparr>cq := ?q\<rparr>) = Some (?s1\<lparr>cq := ?q, kern := ?k\<rparr>)"
    using k(1,2) by (auto simp: update_completed_signal_def)
  let ?s = "s\<lparr>cq := ?q, kern := ?k, comps := ?Hc\<rparr>"
  have h: "todo_of ?s = todo_of s" "busy_of ?s = busy_of s" "refs_of ?s = refs_of s"
      "calls_of ?s = calls_of s" "sigs_of ?s = sigs_of s" "notify_of ?s = notify_of s"
    by (auto simp: holdings_defs)
  have "borrow_inv (todo_of s) (subs s) ?Hc (g_out G)"
    using borrow_inv_free [OF winvD(11) [OF inv] todo_sub_refs rel(2)] .
  then have "winv E (G\<lparr>g_held := None\<rparr>) ?s"
    using inv rel(1) cq_inv_free [OF q(2)] ev unfolding winv_def h by (simp add: held_inv_def)
  moreover have "update_completed E (c_user_data v) (c_error v) ?s1 = Some (?s1\<lparr>cq := ?q, kern := ?k\<rparr>)"
    using enq sig by (simp add: update_completed_def)
  ultimately show ?thesis
    by (intro exI [of _ ?q] exI [of _ ?k]) simp
qed

lemma completion_unref_ok:
  assumes inv: "winv E G s" and held: "g_held G = Some c"
  shows "ensures (completion_unref E c s)
    (\<lambda>s'. winv E (G\<lparr>g_held := None\<rparr>) s' \<and> caller_eq s s')"
proof -
  obtain v where v: "cells (comps s) c = Some v" and pos: "0 < c_refs v"
    using winvD(8) [OF inv] held by (auto simp: comps_inv_def)
  have "sub32 (c_refs v) 1 = c_refs v - 1"
    using comp_refs_bound [OF inv v] pos by simp
  then have dec: "completion_dec c s = Some (c_refs v = 1,
      s\<lparr>comps := (comps s)\<lparr>cells := (cells (comps s))(c \<mapsto> v\<lparr>c_refs := c_refs v - 1\<rparr>)\<rparr>\<rparr>)"
    using v pos by (auto simp: completion_dec_def get_comp_def put_comp_def heap_put_def)
  show ?thesis
  proof (cases "c_refs v = 1")
    case True
    with winv_unref_last [OF inv held v True] dec v show ?thesis
      by (auto simp: completion_unref_def completion_free_def caller_eq_def get_comp_def
          split: completion_callback.splits)
  next
    case False
    with winv_unref_more [OF inv held v False] dec show ?thesis
      by (simp add: completion_unref_def caller_eq_def)
  qed
qed

section \<open>Receiving completions\<close>

text \<open>The outstanding updates after the application received some completions.\<close>

definition received :: "blkhash_completion list \<Rightarrow> (nat \<times> nat \<times> nat) list \<Rightarrow> (nat \<times> nat \<times> nat) list" where
  "received D out = filter (\<lambda>e. fst e \<notin> bc_user_data ` set D) out"

lemma mset_received:
  assumes eq: "mset (map bc_user_data D) + X = mset (map fst out)" and dist: "distinct (map fst out)"
  shows "mset (map fst (received D out)) = X"
    and "\<And>u. u \<in># X \<Longrightarrow> u \<notin> bc_user_data ` set D"
proof -
  let ?P = "\<lambda>u. u \<notin> bc_user_data ` set D"
  have one: "count (mset (map bc_user_data D)) u + count X u \<le> 1" for u
  proof -
    have "count (mset (map fst out)) u \<le> 1"
      using dist distinct_count_atmost_1 [of "map fst out"] by simp
    then show ?thesis unfolding eq [symmetric] by simp
  qed
  show disj: "?P u" if "u \<in># X" for u
  proof -
    have "count X u > 0" using that by simp
    then have "count (mset (map bc_user_data D)) u = 0" using one [of u] by linarith
    then have "u \<notin># mset (map bc_user_data D)" by (simp only: not_in_iff)
    then show ?thesis by simp
  qed
  have "mset (map fst (received D out)) = filter_mset ?P (mset (map fst out))"
    by (simp add: received_def filter_mset_image_mset comp_def)
  also have "\<dots> = filter_mset ?P (mset (map bc_user_data D)) + filter_mset ?P X"
    unfolding eq [symmetric] by simp
  also have "filter_mset ?P (mset (map bc_user_data D)) = filter_mset (\<lambda>_. False) (mset (map bc_user_data D))"
    by (intro filter_mset_cong) auto
  also have "filter_mset ?P X = filter_mset (\<lambda>_. True) X" using disj by (intro filter_mset_cong) auto
  finally show "mset (map fst (received D out)) = X" by simp
qed

text \<open>A completion that a submission still refers to was not delivered.\<close>

lemma borrowed_undelivered:
  assumes inv: "winv E G s" and j: "j \<in># refs_of s" "comp_of (subs s) j = Some c"
  shows "c \<in> undelivered (comps s) (sigs_of s)"
proof -
  have mem: "Some c \<in># image_mset (comp_of (subs s)) (refs_of s)" using j by (metis image_eqI set_image_mset)
  then have live: "cells (comps s) c \<noteq> None" using winvD(8) [OF inv] unfolding comps_inv_def by blast
  moreover have "c_refs v \<noteq> 0" if "cells (comps s) c = Some v" for v
    using winvD(8) [OF inv] that mem by (auto simp: comps_inv_def)
  then have "count (calls_of s) c = 0" using winvD(8) [OF inv] by (auto simp: comps_inv_def)
  then have "c \<notin># sigs_of s" using mset_subset_eqD [OF sigs_sub_calls] by (metis count_eq_zero_iff)
  ultimately show ?thesis by (simp add: undelivered_def)
qed

lemma winv_receive:
  assumes inv: "winv E G s" and held: "g_held G = None" and dist: "distinct (map fst (g_out G))"
    and n: "n \<le> cq_count (cq s)" and D: "D = take n (cq_array (cq s))"
    and q: "cq_count q = cq_count (cq s) - n" "length (cq_array q) = queue_depth (config s)"
      "take (cq_count q) (cq_array q) = drop n (take (cq_count (cq s)) (cq_array (cq s)))"
    and ev: "event_inv (g_event G) (queue_depth (config s)) q (notify_of s) waited k"
  shows "winv E (G\<lparr>g_out := received D (g_out G), g_waited := waited\<rparr>)
           (s\<lparr>cq := q, inflight := inflight s - n, kern := k\<rparr>)" (is "winv E ?G ?s")
    and "n \<le> inflight s" and "length D = n"
    and "mset (map bc_user_data D) \<subseteq># mset (map fst (g_out G))" and "\<forall>e\<in>set D. bc_error e = 0"
proof -
  let ?X = "mset (map bc_user_data (drop n (take (cq_count (cq s)) (cq_array (cq s))))) +
    image_mset (user_data_of (comps s)) (mset_set (undelivered (comps s) (sigs_of s)))"
  have cq: "length (cq_array (cq s)) = queue_depth (config s)" "inflight s = length (g_out G)"
      "cq_count (cq s) \<le> queue_depth (config s)"
      "mset (map bc_user_data (take (cq_count (cq s)) (cq_array (cq s)))) +
        image_mset (user_data_of (comps s)) (mset_set (undelivered (comps s) (sigs_of s))) =
        mset (map fst (g_out G))"
      "\<forall>e\<in>set (take (cq_count (cq s)) (cq_array (cq s))). bc_error e = 0"
    using winvD(9) [OF inv] by (auto simp: cq_inv_def)
  have split: "take (cq_count (cq s)) (cq_array (cq s)) = D @ drop n (take (cq_count (cq s)) (cq_array (cq s)))"
    using append_take_drop_id [of n "take (cq_count (cq s)) (cq_array (cq s))"] n D by (simp add: min_def)
  then have eq: "mset (map bc_user_data D) + ?X = mset (map fst (g_out G))"
    using cq(4) by (metis map_append mset_append add.assoc)
  note rec = mset_received [OF eq dist]
  show len: "length D = n" using n cq D by simp
  have out: "length (received D (g_out G)) = length (g_out G) - n" and "n \<le> length (g_out G)"
    using arg_cong [OF eq, of size] arg_cong [OF rec(1), of size] len by simp_all
  then show "n \<le> inflight s" using cq by simp
  show "mset (map bc_user_data D) \<subseteq># mset (map fst (g_out G))"
    unfolding eq [symmetric] by (rule mset_subset_eq_add_left)
  show "\<forall>e\<in>set D. bc_error e = 0" using cq(5) split by (metis Un_iff set_append)
  have h: "todo_of ?s = todo_of s" "busy_of ?s = busy_of s" "refs_of ?s = refs_of s"
      "calls_of ?s = calls_of s" "sigs_of ?s = sigs_of s" "notify_of ?s = notify_of s"
    by (auto simp: holdings_defs)
  have "\<forall>e\<in>set (take (cq_count q) (cq_array q)). bc_error e = 0"
    using cq(5) split q(3) by (metis Un_iff set_append)
  then have "cq_inv (queue_depth (config s)) q (comps s) (sigs_of s) (received D (g_out G)) (inflight s - n)"
    using winvD(9) [OF inv] q rec(1) out cq by (auto simp: cq_inv_def)
  moreover have "borrow_inv (todo_of s) (subs s) (comps s) (received D (g_out G))"
    unfolding borrow_inv_def
  proof (intro allI impI)
    fix j sub b
    assume j: "j \<in># todo_of s" "cells (subs s) j = Some sub" "sub_data sub = User b"
    then obtain c v a0 n0 where *: "sub_completion sub = Some c" "cells (comps s) c = Some v"
        "(c_user_data v, a0, n0) \<in> set (g_out G)" "a0 \<le> b" "b + sub_len sub \<le> a0 + n0"
      using winvD(11) [OF inv] unfolding borrow_inv_def by blast
    have "c \<in> undelivered (comps s) (sigs_of s)"
      using borrowed_undelivered [OF inv mset_subset_eqD [OF todo_sub_refs j(1)]] j * by (simp add: comp_of_def)
    moreover have "finite (undelivered (comps s) (sigs_of s))"
      using finite_undelivered winvD(8) [OF inv] by (auto simp: comps_inv_def)
    ultimately have "c \<in># mset_set (undelivered (comps s) (sigs_of s))" by simp
    then have "user_data_of (comps s) c \<in># ?X" by simp
    then have "c_user_data v \<notin> bc_user_data ` set D"
      using rec(2) [of "c_user_data v"] *(2) by (simp add: user_data_of_def)
    then have "(c_user_data v, a0, n0) \<in> set (received D (g_out G))" using * by (simp add: received_def)
    with * show "\<exists>c v a0 n0. sub_completion sub = Some c \<and> cells (comps s) c = Some v \<and>
        (c_user_data v, a0, n0) \<in> set (received D (g_out G)) \<and> a0 \<le> b \<and> b + sub_len sub \<le> a0 + n0"
      by blast
  qed
  ultimately show "winv E ?G ?s"
    using inv ev held unfolding winv_def h by (simp add: held_inv_def)
qed

lemma cq_take_ok:
  assumes "cq_count q \<le> length (cq_array q)" and "length (cq_array q) < 2 ^ 32"
  shows "\<exists>q'. cq_take cnt q = (min cnt (cq_count q), take (min cnt (cq_count q)) (cq_array q), q') \<and>
    cq_count q' = cq_count q - min cnt (cq_count q) \<and> length (cq_array q') = length (cq_array q) \<and>
    take (cq_count q') (cq_array q') = drop (min cnt (cq_count q)) (take (cq_count q) (cq_array q)) \<and>
    cq_event q' = cq_event q \<and> cq_array_mem q' = cq_array_mem q"
proof -
  let ?n = "min cnt (cq_count q)"
  have "sub32 (cq_count q) ?n = cq_count q - ?n" using assms by (intro sub32_id) auto
  moreover have "drop ?n (take (cq_count q) (cq_array q)) = take (cq_count q - ?n) (drop ?n (cq_array q))"
    by (simp add: drop_take)
  ultimately show ?thesis using assms by (simp add: cq_take_def Let_def)
qed

lemma event_inv_received:
  assumes inv: "event_inv EM qd q notify waited k" and qd: "cq_count q \<le> qd"
    and K: "qd > 0 \<Longrightarrow> eventfd_ok K EM"
    and q': "cq_count q' = cq_count q - min cnt (cq_count q)" "cq_event q' = cq_event q"
  shows "\<exists>k'. (if min cnt (cq_count q) > 0 \<and> cq_count q' > 0
      then \<exists>e. cq_event q' = Some e \<and> event_signal K e k = Some (0, k') else k' = k) \<and>
    event_inv EM qd q' notify (cnt = 0 \<and> waited) k'"
proof (cases "min cnt (cq_count q) > 0 \<and> cq_count q' > 0")
  case True
  then have pos: "qd > 0" using qd by simp
  have "event_inv EM qd q' True (cnt = 0 \<and> waited) k"
    using inv q'(2) by (auto simp: event_inv_def)
  from event_inv_signal [OF this pos K] True show ?thesis by fastforce
next
  case False
  then show ?thesis
    using inv q' by (intro exI [of _ k]) (auto simp: event_inv_def)
qed

lemma take_completions_ok:
  assumes inv: "winv E G s" and held: "g_held G = None" and dist: "distinct (map fst (g_out G))"
  shows "ensures (take_completions E cnt s)
    (\<lambda>(r, D, s'). r = int (length D) \<and> length D = min cnt (cq_count (cq s)) \<and>
       mset (map bc_user_data D) \<subseteq># mset (map fst (g_out G)) \<and> (\<forall>e\<in>set D. bc_error e = 0) \<and>
       winv E (G\<lparr>g_out := received D (g_out G), g_waited := (cnt = 0 \<and> g_waited G)\<rparr>) s' \<and>
       caller_eq (s\<lparr>inflight := inflight s'\<rparr>) s')"
proof -
  let ?n = "min cnt (cq_count (cq s))"
  have cq: "length (cq_array (cq s)) = queue_depth (config s)" "cq_count (cq s) \<le> queue_depth (config s)"
      "queue_depth (config s) < 2 ^ 32" "inflight s \<le> queue_depth (config s)"
    using winvD(9) [OF inv] by (auto simp: cq_inv_def)
  obtain q where q: "cq_take cnt (cq s) = (?n, take ?n (cq_array (cq s)), q)"
      "cq_count q = cq_count (cq s) - ?n" "length (cq_array q) = queue_depth (config s)"
      "take (cq_count q) (cq_array q) = drop ?n (take (cq_count (cq s)) (cq_array (cq s)))"
      "cq_event q = cq_event (cq s)" "cq_array_mem q = cq_array_mem (cq s)"
    using cq_take_ok [of "cq s" cnt] cq by auto
  obtain k where k: "if ?n > 0 \<and> cq_count q > 0
        then \<exists>e. cq_event q = Some e \<and> event_signal (host E) e (kern s) = Some (0, k) else k = kern s"
      "event_inv (g_event G) (queue_depth (config s)) q (notify_of s) (cnt = 0 \<and> g_waited G) k"
    using event_inv_received [OF winvD(10) [OF inv] cq(2) winvD(13) [OF inv] q(2,5)] by blast
  note rec = winv_receive [OF inv held dist _ refl q(2,3,4) k(2)]
  have "sub32 (inflight s) ?n = inflight s - ?n" using rec(2) cq by simp
  then have "take_completions E cnt s =
      Some (int ?n, take ?n (cq_array (cq s)), s\<lparr>cq := q, inflight := inflight s - ?n, kern := k\<rparr>)"
    using q(1) rec(2) k(1) by (auto simp: take_completions_def assert_that_def split: if_splits)
  then show ?thesis
    using rec(1,3,4,5) q(5,6) by (simp add: caller_eq_def)
qed

lemma blkhash_aio_completions_ok:
  assumes inv: "winv E G s" and held: "g_held G = None" and dist: "distinct (map fst (g_out G))"
  shows "ensures (blkhash_aio_completions E cnt s)
    (\<lambda>(r, D, s'). r = int (length D) \<and> length D \<le> cnt \<and>
       mset (map bc_user_data D) \<subseteq># mset (map fst (g_out G)) \<and> (\<forall>e\<in>set D. bc_error e = 0) \<and>
       winv E (G\<lparr>g_out := received D (g_out G), g_waited := (cnt = 0 \<and> g_waited G)\<rparr>) s' \<and>
       caller_eq (s\<lparr>inflight := inflight s'\<rparr>) s')"
  unfolding blkhash_aio_completions_def ensures_bind
proof (rule ensures_mono [OF yield_ok [OF inv]])
  fix s1
  assume "step_ok E G s s1"
  then have inv1: "winv E G s1" and eq: "caller_eq s s1" by (auto simp: step_ok_def)
  show "ensures (if error s1 \<noteq> 0 then Some (- error s1, [], s1) else take_completions E cnt s1)
    (\<lambda>(r, D, s'). r = int (length D) \<and> length D \<le> cnt \<and>
       mset (map bc_user_data D) \<subseteq># mset (map fst (g_out G)) \<and> (\<forall>e\<in>set D. bc_error e = 0) \<and>
       winv E (G\<lparr>g_out := received D (g_out G), g_waited := (cnt = 0 \<and> g_waited G)\<rparr>) s' \<and>
       caller_eq (s\<lparr>inflight := inflight s'\<rparr>) s')"
    using take_completions_ok [OF inv1 held dist, of cnt] winvD(5) [OF inv1] eq
    by (auto simp: caller_eq_def elim!: ensures_mono)
qed

section \<open>The application\<close>

text \<open>Memory that no outstanding update covers may change.\<close>

lemma winv_app_store:
  assumes inv: "winv E G s"
    and keep: "\<And>u a n i. (u, a, n) \<in> set (g_out G) \<Longrightarrow> a \<le> i \<Longrightarrow> i < a + n \<Longrightarrow> m i = mem s i"
  shows "winv E G (s\<lparr>mem := m\<rparr>)"
proof -
  have h: "todo_of (s\<lparr>mem := m\<rparr>) = todo_of s" "busy_of (s\<lparr>mem := m\<rparr>) = busy_of s"
      "refs_of (s\<lparr>mem := m\<rparr>) = refs_of s" "calls_of (s\<lparr>mem := m\<rparr>) = calls_of s"
      "sigs_of (s\<lparr>mem := m\<rparr>) = sigs_of s" "notify_of (s\<lparr>mem := m\<rparr>) = notify_of s"
    by (auto simp: holdings_defs)
  have "entry_ok bs hash m (j \<in># todo_of s) sub k b"
    if old: "entry_ok bs hash (mem s) (j \<in># todo_of s) sub k b" and sub: "cells (subs s) j = Some sub"
    for bs hash j sub k b
  proof (cases "j \<in># todo_of s \<and> (\<exists>a. sub_data sub = User a)")
    case True
    then obtain a where a: "j \<in># todo_of s" "sub_data sub = User a" by blast
    then obtain u a0 n0 where "(u, a0, n0) \<in> set (g_out G)" "a0 \<le> a" "a + sub_len sub \<le> a0 + n0"
      using winvD(11) [OF inv] sub unfolding borrow_inv_def by blast
    then have "map m [a..<a + sub_len sub] = map (mem s) [a..<a + sub_len sub]"
      using keep [of u a0 n0] by simp
    then show ?thesis
      using old a by (auto simp: entry_ok_def data_at_def simp del: map_eq_conv split: option.splits)
  next
    case False
    then show ?thesis
      using old by (auto simp: entry_ok_def data_at_def split: option.splits ptr.splits)
  qed
  then have "subs_inv (block_size (config s)) (hash_of (g_hash G)) m (todo_of s) (busy_of s) (subs s) (g_log G)"
    using winvD(7) [OF inv] unfolding subs_inv_def by blast
  then show ?thesis using inv unfolding winv_def h by simp
qed

text \<open>The application reads the completion descriptor.\<close>

lemma winv_read_fd:
  assumes inv: "winv E G s" and qd: "queue_depth (config s) > 0" and n: "8 \<le> n"
  shows "\<exists>e r k. cq_event (cq s) = Some e \<and> read_retry (host E) (read_fd e) n (kern s) = Some (r, k) \<and>
    (if event_ready (g_event G) e (kern s) then \<exists>data. r = Inr data \<and> length data = 8 else r = Inl EAGAIN) \<and>
    event_opened (g_event G) e k \<and> \<not> event_ready (g_event G) e k \<and> winv E (G\<lparr>g_waited := True\<rparr>) (s\<lparr>kern := k\<rparr>)"
proof -
  obtain e where e: "cq_event (cq s) = Some e" "event_opened (g_event G) e (kern s)"
    using winvD(10) [OF inv] qd by (auto simp: event_inv_def)
  then have "ev_open (g_event G) (kern s) (read_fd e)" unfolding event_opened_def by blast
  from read_retry_returns [OF winvD(13) [OF inv qd] this n]
  obtain r k where k: "read_retry (host E) (read_fd e) n (kern s) = Some (r, k)"
      "event_opened (g_event G) e k" "\<not> event_ready (g_event G) e k"
      "if event_ready (g_event G) e (kern s) then \<exists>data. r = Inr data \<and> length data = 8 else r = Inl EAGAIN"
    using e(2) by (auto simp: event_opened_def event_ready_def elim!: ensuresE)
  have "event_inv (g_event G) (queue_depth (config s)) (cq s) (notify_of s) True k"
    using e k by (simp add: event_inv_def)
  then have "winv E (G\<lparr>g_waited := True\<rparr>) (s\<lparr>kern := k\<rparr>)"
    using inv by (simp add: winv_def holdings_defs)
  with e k show ?thesis by blast
qed

end
