(* ===== verification/Reference.thy ===== *)
theory Reference
  imports Prelude
begin

text \<open>
  What a block hash is: \<open>blkhash_spec\<close>, the digest of the digests of the blocks followed by the
  length of the message; and the reference implementation of the repository,
  \<^verbatim>\<open>test/blkhash.py\<close>, which computes it.
\<close>

section \<open>Blocks of a message\<close>

definition blk :: "nat \<Rightarrow> bytes \<Rightarrow> nat \<Rightarrow> bytes" where
  "blk bs m i = take bs (drop (i * bs) m)"

definition blocks :: "nat \<Rightarrow> bytes \<Rightarrow> bytes list" where
  "blocks bs m = map (blk bs m) [0..<(length m + bs - 1) div bs]"

definition blkhash_spec :: "(bytes \<Rightarrow> bytes) \<Rightarrow> nat \<Rightarrow> bytes \<Rightarrow> bytes" where
  "blkhash_spec hash bs m =
     hash (concat (map hash (blocks bs m)) @ le_bytes (of_nat (length m)))"

text \<open>The digests of the first \<open>h\<close> blocks.\<close>

definition block_digests :: "(bytes \<Rightarrow> bytes) \<Rightarrow> (nat \<Rightarrow> bytes) \<Rightarrow> nat \<Rightarrow> bytes" where
  "block_digests hash B h = concat (map (\<lambda>i. hash (B i)) [0..<h])"

lemma block_digests_Suc:
  "block_digests hash B (Suc h) = block_digests hash B h @ hash (B h)"
  by (simp add: block_digests_def)

lemma block_digests_cong:
  "(\<And>i. i < h \<Longrightarrow> B' i = B i) \<Longrightarrow> block_digests hash B' h = block_digests hash B h"
  by (auto simp: block_digests_def intro!: arg_cong [where f = concat])

lemma blk_append: "i * bs + bs \<le> length m \<Longrightarrow> blk bs (m @ d) i = blk bs m i"
  by (simp add: blk_def)

lemma blk_consumed:
  assumes "i < length m div bs"
  shows "blk bs (m @ d) i = blk bs m i"
proof -
  have "Suc i * bs \<le> length m div bs * bs" using assms by (intro mult_le_mono1) simp
  also have "\<dots> \<le> length m" by simp
  finally show ?thesis by (intro blk_append) simp
qed

lemma blocks_done:
  assumes "n * bs + k = length m" and "k < bs"
  shows "length m div bs = n" and "length (drop (n * bs) m) = k"
  using assms by (auto simp flip: assms(1) simp: div_nat_eqI)

text \<open>The number of blocks, with the last one partial or not.\<close>

lemma blocks_count:
  assumes "0 < bs"
  shows "(length m + bs - 1) div bs =
    (if drop (length m div bs * bs) m = [] then length m div bs else Suc (length m div bs))"
proof -
  define n k where "n = length m div bs" and "k = length m mod bs"
  have m: "length m = n * bs + k" and k: "k < bs" using assms by (simp_all add: n_def k_def)
  have "drop (n * bs) m = [] \<longleftrightarrow> k = 0" using m by auto
  moreover have "(length m + bs - 1) div bs = n" if "k = 0"
    using that m assms by (intro div_nat_eqI) (auto simp: mult.commute)
  moreover have "(length m + bs - 1) div bs = Suc n" if "k \<noteq> 0"
    using that m k by (intro div_nat_eqI) (auto simp: mult.commute)
  ultimately show ?thesis by (simp add: n_def)
qed

lemma blkhash_spec_digests:
  "blkhash_spec hash bs m =
     hash (block_digests hash (blk bs m) ((length m + bs - 1) div bs) @ le_bytes (of_nat (length m)))"
  by (simp add: blkhash_spec_def blocks_def block_digests_def comp_def)

section \<open>The reference implementation\<close>

text \<open>
  \<^verbatim>\<open>class Blkhash\<close>. \<open>hash\<close> stands for \<^verbatim>\<open>hashlib.new(digest_name, data).digest()\<close>; \<open>py_outer_hash\<close> holds
  what the outer hash object was fed. A block size is a positive number.
\<close>

record py_blkhash =
  py_block_size :: nat
  py_outer_hash :: bytes
  py_pending :: "bytes option"
  py_length :: nat
  py_finalized :: bool

definition py_init :: "nat \<Rightarrow> py_blkhash" where
  "py_init block_size =
     \<lparr>py_block_size = block_size, py_outer_hash = [], py_pending = None, py_length = 0,
      py_finalized = False\<rparr>"

definition py_add_block :: "(bytes \<Rightarrow> bytes) \<Rightarrow> bytes \<Rightarrow> py_blkhash \<Rightarrow> py_blkhash" where
  "py_add_block hash data h =
     h\<lparr>py_outer_hash := py_outer_hash h @ hash data, py_length := py_length h + length data\<rparr>"

text \<open>The truth value of \<^verbatim>\<open>self.pending\<close>, and the part of \<^verbatim>\<open>update\<close> that consumes it.\<close>

definition py_has_pending :: "py_blkhash \<Rightarrow> bool" where
  "py_has_pending h \<longleftrightarrow> (case py_pending h of None \<Rightarrow> False | Some p \<Rightarrow> p \<noteq> [])"

definition py_fill_pending ::
    "(bytes \<Rightarrow> bytes) \<Rightarrow> bytes \<Rightarrow> py_blkhash \<Rightarrow> bytes \<times> py_blkhash" where
  "py_fill_pending hash view h =
     (if py_has_pending h then
        let p = the (py_pending h); n = py_block_size h - length p;
            p = p @ take n view; h = h\<lparr>py_pending := Some p\<rparr>; view = drop n view
        in if length p = py_block_size h
           then (view, (py_add_block hash p h)\<lparr>py_pending := None\<rparr>) else (view, h)
      else (view, h))"

text \<open>The loop of \<^verbatim>\<open>update\<close> over the full blocks of the view.\<close>

partial_function (option) py_full_blocks ::
    "(bytes \<Rightarrow> bytes) \<Rightarrow> bytes \<Rightarrow> py_blkhash \<Rightarrow> (bytes \<times> py_blkhash) option" where
  "py_full_blocks hash view h =
     (if length view \<ge> py_block_size h
      then py_full_blocks hash (drop (py_block_size h) view)
             (py_add_block hash (take (py_block_size h) view) h)
      else Some (view, h))"

declare py_full_blocks.simps [code]

definition py_update :: "(bytes \<Rightarrow> bytes) \<Rightarrow> bytes \<Rightarrow> py_blkhash \<Rightarrow> py_blkhash option" where
  "py_update hash data h = do {
     assert_that (\<not> py_finalized h);
     let (view, h) = py_fill_pending hash data h;
     (view, h) \<leftarrow> py_full_blocks hash view h;
     Some (if view \<noteq> [] then h\<lparr>py_pending := Some view\<rparr> else h)
   }"

text \<open>\<^verbatim>\<open>struct.pack\<close> refuses a length that does not fit in eight bytes.\<close>

definition py_finalize :: "(bytes \<Rightarrow> bytes) \<Rightarrow> py_blkhash \<Rightarrow> py_blkhash option" where
  "py_finalize hash h =
     (if py_finalized h then Some h else do {
        let h = h\<lparr>py_finalized := True\<rparr>;
        let h = (if py_has_pending h
                 then (py_add_block hash (the (py_pending h)) h)\<lparr>py_pending := None\<rparr> else h);
        assert_that (py_length h < 2 ^ 64);
        Some (h\<lparr>py_outer_hash := py_outer_hash h @ le_bytes (of_nat (py_length h))\<rparr>)
      })"

text \<open>\<^verbatim>\<open>hexdigest\<close>, before the conversion of the digest to hexadecimal.\<close>

definition py_digest :: "(bytes \<Rightarrow> bytes) \<Rightarrow> py_blkhash \<Rightarrow> bytes option" where
  "py_digest hash h = do { h \<leftarrow> py_finalize hash h; Some (hash (py_outer_hash h)) }"

text \<open>\<^verbatim>\<open>checksum\<close>: the contents of a file, read in pieces of at most \<open>n\<close> bytes.\<close>

definition READ_SIZE :: nat where
  "READ_SIZE = 1024 ^ 2"

function read_chunks :: "nat \<Rightarrow> bytes \<Rightarrow> bytes list" where
  "read_chunks n xs = (if xs = [] \<or> n = 0 then [] else take n xs # read_chunks n (drop n xs))"
  by auto
termination
  by (relation "measure (\<lambda>(n, xs). length xs)") auto

fun py_updates :: "(bytes \<Rightarrow> bytes) \<Rightarrow> bytes list \<Rightarrow> py_blkhash \<Rightarrow> py_blkhash option" where
  "py_updates hash [] h = Some h"
| "py_updates hash (d # ds) h = do { h \<leftarrow> py_update hash d h; py_updates hash ds h }"

definition py_checksum :: "(bytes \<Rightarrow> bytes) \<Rightarrow> nat \<Rightarrow> bytes \<Rightarrow> bytes option" where
  "py_checksum hash block_size file = do {
     h \<leftarrow> py_updates hash (read_chunks READ_SIZE file) (py_init block_size);
     py_digest hash h
   }"

section \<open>The reference implementation computes the block hash\<close>

definition py_inv :: "(bytes \<Rightarrow> bytes) \<Rightarrow> nat \<Rightarrow> bytes \<Rightarrow> py_blkhash \<Rightarrow> bool" where
  "py_inv hash bs m h \<longleftrightarrow>
     (let n = length m div bs; rest = drop (n * bs) m
      in py_block_size h = bs \<and> \<not> py_finalized h \<and> py_length h = n * bs \<and>
         py_outer_hash h = block_digests hash (blk bs m) n \<and>
         py_pending h = (if rest = [] then None else Some rest))"

lemma py_full_blocks_ok:
  assumes "0 < bs" and "py_block_size h = bs" and "n * bs + length view = length m"
    and "view = drop (n * bs) m" and "py_length h = n * bs"
    and "py_outer_hash h = block_digests hash (blk bs m) n"
  shows "\<exists>n' k. n' * bs + k = length m \<and> k < bs \<and>
    py_full_blocks hash view h = Some (drop (n' * bs) m,
      h\<lparr>py_outer_hash := block_digests hash (blk bs m) n', py_length := n' * bs\<rparr>)"
  using assms
proof (induction "length view" arbitrary: n h view rule: less_induct)
  case less
  show ?case
  proof (cases "bs \<le> length view")
    case False
    have "h\<lparr>py_outer_hash := block_digests hash (blk bs m) n, py_length := n * bs\<rparr> = h"
      using less.prems by simp
    moreover have "py_full_blocks hash view h = Some (view, h)"
      using False less.prems(2) by (subst py_full_blocks.simps) simp
    ultimately show ?thesis
      using False less.prems by (rule_tac exI [of _ n], rule_tac exI [of _ "length view"]) simp
  next
    case True
    let ?h = "py_add_block hash (take bs view) h"
    have "take bs view = blk bs m n" using less.prems(4) by (simp add: blk_def)
    then have "\<exists>n' k. n' * bs + k = length m \<and> k < bs \<and>
        py_full_blocks hash (drop bs view) ?h = Some (drop (n' * bs) m,
          ?h\<lparr>py_outer_hash := block_digests hash (blk bs m) n', py_length := n' * bs\<rparr>)"
      using less.prems True
      by (intro less.hyps [of _ _ "Suc n"])
        (auto simp: py_add_block_def block_digests_Suc blk_def add.commute)
    moreover have "?h\<lparr>py_outer_hash := x, py_length := y\<rparr> = h\<lparr>py_outer_hash := x, py_length := y\<rparr>" for x y
      by (simp add: py_add_block_def)
    ultimately show ?thesis
      using True less.prems(2) by (subst py_full_blocks.simps) simp
  qed
qed

text \<open>Nothing is pending, and the first \<open>n\<close> blocks of the message were added.\<close>

definition py_at :: "(bytes \<Rightarrow> bytes) \<Rightarrow> nat \<Rightarrow> bytes \<Rightarrow> nat \<Rightarrow> py_blkhash \<Rightarrow> bool" where
  "py_at hash bs m n h \<longleftrightarrow>
     py_block_size h = bs \<and> \<not> py_finalized h \<and> py_length h = n * bs \<and> py_pending h = None \<and>
     py_outer_hash h = block_digests hash (blk bs m) n"

lemma py_fill_pending_ok:
  assumes inv: "py_inv hash bs m h" and bs: "0 < bs" and f: "py_fill_pending hash d h = (view, h')"
  shows "view = [] \<and> py_inv hash bs (m @ d) h' \<or>
    (\<exists>n. n * bs + length view = length (m @ d) \<and> view = drop (n * bs) (m @ d) \<and> py_at hash bs (m @ d) n h')"
proof -
  define n where "n = length m div bs"
  define rest where "rest = drop (n * bs) m"
  have D: "py_block_size h = bs" "\<not> py_finalized h" "py_length h = n * bs"
      "py_outer_hash h = block_digests hash (blk bs (m @ d)) n"
      "py_pending h = (if rest = [] then None else Some rest)"
    using inv block_digests_cong [of "length m div bs" "blk bs (m @ d)" "blk bs m" hash] blk_consumed
    by (auto simp: py_inv_def Let_def n_def rest_def)
  have len: "n * bs + length rest = length m" "length rest < bs"
    using bs by (simp_all add: n_def rest_def minus_div_mult_eq_mod)
  then have drop: "drop (n * bs) (m @ d) = rest @ d" by (simp add: rest_def)
  consider "rest = []" | "rest \<noteq> []" "bs - length rest \<le> length d" | "rest \<noteq> []" "length d < bs - length rest"
    by linarith
  then show ?thesis
  proof cases
    case 1
    then have "view = d" "h' = h" using f D by (simp_all add: py_fill_pending_def py_has_pending_def)
    with 1 show ?thesis using D len drop by (auto simp: py_at_def)
  next
    case 2
    let ?x = "bs - length rest"
    have blk: "blk bs (m @ d) n = rest @ take ?x d" using drop len(2) by (simp add: blk_def)
    then have blen: "length (blk bs (m @ d) n) = bs" using 2 len(2) by simp
    have sn: "Suc n * bs = length m + ?x" using len by simp
    have "view = drop ?x d"
        "h' = (py_add_block hash (rest @ take ?x d) (h\<lparr>py_pending := Some (rest @ take ?x d)\<rparr>))\<lparr>py_pending := None\<rparr>"
      using f D 2 len(2) by (simp_all add: py_fill_pending_def py_has_pending_def Let_def py_add_block_def)
    then have "py_at hash bs (m @ d) (Suc n) h'" "view = drop (Suc n * bs) (m @ d)"
        "Suc n * bs + length view = length (m @ d)"
      unfolding sn using D 2 len(2) blen blk [symmetric]
      by (simp_all add: py_at_def py_add_block_def block_digests_Suc)
    then show ?thesis by blast
  next
    case 3
    then have h': "view = []" "h' = h\<lparr>py_pending := Some (rest @ d)\<rparr>"
      using f D by (auto simp: py_fill_pending_def py_has_pending_def Let_def split: if_splits)
    have "length (m @ d) div bs = n"
      using blocks_done(1) [of n bs "length rest + length d" "m @ d"] len 3 by simp
    then have "py_inv hash bs (m @ d) h'"
      unfolding py_inv_def Let_def using D drop 3(1) h' by (simp del: drop_append length_append)
    then show ?thesis using h' by simp
  qed
qed

lemma py_update_ok:
  assumes inv: "py_inv hash bs m h" and bs: "0 < bs"
  shows "ensures (py_update hash d h) (py_inv hash bs (m @ d))"
proof -
  obtain view h' where f: "py_fill_pending hash d h = (view, h')" by fastforce
  have fin: "\<not> py_finalized h" using inv by (simp add: py_inv_def Let_def)
  from py_fill_pending_ok [OF inv bs f] show ?thesis
  proof (elim disjE exE conjE)
    assume v: "view = []" and inv': "py_inv hash bs (m @ d) h'"
    then have "py_block_size h' = bs" by (simp add: py_inv_def Let_def)
    then have "py_full_blocks hash view h' = Some ([], h')"
      using bs v by (subst py_full_blocks.simps) simp
    then show ?thesis using fin f inv' by (simp add: py_update_def)
  next
    fix n assume n: "n * bs + length view = length (m @ d)" "view = drop (n * bs) (m @ d)" "py_at hash bs (m @ d) n h'"
    have at: "py_block_size h' = bs" "py_length h' = n * bs" "py_outer_hash h' = block_digests hash (blk bs (m @ d)) n"
      using n(3) by (simp_all add: py_at_def)
    obtain n2 k where n2: "n2 * bs + k = length (m @ d)" "k < bs" "py_full_blocks hash view h' =
        Some (drop (n2 * bs) (m @ d), h'\<lparr>py_outer_hash := block_digests hash (blk bs (m @ d)) n2, py_length := n2 * bs\<rparr>)"
      using py_full_blocks_ok [OF bs at(1) n(1,2) at(2,3)] by blast
    have "length (m @ d) div bs = n2" using blocks_done(1) [OF n2(1,2)] .
    then show ?thesis
      using fin f n2(3) n(3) by (simp add: py_update_def py_inv_def py_at_def Let_def del: drop_append)
  qed
qed

lemma py_updates_ok:
  "py_inv hash bs m h \<Longrightarrow> 0 < bs \<Longrightarrow> ensures (py_updates hash ds h) (py_inv hash bs (m @ concat ds))"
proof (induction ds arbitrary: m h)
  case (Cons d ds)
  have "ensures (py_update hash d h) (\<lambda>h. ensures (py_updates hash ds h) (py_inv hash bs ((m @ d) @ concat ds)))"
    by (rule ensures_mono [OF py_update_ok [OF Cons.prems]]) (rule Cons.IH [OF _ Cons.prems(2)])
  then show ?case by simp
qed simp

lemma py_digest_ok:
  assumes inv: "py_inv hash bs m h" and bs: "0 < bs" and len: "length m < 2 ^ 64"
  shows "py_digest hash h = Some (blkhash_spec hash bs m)"
proof -
  define n where "n = length m div bs"
  define rest where "rest = drop (n * bs) m"
  have D: "py_block_size h = bs" "\<not> py_finalized h" "py_length h = n * bs"
      "py_outer_hash h = block_digests hash (blk bs m) n"
      "py_pending h = (if rest = [] then None else Some rest)"
    using inv by (auto simp: py_inv_def Let_def n_def rest_def)
  have rest: "n * bs + length rest = length m" "length rest < bs"
    using bs by (simp_all add: n_def rest_def minus_div_mult_eq_mod)
  have "blk bs m n = rest" using rest(2) by (simp add: blk_def rest_def)
  moreover have "(length m + bs - 1) div bs = (if rest = [] then n else Suc n)"
    using blocks_count [OF bs, of m] by (simp add: n_def rest_def)
  ultimately show ?thesis
    using D rest(1) len
    by (cases "rest = []")
      (simp_all add: py_digest_def py_finalize_def py_has_pending_def py_add_block_def assert_that_def
        Let_def blkhash_spec_digests block_digests_Suc)
qed

lemma py_inv_init: "py_inv hash bs [] (py_init bs)"
  by (simp add: py_inv_def py_init_def block_digests_def)

lemma concat_read_chunks: "0 < n \<Longrightarrow> concat (read_chunks n xs) = xs"
proof (induction n xs rule: read_chunks.induct)
  case (1 n xs)
  then show ?case by (subst read_chunks.simps) (simp del: read_chunks.simps)
qed

text \<open>
  The reference implementation \<^verbatim>\<open>test/blkhash.py\<close> computes the block hash of the specification,
  for every positive block size and every message that fits in 64 bits of length, however the
  file is cut into reads.
\<close>

lemma py_checksum_correct:
  assumes "0 < block_size" and "length file < 2 ^ 64"
  shows "py_checksum hash block_size file = Some (blkhash_spec hash block_size file)"
proof -
  have "0 < READ_SIZE" by (simp add: READ_SIZE_def)
  then have "ensures (py_updates hash (read_chunks READ_SIZE file) (py_init block_size)) (py_inv hash block_size file)"
    using py_updates_ok [OF py_inv_init assms(1), of hash "read_chunks READ_SIZE file"]
    by (simp add: concat_read_chunks del: read_chunks.simps)
  then show ?thesis
    using py_digest_ok [OF _ assms] by (auto simp: py_checksum_def elim!: ensuresE simp del: read_chunks.simps)
qed

end
