(* ===== verification/Hashing.thy ===== *)
theory Hashing
  imports Caller Reference
begin

text \<open>
  The calling thread consumes submissions in order and feeds the outer digest: the digests of the
  blocks reach it in the order of the message, with the digest of a zero block for every block
  that was never submitted.
\<close>

section \<open>The order of blocks\<close>

text \<open>
  \<open>order_ok B bs h L n\<close>: the digests of the first \<open>h\<close> blocks were hashed, the log \<open>L\<close> holds what
  is in flight, \<open>n\<close> blocks were consumed, and every block from \<open>h\<close> on that is not in the log is
  a block of zeros. \<open>B\<close> gives the contents of the blocks.
\<close>

fun order_ok :: "(nat \<Rightarrow> bytes) \<Rightarrow> nat \<Rightarrow> nat \<Rightarrow> entry list \<Rightarrow> nat \<Rightarrow> bool" where
  "order_ok B bs h [] n \<longleftrightarrow> h \<le> n \<and> (\<forall>i. h \<le> i \<and> i < n \<longrightarrow> B i = zeros bs)"
| "order_ok B bs h ((j, k, None) # L) n \<longleftrightarrow>
     h \<le> k \<and> (\<forall>i. h \<le> i \<and> i < k \<longrightarrow> B i = zeros bs) \<and> order_ok B bs k L n"
| "order_ok B bs h ((j, k, Some b) # L) n \<longleftrightarrow>
     h \<le> k \<and> (\<forall>i. h \<le> i \<and> i < k \<longrightarrow> B i = zeros bs) \<and> b = B k \<and> order_ok B bs (Suc k) L n"

lemma order_ok_le: "order_ok B bs h L n \<Longrightarrow> h \<le> n"
  by (induction B bs h L n rule: order_ok.induct) auto

lemma order_ok_back:
  "order_ok B bs (Suc k) L n \<Longrightarrow> B k = zeros bs \<Longrightarrow> order_ok B bs k L n"
proof -
  assume o: "order_ok B bs (Suc k) L n" and z: "B k = zeros bs"
  have "B i = zeros bs" if "k \<le> i" "i < m" "\<forall>i. Suc k \<le> i \<and> i < m \<longrightarrow> B i = zeros bs" for i m
    using that z by (cases "i = k") auto
  then show ?thesis
    using o by (cases "(B, bs, Suc k, L, n)" rule: order_ok.cases) auto
qed

lemma order_ok_zero:
  "order_ok B bs h L n \<Longrightarrow> n \<le> n' \<Longrightarrow> (\<And>i. n \<le> i \<Longrightarrow> i < n' \<Longrightarrow> B i = zeros bs) \<Longrightarrow>
   order_ok B bs h L n'"
  by (induction B bs h L n rule: order_ok.induct) (auto, metis leI)

lemma order_ok_mark: "order_ok B bs h L n \<Longrightarrow> order_ok B bs h (L @ [(j, n, None)]) n"
  by (induction B bs h L n rule: order_ok.induct) auto

lemma order_ok_data: "order_ok B bs h L n \<Longrightarrow> order_ok B bs h (L @ [(j, n, Some (B n))]) (Suc n)"
  by (induction B bs h L n rule: order_ok.induct) auto

lemma order_ok_cong:
  "(\<And>i. i < n \<Longrightarrow> B' i = B i) \<Longrightarrow> order_ok B bs h L n \<Longrightarrow> order_ok B' bs h L n"
proof (induction B bs h L n rule: order_ok.induct)
  case (2 B bs h j k L n)
  then show ?case using order_ok_le [of B bs k L n] by auto
next
  case (3 B bs h j k b L n)
  then show ?case using order_ok_le [of B bs "Suc k" L n] by auto
qed auto

text \<open>
  The log is closed at \<open>n\<close>: hashing the submissions in the log brings the outer digest to block
  \<open>n\<close>, with no zero blocks left to add. A marker closes the log, and so does a block of data that
  no worker can take for zeros.
\<close>

definition log_closed :: "nat \<Rightarrow> nat \<Rightarrow> entry list \<Rightarrow> nat \<Rightarrow> bool" where
  "log_closed bs h L n \<longleftrightarrow>
     (if L = [] then h = n
      else case last L of (j, k, None) \<Rightarrow> k = n | (j, k, Some b) \<Rightarrow> Suc k = n \<and> b \<noteq> zeros bs)"

section \<open>The outer digest\<close>

text \<open>The outer digest was fed the digests of the first \<open>h\<close> blocks.\<close>

definition outer_at :: "('x, 'k) ext \<Rightarrow> ('x, 'k) ghost \<Rightarrow> (nat \<Rightarrow> bytes) \<Rightarrow> nat \<Rightarrow> ('x, 'k) sys \<Rightarrow> bool" where
  "outer_at E G B h s \<longleftrightarrow>
     hashed_index s = int h \<and>
     (\<exists>d. outer_digest s = Some d \<and>
          digest_absorbed (crypto E) (digest_name (config s)) (g_hash G) d
            (block_digests (hash_of (g_hash G)) B h))"

lemma outer_update_ok:
  assumes C: "crypto_ok (crypto E) (digest_name (config s)) (g_hash G)" and o: "outer_at E G B h s"
  shows "\<exists>d. outer_update E data s = Some (0, s\<lparr>outer_digest := Some d\<rparr>) \<and>
    digest_absorbed (crypto E) (digest_name (config s)) (g_hash G) d
      (block_digests (hash_of (g_hash G)) B h @ data)"
proof -
  obtain d where d: "outer_digest s = Some d" "digest_absorbed (crypto E) (digest_name (config s))
      (g_hash G) d (block_digests (hash_of (g_hash G)) B h)"
    using o by (auto simp: outer_at_def)
  with dg.upd_absorbed [OF C d(2), of data] show ?thesis
    by (auto simp: outer_update_def)
qed

text \<open>Hashing one more block, of which the digest is known.\<close>

lemma outer_at_next:
  assumes C: "crypto_ok (crypto E) (digest_name (config s)) (g_hash G)" and o: "outer_at E G B h s"
    and h: "int h + 1 < 2 ^ 63"
  shows "\<exists>s1. outer_update E (hash_of (g_hash G) (B h)) s = Some (0, s1) \<and>
    (\<exists>d. s1\<lparr>hashed_index := s64 (hashed_index s1 + 1)\<rparr> =
         s\<lparr>outer_digest := Some d, hashed_index := int (Suc h)\<rparr>) \<and>
    outer_at E G B (Suc h) (s1\<lparr>hashed_index := s64 (hashed_index s1 + 1)\<rparr>)"
proof -
  obtain d where d: "outer_update E (hash_of (g_hash G) (B h)) s = Some (0, s\<lparr>outer_digest := Some d\<rparr>)"
    "digest_absorbed (crypto E) (digest_name (config s)) (g_hash G) d
      (block_digests (hash_of (g_hash G)) B h @ hash_of (g_hash G) (B h))"
    using outer_update_ok [OF C o] by blast
  have "s64 (hashed_index s + 1) = int (Suc h)" using o h by (simp add: outer_at_def)
  with d show ?thesis
    by (intro exI [of _ "s\<lparr>outer_digest := Some d\<rparr>"]) (auto simp: outer_at_def block_digests_Suc)
qed

lemma hash_zero_blocks_ok:
  assumes "crypto_ok (crypto E) (digest_name (config s)) (g_hash G)" and "config_ok (g_hash G) (config s)"
    and "outer_at E G B h s" and "\<And>i. h \<le> i \<Longrightarrow> i < h + n \<Longrightarrow> B i = zeros (block_size (config s))"
    and "int (h + n) < 2 ^ 63"
  shows "\<exists>d. hash_zero_blocks E n s =
      Some (0, s\<lparr>outer_digest := Some d, hashed_index := int (h + n)\<rparr>) \<and>
    outer_at E G B (h + n) (s\<lparr>outer_digest := Some d, hashed_index := int (h + n)\<rparr>)"
  using assms
proof (induction n arbitrary: h s)
  case 0
  then obtain d where "outer_digest s = Some d" "hashed_index s = int h" by (auto simp: outer_at_def)
  then have "s\<lparr>outer_digest := Some d, hashed_index := int h\<rparr> = s" by simp
  with 0 show ?case by (intro exI [of _ d]) simp
next
  case (Suc n)
  have md: "load_array (zero_md (config s)) (md_len (config s)) = Some (hash_of (g_hash G) (B h))"
    using Suc.prems(2) Suc.prems(4) [of h] unfolding config_ok_def load_array_def by auto
  obtain s1 d where s1: "outer_update E (hash_of (g_hash G) (B h)) s = Some (0, s1)"
      "s1\<lparr>hashed_index := s64 (hashed_index s1 + 1)\<rparr> = s\<lparr>outer_digest := Some d, hashed_index := int (Suc h)\<rparr>"
      "outer_at E G B (Suc h) (s1\<lparr>hashed_index := s64 (hashed_index s1 + 1)\<rparr>)"
    using outer_at_next [OF Suc.prems(1,3)] Suc.prems(5) by auto
  let ?s = "s\<lparr>outer_digest := Some d, hashed_index := int (Suc h)\<rparr>"
  have "\<exists>d'. hash_zero_blocks E n ?s = Some (0, ?s\<lparr>outer_digest := Some d', hashed_index := int (Suc h + n)\<rparr>) \<and>
      outer_at E G B (Suc h + n) (?s\<lparr>outer_digest := Some d', hashed_index := int (Suc h + n)\<rparr>)"
    using Suc.prems s1(2,3) by (intro Suc.IH) simp_all
  moreover have "hash_zero_blocks E (Suc n) s = hash_zero_blocks E n ?s"
    using md s1(1,2) by simp
  ultimately show ?case by simp
qed

section \<open>The invariant of the calling thread\<close>

definition sinv ::
    "('x, 'k) ext \<Rightarrow> ('x, 'k) ghost \<Rightarrow> (nat \<Rightarrow> bytes) \<Rightarrow> bool \<Rightarrow> nat \<Rightarrow> ('x, 'k) sys \<Rightarrow> bool" where
  "sinv E G B t n s \<longleftrightarrow>
     winv E G s \<and> config_ok (g_hash G) (config s) \<and> block_size (config s) < 2 ^ 32 \<and>
     block_index s = int n \<and> n < 2 ^ 62 \<and>
     0 \<le> submitted_index s \<and> submitted_index s \<le> int n \<and>
     (\<exists>h. outer_at E G B h s \<and> order_ok B (block_size (config s)) h (g_log G) n \<and>
          (t \<longrightarrow> log_closed (block_size (config s)) h (g_log G) n))"

text \<open>What the operations on blocks leave alone.\<close>

definition keeps :: "('x, 'k) sys \<Rightarrow> ('x, 'k) sys \<Rightarrow> bool" where
  "keeps s s' \<longleftrightarrow>
     config s' = config s \<and> pending s' = pending s \<and> message_length s' = message_length s \<and>
     inflight s' = inflight s \<and> finalized s' = finalized s \<and> mem s' = mem s \<and>
     cq_event (cq s') = cq_event (cq s) \<and> cq_array_mem (cq s') = cq_array_mem (cq s) \<and>
     p_queue_size (pool s') = p_queue_size (pool s) \<and>
     p_queue_mem (pool s') = p_queue_mem (pool s) \<and>
     p_workers_mem (pool s') = p_workers_mem (pool s) \<and>
     p_workers_count (pool s') = p_workers_count (pool s) \<and>
     sq_ring_mem (sq s') = sq_ring_mem (sq s)"

lemma keeps_refl [simp]: "keeps s s"
  by (simp add: keeps_def)

lemma keeps_trans: "keeps s s' \<Longrightarrow> keeps s' s'' \<Longrightarrow> keeps s s''"
  by (simp add: keeps_def)

lemma caller_eq_keeps: "caller_eq s s' \<Longrightarrow> keeps s s'"
  by (simp add: caller_eq_def keeps_def)

lemma sinv_step:
  assumes "sinv E G B t n s" and "step_ok E G s s'"
  shows "sinv E G B t n s'" and "keeps s s'" and "sq s' = sq s"
  using assms by (auto simp: sinv_def step_ok_def caller_eq_def keeps_def outer_at_def)

section \<open>Consuming the first submission\<close>

lemma hash_submission_ok:
  assumes inv: "sinv E G B t n s" and L: "g_log G = (j, k, b) # L" and c: "completed_in j s"
  shows "\<exists>d h. hash_submission E j s = Some (0, s\<lparr>outer_digest := Some d, hashed_index := int h\<rparr>) \<and>
    outer_at E G B h (s\<lparr>outer_digest := Some d, hashed_index := int h\<rparr>) \<and>
    order_ok B (block_size (config s)) h L n \<and> (t \<longrightarrow> log_closed (block_size (config s)) h L n)"
proof -
  let ?bs = "block_size (config s)" and ?hash = "hash_of (g_hash G)"
  have w: "winv E G s" and cfg: "config_ok (g_hash G) (config s)" and n: "n < 2 ^ 62"
    using inv by (auto simp: sinv_def)
  obtain h where o: "outer_at E G B h s" and ord: "order_ok B ?bs h ((j, k, b) # L) n"
    and cl: "t \<longrightarrow> log_closed ?bs h ((j, k, b) # L) n"
    using inv L by (auto simp: sinv_def)
  obtain sub where sub: "cells (subs s) j = Some sub" "sub_index sub = int k" "sub_error sub = 0"
      "case b of None \<Rightarrow> sub_zero sub | Some data \<Rightarrow> processed ?bs ?hash data sub"
    using completed_entry [OF w c, of k b] L by auto
  have hk: "h \<le> k" and gap: "\<And>i. h \<le> i \<Longrightarrow> i < k \<Longrightarrow> B i = zeros ?bs"
    using ord by (cases b; auto)+
  have kn: "k \<le> n" using ord order_ok_le [of B ?bs k L n] order_ok_le [of B ?bs "Suc k" L n] by (cases b) auto
  have gap_len: "nat (sub_index sub - hashed_index s) = k - h"
    using o sub(2) hk by (simp add: outer_at_def)
  obtain d where z: "hash_zero_blocks E (k - h) s = Some (0, s\<lparr>outer_digest := Some d, hashed_index := int k\<rparr>)"
      "outer_at E G B k (s\<lparr>outer_digest := Some d, hashed_index := int k\<rparr>)"
    using hash_zero_blocks_ok [OF winvD(3) [OF w] cfg o, of "k - h"] gap hk kn n by auto
  let ?s = "s\<lparr>outer_digest := Some d, hashed_index := int k\<rparr>"
  have head: "hash_submission E j s = (if \<not> submission_is_zero sub then do {
         md \<leftarrow> load_array (sub_md sub) (md_len (config s));
         (err, s) \<leftarrow> outer_update E md ?s;
         if err \<noteq> 0 then Some (set_error err s)
         else Some (0, s\<lparr>hashed_index := s64 (hashed_index s + 1)\<rparr>)
       } else Some (0, ?s))"
    using sub(1,3) z(1) by (simp add: hash_submission_def get_sub_def submission_error_def gap_len)
  show ?thesis
  proof (cases "sub_zero sub")
    case True
    have "order_ok B ?bs k L n"
    proof (cases b)
      case (Some data)
      then have "B k = zeros ?bs" "order_ok B ?bs (Suc k) L n"
        using ord sub(4) True by (auto simp: processed_def)
      then show ?thesis by (rule_tac order_ok_back)
    qed (use ord in simp)
    moreover have "t \<longrightarrow> log_closed ?bs k L n"
      using cl sub(4) True by (cases b) (auto simp: log_closed_def processed_def)
    ultimately show ?thesis
      using True head z(2) by (intro exI [of _ d] exI [of _ k]) (simp add: submission_is_zero_def)
  next
    case False
    then obtain data where b: "b = Some data" using sub(4) by (cases b) auto
    then have md: "sub_md sub = ?hash (B k)" and ord': "order_ok B ?bs (Suc k) L n"
      using sub(4) False ord by (auto simp: processed_def)
    have load: "load_array (sub_md sub) (md_len (config s)) = Some (?hash (B k))"
      using crypto_ok_len [OF winvD(3) [OF w]] cfg by (simp add: md load_array_def config_ok_def)
    have "int k + 1 < 2 ^ 63" using kn n by simp
    moreover have "crypto_ok (crypto E) (digest_name (config ?s)) (g_hash G)"
      using winvD(3) [OF w] by simp
    ultimately obtain s1 d' where s1: "outer_update E (?hash (B k)) ?s = Some (0, s1)"
        "s1\<lparr>hashed_index := s64 (hashed_index s1 + 1)\<rparr> = ?s\<lparr>outer_digest := Some d', hashed_index := int (Suc k)\<rparr>"
        "outer_at E G B (Suc k) (s1\<lparr>hashed_index := s64 (hashed_index s1 + 1)\<rparr>)"
      using outer_at_next [OF _ z(2)] by blast
    then have "hash_submission E j s = Some (0, s\<lparr>outer_digest := Some d', hashed_index := int (Suc k)\<rparr>)"
      using head False load by (simp add: submission_is_zero_def)
    moreover have "t \<longrightarrow> log_closed ?bs (Suc k) L n" using cl b by (auto simp: log_closed_def)
    ultimately show ?thesis using s1(2,3) ord' by (intro exI [of _ d'] exI [of _ "Suc k"]) simp
  qed
qed

lemma consume_head:
  assumes inv: "sinv E G B t n s" and L: "g_log G = (j, k, b) # L" and c: "completed_in j s"
  shows "\<exists>s1 s2. hash_submission E j s = Some (0, s1) \<and> submission_destroy j s1 = Some s2 \<and>
    sinv E (G\<lparr>g_log := L\<rparr>) B t n s2 \<and> keeps s s2 \<and> sq s2 = sq s"
proof -
  obtain d h where h: "hash_submission E j s = Some (0, s\<lparr>outer_digest := Some d, hashed_index := int h\<rparr>)"
      "outer_at E G B h (s\<lparr>outer_digest := Some d, hashed_index := int h\<rparr>)"
      "order_ok B (block_size (config s)) h L n" "t \<longrightarrow> log_closed (block_size (config s)) h L n"
    using hash_submission_ok [OF assms] by blast
  let ?s1 = "s\<lparr>outer_digest := Some d, hashed_index := int h\<rparr>"
  let ?s2 = "?s1\<lparr>subs := (subs s)\<lparr>cells := (cells (subs s))(j := None)\<rparr>\<rparr>"
  have w: "winv E G ?s1" using inv by (simp add: sinv_def)
  have "completed_in j ?s1" using c by (simp add: completed_in_def)
  then have "winv E (G\<lparr>g_log := L\<rparr>) ?s2" using winv_destroy [OF w L] by simp
  then have "sinv E (G\<lparr>g_log := L\<rparr>) B t n ?s2"
    using inv h(2-4) by (auto simp: sinv_def outer_at_def)
  moreover have "submission_destroy j ?s1 = Some ?s2"
    using c by (auto simp: submission_destroy_def heap_free_def completed_in_def split: option.splits)
  ultimately show ?thesis using h(1) by (auto simp: keeps_def)
qed

section \<open>The submission queue\<close>

definition sq_ok :: "entry list \<Rightarrow> ('x, 'k) sys \<Rightarrow> bool" where
  "sq_ok L s \<longleftrightarrow>
     sq_inv (sq s) \<and> sq_view (sq s) = map (\<lambda>e. Sub (fst e)) L \<and>
     sq_size (sq s) = p_queue_size (pool s) \<and> sq_size (sq s) + 3 < 2 ^ 32"

text \<open>The invariant of the calling thread, whatever is in flight.\<close>

definition cinv ::
    "('x, 'k) ext \<Rightarrow> ('x, 'k) ghost \<Rightarrow> (nat \<Rightarrow> bytes) \<Rightarrow> bool \<Rightarrow> nat \<Rightarrow> ('x, 'k) sys \<Rightarrow> bool" where
  "cinv E G B t n s \<longleftrightarrow> (\<exists>L. sinv E (G\<lparr>g_log := L\<rparr>) B t n s \<and> sq_ok L s)"

lemma sq_ok_len: "sq_ok L s \<Longrightarrow> sq_len (sq s) = length L"
  unfolding sq_ok_def by (metis length_map length_sq_view)

lemma sq_ok_keeps: "sq_ok L s \<Longrightarrow> keeps s s' \<Longrightarrow> sq s' = sq s \<Longrightarrow> sq_ok L s'"
  by (simp add: sq_ok_def keeps_def)

lemma sq_ok_Nil: "sq_ok [] s \<Longrightarrow> submission_queue_first (sq s) = SubNULL"
  using sq_ok_len [of "[]" s] by (simp add: submission_queue_first_def)

lemma sq_ok_Cons:
  assumes "sq_ok (e # L) s"
  shows "submission_queue_first (sq s) = Sub (fst e)"
    and "submission_queue_pop (sq s) = (0, Sub (fst e), snd (snd (submission_queue_pop (sq s))))"
    and "sq_ok L (s\<lparr>sq := snd (snd (submission_queue_pop (sq s)))\<rparr>)"
    and "keeps s (s\<lparr>sq := snd (snd (submission_queue_pop (sq s)))\<rparr>)"
    and "sq_size (snd (snd (submission_queue_pop (sq s)))) = sq_size (sq s)"
proof -
  have len: "sq_len (sq s) \<noteq> 0" using sq_ok_len [OF assms] by simp
  have inv: "sq_inv (sq s)" and view: "sq_view (sq s) = Sub (fst e) # map (\<lambda>e. Sub (fst e)) L"
    using assms by (auto simp: sq_ok_def)
  then have ne: "sq_view (sq s) \<noteq> []" by simp
  have pop: "fst (snd (submission_queue_pop (sq s))) = Sub (fst e)"
      "sq_view (snd (snd (submission_queue_pop (sq s)))) = map (\<lambda>e. Sub (fst e)) L"
    using sqf.pop_view [OF inv ne] view by auto
  then show "submission_queue_first (sq s) = Sub (fst e)"
    using len by (simp add: submission_queue_first_def submission_queue_pop_def)
  show "submission_queue_pop (sq s) = (0, Sub (fst e), snd (snd (submission_queue_pop (sq s))))"
    using pop(1) len by (simp add: submission_queue_pop_def)
  show size: "sq_size (snd (snd (submission_queue_pop (sq s)))) = sq_size (sq s)"
    using sqf.pop_cap by blast
  show "sq_ok L (s\<lparr>sq := snd (snd (submission_queue_pop (sq s)))\<rparr>)"
    using assms sqf.pop_inv [OF inv ne] pop(2) size by (simp add: sq_ok_def)
  show "keeps s (s\<lparr>sq := snd (snd (submission_queue_pop (sq s)))\<rparr>)"
    by (simp add: keeps_def submission_queue_pop_def)
qed

lemma sinv_sq [simp]: "sinv E G B t n (s\<lparr>sq := q\<rparr>) \<longleftrightarrow> sinv E G B t n s"
  by (simp add: sinv_def outer_at_def)

text \<open>Taking the first submission off the queue once it is completed.\<close>

lemma consume_first:
  assumes inv: "sinv E (G\<lparr>g_log := (j, k, b) # L\<rparr>) B t n s" and sq: "sq_ok ((j, k, b) # L) s"
    and c: "completed_in j s"
  shows "\<exists>s1 s2. hash_submission E j (s\<lparr>sq := snd (snd (submission_queue_pop (sq s)))\<rparr>) = Some (0, s1) \<and>
    submission_destroy j s1 = Some s2 \<and> sinv E (G\<lparr>g_log := L\<rparr>) B t n s2 \<and> sq_ok L s2 \<and> keeps s s2 \<and>
    sq_size (sq s2) = sq_size (sq s)"
proof -
  let ?s = "s\<lparr>sq := snd (snd (submission_queue_pop (sq s)))\<rparr>"
  have "sinv E (G\<lparr>g_log := (j, k, b) # L\<rparr>) B t n ?s" "completed_in j ?s"
    using inv c by (simp_all add: completed_in_def)
  then obtain s1 s2 where s: "hash_submission E j ?s = Some (0, s1)" "submission_destroy j s1 = Some s2"
      "sinv E (G\<lparr>g_log := L\<rparr>) B t n s2" "keeps ?s s2" "sq s2 = sq ?s"
    using consume_head [of E "G\<lparr>g_log := (j, k, b) # L\<rparr>" B t n ?s j k b L] by auto
  moreover have "sq_ok L s2" using sq_ok_keeps [OF sq_ok_Cons(3) [OF sq] s(4,5)] .
  moreover have "keeps s s2" using keeps_trans [OF sq_ok_Cons(4) [OF sq] s(4)] .
  moreover have "sq_size (sq s2) = sq_size (sq s)" using s(5) sq_ok_Cons(5) [OF sq] by simp
  ultimately show ?thesis by blast
qed

lemma hash_completed_ok:
  assumes "sinv E (G\<lparr>g_log := L\<rparr>) B t n s" and "sq_ok L s"
  shows "ensures (hash_completed E (length L) s) (\<lambda>(r, s'). r = 0 \<and> cinv E G B t n s' \<and> keeps s s')"
  using assms
proof (induction L arbitrary: s)
  case Nil
  then show ?case by (auto simp: cinv_def)
next
  case (Cons e L)
  obtain j k b where e: "e = (j, k, b)" by (cases e)
  have w: "winv E (G\<lparr>g_log := e # L\<rparr>) s" using Cons.prems(1) by (simp add: sinv_def)
  have step: "ensures (do {
      completed \<leftarrow> submission_is_completed j s1;
      if \<not> completed then Some (0, s1) else do {
        let s = s1\<lparr>sq := snd (snd (submission_queue_pop (sq s1)))\<rparr>;
        (r, s) \<leftarrow> hash_submission E j s;
        if r \<noteq> 0 then Some (error s, s)
        else do { s \<leftarrow> submission_destroy j s; hash_completed E (length L) s } } })
      (\<lambda>(r, s'). r = 0 \<and> cinv E G B t n s' \<and> keeps s s')"
    if "step_ok E (G\<lparr>g_log := e # L\<rparr>) s s1" for s1
  proof -
    have inv1: "sinv E (G\<lparr>g_log := e # L\<rparr>) B t n s1" and k1: "keeps s s1" and q1: "sq s1 = sq s"
      using sinv_step [OF Cons.prems(1) that] by auto
    have sq1: "sq_ok (e # L) s1" using sq_ok_keeps [OF Cons.prems(2) k1 q1] .
    have live: "cells (subs s1) j \<noteq> None"
      using winvD(7) inv1 unfolding sinv_def subs_inv_def e by fastforce
    show ?thesis
    proof (cases "completed_in j s1")
      case True
      obtain s2 s3 where s: "hash_submission E j (s1\<lparr>sq := snd (snd (submission_queue_pop (sq s1)))\<rparr>) = Some (0, s2)"
          "submission_destroy j s2 = Some s3" "sinv E (G\<lparr>g_log := L\<rparr>) B t n s3" "sq_ok L s3" "keeps s1 s3"
        using consume_first [OF inv1 [unfolded e] sq1 [unfolded e] True] by blast
      have "ensures (hash_completed E (length L) s3) (\<lambda>(r, s'). r = 0 \<and> cinv E G B t n s' \<and> keeps s s')"
        using Cons.IH [OF s(3,4)] by (rule ensures_mono) (use k1 s(5) keeps_trans in blast)
      with s(1,2) True show ?thesis
        by (auto simp: submission_is_completed_def completed_in_def split: option.splits)
    next
      case False
      then have "submission_is_completed j s1 = Some False"
        using live by (auto simp: submission_is_completed_def completed_in_def get_sub_def split: option.splits)
      with inv1 sq1 k1 show ?thesis by (auto simp: cinv_def)
    qed
  qed
  show ?case
    using sq_ok_Cons(1) [OF Cons.prems(2)] e ensures_mono [OF yield_ok [OF w] step] by simp
qed

lemma hash_inflight_ok:
  assumes "sinv E (G\<lparr>g_log := L\<rparr>) B t n s" and "sq_ok L s"
  shows "ensures (hash_inflight E (length L) s)
    (\<lambda>(r, s'). r = 0 \<and> sinv E (G\<lparr>g_log := []\<rparr>) B t n s' \<and> sq_ok [] s' \<and> keeps s s')"
  using assms
proof (induction L arbitrary: s)
  case (Cons e L)
  obtain j k b where e: "e = (j, k, b)" by (cases e)
  have w: "winv E (G\<lparr>g_log := e # L\<rparr>) s" using Cons.prems(1) by (simp add: sinv_def)
  have j: "j \<in> fst ` set (g_log (G\<lparr>g_log := e # L\<rparr>))" by (simp add: e)
  have step: "ensures (do {
      let s = s1\<lparr>sq := snd (snd (submission_queue_pop (sq s1)))\<rparr>;
      (r, s) \<leftarrow> hash_submission E j s;
      if r \<noteq> 0 then Some (error s, s)
      else do { s \<leftarrow> submission_destroy j s; hash_inflight E (length L) s } })
      (\<lambda>(r, s'). r = 0 \<and> sinv E (G\<lparr>g_log := []\<rparr>) B t n s' \<and> sq_ok [] s' \<and> keeps s s')"
    if st: "step_ok E (G\<lparr>g_log := e # L\<rparr>) s s1 \<and> completed_in j s1" for s1
  proof -
    have inv1: "sinv E (G\<lparr>g_log := e # L\<rparr>) B t n s1" and k1: "keeps s s1" and q1: "sq s1 = sq s"
      using sinv_step [OF Cons.prems(1)] st by auto
    have sq1: "sq_ok (e # L) s1" using sq_ok_keeps [OF Cons.prems(2) k1 q1] .
    obtain s2 s3 where s: "hash_submission E j (s1\<lparr>sq := snd (snd (submission_queue_pop (sq s1)))\<rparr>) = Some (0, s2)"
        "submission_destroy j s2 = Some s3" "sinv E (G\<lparr>g_log := L\<rparr>) B t n s3" "sq_ok L s3" "keeps s1 s3"
      using consume_first [OF inv1 [unfolded e] sq1 [unfolded e]] st by blast
    have "ensures (hash_inflight E (length L) s3)
        (\<lambda>(r, s'). r = 0 \<and> sinv E (G\<lparr>g_log := []\<rparr>) B t n s' \<and> sq_ok [] s' \<and> keeps s s')"
      using Cons.IH [OF s(3,4)] by (rule ensures_mono) (use k1 s(5) keeps_trans in blast)
    with s(1,2) show ?thesis by simp
  qed
  show ?case
    using sq_ok_Cons(1) [OF Cons.prems(2)] e ensures_mono [OF submission_wait_ok [OF w j] step] by simp
qed auto

section \<open>Submitting blocks\<close>

lemma maybe_hash_first_ok:
  assumes inv: "cinv E G B t n s"
  shows "ensures (maybe_hash_first_submission E s)
    (\<lambda>(r, s'). r = 0 \<and> keeps s s' \<and>
       (\<exists>L. sinv E (G\<lparr>g_log := L\<rparr>) B t n s' \<and> sq_ok L s' \<and> length L < sq_size (sq s')))"
proof -
  obtain L where L: "sinv E (G\<lparr>g_log := L\<rparr>) B t n s" "sq_ok L s" using inv by (auto simp: cinv_def)
  show ?thesis
  proof (cases "submission_queue_full (sq s)")
    case False
    have "sq_len (sq s) \<le> sq_size (sq s)" using L(2) by (simp add: sq_ok_def sq_inv_def)
    then have "length L < sq_size (sq s)"
      using False sq_ok_len [OF L(2)] by (simp add: submission_queue_full_def)
    with False L show ?thesis by (auto simp: maybe_hash_first_submission_def)
  next
    case True
    then have "length L = sq_size (sq s)" using sq_ok_len [OF L(2)] by (simp add: submission_queue_full_def)
    moreover have "0 < sq_size (sq s)" using L(2) by (auto simp: sq_ok_def sq_inv_def)
    ultimately obtain j k b L' where e: "L = (j, k, b) # L'" by (cases L) auto
    obtain q where pop: "submission_queue_pop (sq s) = (0, Sub j, q)"
      using sq_ok_Cons(2) [OF L(2) [unfolded e]] by (cases "submission_queue_pop (sq s)") auto
    note q = sq_ok_Cons(3-5) [OF L(2) [unfolded e], unfolded pop snd_conv]
    let ?G = "G\<lparr>g_log := L\<rparr>"
    let ?Q = "\<lambda>(r, s'). r = 0 \<and> keeps s s' \<and>
       (\<exists>L. sinv E (G\<lparr>g_log := L\<rparr>) B t n s' \<and> sq_ok L s' \<and> length L < sq_size (sq s'))"
    have w: "winv E ?G (s\<lparr>sq := q\<rparr>)" using L(1) by (simp add: sinv_def)
    have j: "j \<in> fst ` set (g_log ?G)" by (simp add: e)
    have step: "ensures (do {
        (r, s) \<leftarrow> hash_submission E j s1;
        if r \<noteq> 0 then Some (error s, s)
        else do { s \<leftarrow> submission_destroy j s; Some (0, s) } })
        ?Q" if st: "step_ok E ?G (s\<lparr>sq := q\<rparr>) s1 \<and> completed_in j s1" for s1
    proof -
      have s1: "sinv E ?G B t n s1" "keeps (s\<lparr>sq := q\<rparr>) s1" "sq s1 = q"
        using sinv_step [of E ?G B t n "s\<lparr>sq := q\<rparr>" s1] L(1) st by auto
      obtain s2 s3 where s: "hash_submission E j s1 = Some (0, s2)" "submission_destroy j s2 = Some s3"
          "sinv E (G\<lparr>g_log := L'\<rparr>) B t n s3" "keeps s1 s3" "sq s3 = sq s1"
        using consume_head [OF s1(1), of j k b L'] st e by auto
      have "sq_ok L' s3"
        using sq_ok_keeps [OF q(1) keeps_trans [OF s1(2) s(4)]] s(5) s1(3) by simp
      moreover have "keeps s s3"
        using keeps_trans [OF q(2) keeps_trans [OF s1(2) s(4)]] .
      moreover have "length L' < sq_size (sq s3)"
        using \<open>length L = sq_size (sq s)\<close> e s(5) s1(3) q(3) by simp
      ultimately show ?thesis using s by auto
    qed
    have "ensures (submission_wait E j (s\<lparr>sq := q\<rparr>)) (\<lambda>s1. ensures (do {
        (r, s) \<leftarrow> hash_submission E j s1;
        if r \<noteq> 0 then Some (error s, s)
        else do { s \<leftarrow> submission_destroy j s; Some (0, s) } }) ?Q)"
      by (rule ensures_mono [OF submission_wait_ok [OF w j] step])
    then show ?thesis using True pop by (simp add: maybe_hash_first_submission_def)
  qed
qed

text \<open>Adding an entry at the end of the submission queue.\<close>

lemma sq_ok_push:
  assumes sq: "sq_ok L s" and room: "length L < sq_size (sq s)"
  shows "\<exists>q. submission_queue_push (sq s) (Sub (fst e)) = (0, q) \<and> sq_ring_mem q = sq_ring_mem (sq s) \<and>
    sq_ok (L @ [e]) (s\<lparr>sq := q\<rparr>)"
proof -
  let ?q = "snd (submission_queue_push (sq s) (Sub (fst e)))"
  have inv: "sq_inv (sq s)" and room': "length (sq_view (sq s)) < sq_size (sq s)"
    using sq room sq_ok_len [OF sq] by (auto simp: sq_ok_def)
  have "sq_inv ?q" "sq_view ?q = sq_view (sq s) @ [Sub (fst e)]" "sq_size ?q = sq_size (sq s)"
    using sqf.push_inv [OF inv room'] sqf.push_view [OF inv room'] sqf.push_cap by auto
  moreover have "submission_queue_push (sq s) (Sub (fst e)) = (0, ?q)"
    "sq_ring_mem ?q = sq_ring_mem (sq s)"
    using room' by (simp_all add: submission_queue_push_def)
  ultimately show ?thesis
    using sq by (intro exI [of _ ?q]) (simp add: sq_ok_def)
qed

lemma submit_zero_block_ok:
  assumes inv: "cinv E G B t n s"
  shows "ensures (submit_zero_block E s) (\<lambda>(r, s'). r = 0 \<and> cinv E G B True n s' \<and> keeps s s')"
  unfolding submit_zero_block_def ensures_bind
proof (rule ensures_mono [OF maybe_hash_first_ok [OF inv]], clarify)
  fix s1 L
  assume k1: "keeps s s1" and inv1: "sinv E (G\<lparr>g_log := L\<rparr>) B t n s1" and sq1: "sq_ok L s1"
    and room: "length L < sq_size (sq s1)"
  let ?j = "fresh (subs s1)" and ?G = "G\<lparr>g_log := L\<rparr>"
  let ?e = "(?j, n, None) :: entry"
  let ?sub = "\<lparr>sub_md = [], sub_completion = None, sub_data = NULL, sub_index = int n, sub_len = 0,
    sub_error = 0, sub_zero = True, sub_completed = True, sub_flags = 0\<rparr>"
  obtain q where q: "submission_queue_push (sq s1) (Sub ?j) = (0, q)" "sq_ring_mem q = sq_ring_mem (sq s1)"
      "sq_ok (L @ [?e]) (s1\<lparr>sq := q\<rparr>)"
    using sq_ok_push [OF sq1 room, of ?e] by auto
  let ?s2 = "s1\<lparr>subs := (subs s1)\<lparr>cells := (cells (subs s1))(?j \<mapsto> ?sub), fresh := Suc ?j\<rparr>,
    sq := q, submitted_index := int n\<rparr>"
  have w: "winv E ?G s1" and bi: "block_index s1 = int n" using inv1 by (auto simp: sinv_def)
  have "winv E (G\<lparr>g_log := L @ [?e]\<rparr>) ?s2"
    using winv_mark [OF w, of ?sub n] room sq1 by (simp add: sq_ok_def)
  then have inv2: "sinv E (G\<lparr>g_log := L @ [?e]\<rparr>) B True n ?s2"
    using inv1 order_ok_mark by (auto simp: sinv_def outer_at_def log_closed_def)
  have sq2: "sq_ok (L @ [?e]) ?s2" by (rule sq_ok_keeps [OF q(3)]) (simp_all add: keeps_def)
  have k2: "keeps s ?s2" using k1 q(2) by (simp add: keeps_def)
  have "sq_len (sq ?s2) = length (L @ [?e])" using sq_ok_len [OF sq2] .
  then have "ensures (hash_completed_submissions E ?s2) (\<lambda>(r, s'). r = 0 \<and> cinv E G B True n s' \<and> keeps s s')"
    using hash_completed_ok [OF inv2 sq2] k2 keeps_trans
    unfolding hash_completed_submissions_def by (auto elim!: ensures_mono)
  moreover have "submission_create_zero (block_index s1) s1 =
      (Inr ?j, s1\<lparr>subs := (subs s1)\<lparr>cells := (cells (subs s1))(?j \<mapsto> ?sub), fresh := Suc ?j\<rparr>\<rparr>)"
    using winvD(4) [OF w] bi by (simp add: submission_create_zero_def heap_new_def)
  ultimately show "ensures (if (0::int) \<noteq> 0 then Some (error s1, s1) else
     case submission_create_zero (block_index s1) s1 of
       (Inl err, s) \<Rightarrow> Some (set_error err s)
     | (Inr j, s) \<Rightarrow>
     case submission_queue_push (sq s) (Sub j) of
       (err, q) \<Rightarrow>
         if err \<noteq> 0 then do { s \<leftarrow> submission_destroy j s; Some (set_error err s) }
         else do {
           let s = s\<lparr>sq := q, submitted_index := block_index s\<rparr>;
           (r, s) \<leftarrow> hash_completed_submissions E s;
           if r \<noteq> 0 then Some (error s, s) else Some (0, s)
         }) (\<lambda>(r, s'). r = 0 \<and> cinv E G B True n s' \<and> keeps s s')"
    using q(1) bi by (auto elim!: ensures_mono)
qed

text \<open>
  The bytes of a block to submit: they can be read now; without a copy they are in the buffer of
  the asynchronous update that is being served.
\<close>

definition block_source ::
    "('x, 'k) ghost \<Rightarrow> ('x, 'k) sys \<Rightarrow> ptr \<Rightarrow> nat \<Rightarrow> nat option \<Rightarrow> 8 word \<Rightarrow> bytes \<Rightarrow> bool" where
  "block_source G s buf len co flags data \<longleftrightarrow>
     load s buf len = Some data \<and> length data = len \<and> len \<le> block_size (config s) \<and>
     (co = None \<or> co = g_held G) \<and>
     (flags = SUBMIT_COPY_DATA \<or> flags = 0 \<and> co \<noteq> None \<and>
        (\<exists>a u a0 n0 rest. buf = User a \<and> g_out G = (u, a0, n0) # rest \<and> a0 \<le> a \<and> a + len \<le> a0 + n0))"

lemma block_source_keeps:
  "block_source G s buf len co flags data \<Longrightarrow> keeps s s' \<Longrightarrow> block_source G s' buf len co flags data"
  by (cases buf) (auto simp: block_source_def keeps_def)

lemma refs_bound:
  assumes inv: "winv E G s" and v: "cells (comps s) c = Some v"
  shows "c_refs v \<le> length (g_log G) + 1"
proof -
  let ?M = "image_mset (comp_of (subs s)) (refs_of s)"
  have "c_refs v \<le> count ?M (Some c) + 1"
    using winvD(8) [OF inv] v unfolding comps_inv_def by force
  also have "count ?M (Some c) \<le> size ?M"
    by (metis count_le_replicate_mset_subset_eq order_refl size_mset_mono size_replicate_mset)
  also have "size ?M \<le> size (busy_of s)" using size_mset_mono [OF refs_sub_busy] by simp
  also have "size (busy_of s) \<le> length (g_log G)"
    using winvD(7) [OF inv] unfolding subs_inv_def
    by (metis length_filter_le length_map size_mset)
  finally show ?thesis by simp
qed

lemma submission_create_ok:
  assumes inv: "winv E G s" and src: "block_source G s buf len co flags data"
    and bs: "block_size (config s) < 2 ^ 32"
  shows "\<exists>sub. submission_create_data k len buf co flags s =
      Some (Inr (fresh (subs s)), s\<lparr>comps := ref_comp co (comps s),
        subs := (subs s)\<lparr>cells := (cells (subs s))(fresh (subs s) \<mapsto> sub), fresh := Suc (fresh (subs s))\<rparr>\<rparr>) \<and>
    sub_index sub = k \<and> sub_error sub = 0 \<and> \<not> sub_completed sub \<and> \<not> sub_zero sub \<and>
    sub_md sub = [] \<and> sub_len sub = length data \<and> sub_completion sub = co \<and>
    data_at (mem s) (sub_data sub) data \<and>
    (\<forall>a. sub_data sub = User a \<longrightarrow> (\<exists>c v a0 n0. co = Some c \<and> cells (comps s) c = Some v \<and>
        (c_user_data v, a0, n0) \<in> set (g_out G) \<and> a0 \<le> a \<and> a + sub_len sub \<le> a0 + n0))"
proof -
  note f = winvD(4) [OF inv]
  have len: "u32 len = len" "len = length data" using src bs by (auto simp: block_source_def)
  have ref: "(case co of None \<Rightarrow> Some s | Some c \<Rightarrow> completion_ref c s) =
      Some (s\<lparr>comps := ref_comp co (comps s)\<rparr>)"
  proof (cases co)
    case (Some c)
    then have "g_held G = Some c" using src by (auto simp: block_source_def)
    then obtain v where v: "cells (comps s) c = Some v"
      using winvD(14) [OF inv] unfolding held_inv_def by blast
    then have "u32 (c_refs v + 1) = c_refs v + 1"
      using refs_bound [OF inv v] winvD(12) [OF inv] by simp
    with Some v show ?thesis
      by (simp add: completion_ref_def get_comp_def put_comp_def heap_put_def ref_comp_def)
  qed (simp add: ref_comp_def)
  let ?sub = "\<lambda>p. \<lparr>sub_md = [], sub_completion = co, sub_data = p, sub_index = k,
      sub_len = length data, sub_error = 0, sub_zero = False, sub_completed = False, sub_flags = flags\<rparr>"
  show ?thesis
  proof (cases "flags = SUBMIT_COPY_DATA")
    case True
    then show ?thesis
      using src len f ref
      by (intro exI [of _ "?sub (Copied data)"])
        (simp add: submission_create_data_def copy_data_def block_source_def heap_new_def
          SUBMIT_COPY_DATA_def data_at_def)
  next
    case False
    then obtain a c u a0 n0 rest where user: "flags = 0" "buf = User a" "co = Some c"
        "g_out G = (u, a0, n0) # rest" "a0 \<le> a" "a + len \<le> a0 + n0"
      using src unfolding block_source_def by blast
    moreover have "g_held G = Some c" using src user(3) by (auto simp: block_source_def)
    moreover obtain v where "cells (comps s) c = Some v" "c_user_data v = u"
      using winvD(14) [OF inv] calculation unfolding held_inv_def by auto
    moreover have "data_at (mem s) (User a) data"
      using src user len(2) by (simp add: data_at_def block_source_def)
    ultimately show ?thesis
      using len f ref
      by (intro exI [of _ "?sub (User a)"]) (auto simp: submission_create_data_def heap_new_def)
  qed
qed

lemma hash_pool_submit_ok:
  assumes "winv E G s" and "p_queue_len (pool s) < p_queue_size (pool s)"
  shows "hash_pool_submit E (fresh (subs s)) (s\<lparr>comps := ref_comp (sub_completion sub) (comps s),
      subs := (subs s)\<lparr>cells := (cells (subs s))(fresh (subs s) \<mapsto> sub), fresh := Suc (fresh (subs s))\<rparr>,
      sq := q\<rparr>) = Some (0, (submitted sub s)\<lparr>sq := q\<rparr>)"
  using winvD(1) [OF assms(1)] assms(2)
  by (simp add: hash_pool_submit_def submitted_def pool_inv_def Let_def)

lemma submitted_simps [simp]:
  "config (submitted sub s) = config s" "sq (submitted sub s) = sq s" "pending (submitted sub s) = pending s"
  "outer_digest (submitted sub s) = outer_digest s" "block_index (submitted sub s) = block_index s"
  "hashed_index (submitted sub s) = hashed_index s" "submitted_index (submitted sub s) = submitted_index s"
  "p_queue_size (pool (submitted sub s)) = p_queue_size (pool s)"
  by (simp_all add: submitted_def Let_def push_unlocked_def)

lemma keeps_submitted: "keeps s (submitted sub s)"
  by (simp add: keeps_def submitted_def Let_def push_unlocked_def)

lemma enqueue_data_block_ok:
  assumes inv: "sinv E (G\<lparr>g_log := L\<rparr>) B t n s" and sq: "sq_ok L s" and room: "length L < sq_size (sq s)"
    and src: "block_source G s buf len co flags (B n)" and n: "Suc n < 2 ^ 62"
  shows "ensures (enqueue_data_block E buf len co flags s)
    (\<lambda>(r, s'). r = 0 \<and> cinv E G B (B n \<noteq> zeros (block_size (config s))) (Suc n) s' \<and> keeps s s')"
proof -
  let ?j = "fresh (subs s)" and ?G = "G\<lparr>g_log := L\<rparr>"
  let ?e = "(?j, n, Some (B n)) :: entry"
  have w: "winv E ?G s" and bi: "block_index s = int n" and bs: "block_size (config s) < 2 ^ 32"
    using inv by (auto simp: sinv_def)
  have src1: "block_source ?G s buf len co flags (B n)"
    using src by (simp add: block_source_def)
  obtain sub where sub: "submission_create_data (int n) len buf co flags s =
      Some (Inr ?j, s\<lparr>comps := ref_comp co (comps s),
        subs := (subs s)\<lparr>cells := (cells (subs s))(?j \<mapsto> sub), fresh := Suc ?j\<rparr>\<rparr>)"
    "sub_index sub = int n" "sub_error sub = 0" "\<not> sub_completed sub" "\<not> sub_zero sub"
    "sub_md sub = []" "sub_len sub = length (B n)" "sub_completion sub = co"
    "data_at (mem s) (sub_data sub) (B n)"
    "\<And>a. sub_data sub = User a \<Longrightarrow> \<exists>c v a0 n0. co = Some c \<and> cells (comps s) c = Some v \<and>
      (c_user_data v, a0, n0) \<in> set (g_out G) \<and> a0 \<le> a \<and> a + sub_len sub \<le> a0 + n0"
    using submission_create_ok [OF w src1 bs, of "int n"] by auto
  obtain q where q: "submission_queue_push (sq s) (Sub ?j) = (0, q)" "sq_ring_mem q = sq_ring_mem (sq s)"
      "sq_ok (L @ [?e]) (s\<lparr>sq := q\<rparr>)"
    using sq_ok_push [OF sq room, of ?e] by auto
  have proom: "p_queue_len (pool s) < p_queue_size (pool s)" "length L + 3 < 2 ^ 32"
    using pool_room [OF w] room sq by (auto simp: sq_ok_def)
  let ?s1 = "(submitted sub s)\<lparr>sq := q, submitted_index := int n, block_index := int (Suc n)\<rparr>"
  have "winv E (G\<lparr>g_log := L @ [?e]\<rparr>) ?s1"
    using winv_submit [OF w sub(2-7) _ sub(9), unfolded sub(8)] src1 sub(10) proom
    by (simp add: block_source_def)
  then have inv1: "sinv E (G\<lparr>g_log := L @ [?e]\<rparr>) B (B n \<noteq> zeros (block_size (config s))) (Suc n) ?s1"
    using inv order_ok_data [of B _ _ L n ?j] n by (auto simp: sinv_def outer_at_def log_closed_def)
  have k1: "keeps (s\<lparr>sq := q\<rparr>) ?s1" using keeps_submitted [of s sub] by (simp add: keeps_def)
  have sq1: "sq_ok (L @ [?e]) ?s1" by (rule sq_ok_keeps [OF q(3) k1]) simp
  have "keeps s ?s1" using k1 q(2) by (simp add: keeps_def)
  then have "ensures (hash_completed_submissions E ?s1) (\<lambda>(r, s'). r = 0 \<and> cinv E G B (B n \<noteq> zeros (block_size (config s))) (Suc n) s' \<and> keeps s s')"
    using hash_completed_ok [OF inv1 sq1] sq_ok_len [OF sq1] keeps_trans
    unfolding hash_completed_submissions_def by (auto elim!: ensures_mono)
  moreover have "s64 (int n + 1) = int (Suc n)" using n by simp
  ultimately show ?thesis unfolding enqueue_data_block_def
    using sub(1) q(1) bi hash_pool_submit_ok [OF w proom(1), where sub = sub and q = q] sub(8)
    by (auto elim!: ensures_mono)
qed

lemma submit_data_block_ok:
  assumes inv: "cinv E G B t n s" and src: "block_source G s buf len co flags (B n)" and n: "Suc n < 2 ^ 62"
  shows "ensures (submit_data_block E buf len co flags s)
    (\<lambda>(r, s'). r = 0 \<and> cinv E G B (B n \<noteq> zeros (block_size (config s))) (Suc n) s' \<and> keeps s s')"
proof -
  let ?Q = "\<lambda>(r, s'). r = 0 \<and> cinv E G B (B n \<noteq> zeros (block_size (config s))) (Suc n) s' \<and> keeps s s'"
  have "ensures (yield E s1) (\<lambda>s2. ensures (enqueue_data_block E buf len co flags s2) ?Q)"
    if k1: "keeps s s1" and inv1: "sinv E (G\<lparr>g_log := L\<rparr>) B t n s1" and sq1: "sq_ok L s1"
      and room: "length L < sq_size (sq s1)" for s1 L
  proof (rule ensures_mono [OF yield_ok])
    show "winv E (G\<lparr>g_log := L\<rparr>) s1" using inv1 by (simp add: sinv_def)
    fix s2 assume "step_ok E (G\<lparr>g_log := L\<rparr>) s1 s2"
    from sinv_step [OF inv1 this] have inv2: "sinv E (G\<lparr>g_log := L\<rparr>) B t n s2"
      and k2: "keeps s s2" and sq2: "sq_ok L s2" and q2: "sq s2 = sq s1"
      using keeps_trans [OF k1] sq_ok_keeps [OF sq1] by auto
    have "length L < sq_size (sq s2)" using room q2 by simp
    from enqueue_data_block_ok [OF inv2 sq2 this block_source_keeps [OF src k2] n]
    show "ensures (enqueue_data_block E buf len co flags s2) ?Q"
      using k2 by (auto elim!: ensures_mono intro: keeps_trans simp: keeps_def)
  qed
  then show ?thesis unfolding submit_data_block_def ensures_bind
    by (intro ensures_mono [OF maybe_hash_first_ok [OF inv]]) auto
qed

section \<open>Consuming blocks\<close>

lemma cinv_weaken: "cinv E G B t n s \<Longrightarrow> (t' \<Longrightarrow> t) \<Longrightarrow> cinv E G B t' n s"
  by (fastforce simp: cinv_def sinv_def)

lemma cinv_cong:
  assumes "cinv E G B t n s" and B: "\<And>i. i < n \<Longrightarrow> B' i = B i"
  shows "cinv E G B' t n s"
proof -
  obtain L h where L: "sinv E (G\<lparr>g_log := L\<rparr>) B t n s" "sq_ok L s" "outer_at E (G\<lparr>g_log := L\<rparr>) B h s"
      "order_ok B (block_size (config s)) h L n" "t \<longrightarrow> log_closed (block_size (config s)) h L n"
    using assms by (auto simp: cinv_def sinv_def)
  have "h \<le> n" using order_ok_le [OF L(4)] .
  then have "block_digests hash B' h = block_digests hash B h" for hash
    using B by (intro block_digests_cong) simp
  then have "outer_at E (G\<lparr>g_log := L\<rparr>) B' h s" using L(3) by (simp add: outer_at_def)
  moreover have "order_ok B' (block_size (config s)) h L n" using order_ok_cong [OF B L(4)] by simp
  ultimately show ?thesis using L(1,2,5) by (auto simp: cinv_def sinv_def)
qed

lemma consume_zero_blocks_ok:
  assumes inv: "cinv E G B t n s" and n: "n + k < 2 ^ 62"
    and z: "\<And>i. n \<le> i \<Longrightarrow> i < n + k \<Longrightarrow> B i = zeros (block_size (config s))"
  shows "ensures (consume_zero_blocks E k s) (\<lambda>(r, s'). r = 0 \<and> cinv E G B False (n + k) s' \<and> keeps s s')"
proof -
  obtain L where L: "sinv E (G\<lparr>g_log := L\<rparr>) B t n s" "sq_ok L s" using inv by (auto simp: cinv_def)
  let ?s = "s\<lparr>block_index := int (n + k)\<rparr>"
  have bi: "s64 (block_index s + int k) = int (n + k)" using L(1) n by (simp add: sinv_def)
  have "sinv E (G\<lparr>g_log := L\<rparr>) B False (n + k) ?s"
    using L(1) n order_ok_zero [OF _ _ z] by (auto simp: sinv_def outer_at_def)
  moreover have "sq_ok L ?s" using L(2) by (simp add: sq_ok_def)
  ultimately have c: "cinv E G B False (n + k) ?s" by (auto simp: cinv_def)
  have k: "keeps s ?s" by (simp add: keeps_def)
  have "ensures (submit_zero_block E ?s) (\<lambda>(r, s'). r = 0 \<and> cinv E G B False (n + k) s' \<and> keeps s s')"
    using submit_zero_block_ok [OF c]
    by (rule ensures_mono) (use keeps_trans [OF k] cinv_weaken in blast)
  with c k bi show ?thesis by (simp add: consume_zero_blocks_def Let_def)
qed

lemma consume_data_block_ok:
  assumes inv: "cinv E G B t n s" and src: "block_source G s buf len co flags (B n)" and n: "Suc n < 2 ^ 62"
  shows "ensures (consume_data_block E buf len co flags s)
    (\<lambda>(r, s'). r = 0 \<and> cinv E G B (len < block_size (config s)) (Suc n) s' \<and> keeps s s')"
proof -
  let ?bs = "block_size (config s)"
  have load: "load s buf len = Some (B n)" "length (B n) = len" using src by (auto simp: block_source_def)
  have bs: "16 \<le> ?bs" using inv winvD(6) by (auto simp: cinv_def sinv_def)
  have zero: "is_zero_block buf len s = Some (len = ?bs \<and> B n = zeros ?bs)"
    using load bs by (auto simp: is_zero_block_def is_zero_value)
  show ?thesis
  proof (cases "flags = SUBMIT_COPY_DATA \<and> len = ?bs \<and> B n = zeros ?bs")
    case True
    then have "ensures (consume_zero_blocks E 1 s) (\<lambda>(r, s'). r = 0 \<and> cinv E G B False (n + 1) s' \<and> keeps s s')"
      using n by (intro consume_zero_blocks_ok [OF inv]) (auto simp: le_less_Suc_eq)
    with True zero show ?thesis by (simp add: consume_data_block_def SUBMIT_COPY_DATA_def)
  next
    case False
    have "flags = SUBMIT_COPY_DATA \<or> flags = 0" using src by (auto simp: block_source_def)
    moreover have "ensures (submit_data_block E buf len co flags s)
        (\<lambda>(r, s'). r = 0 \<and> cinv E G B (len < ?bs) (Suc n) s' \<and> keeps s s')"
      using submit_data_block_ok [OF inv src n] load(2) by (auto elim!: ensures_mono cinv_weaken)
    ultimately show ?thesis using False zero by (auto simp: consume_data_block_def SUBMIT_COPY_DATA_def)
  qed
qed

end
