(* ===== verification/Message.thy ===== *)
theory Message
  imports Hashing
begin

text \<open>
  From blocks to messages: the pending buffer, the loop over the blocks of an update, and the
  public operations as functions on the message hashed so far.
\<close>

section \<open>The pending buffer\<close>

text \<open>The buffer stands for the bytes \<open>rest\<close>, as data or as a number of zeros.\<close>

definition pending_ok :: "nat \<Rightarrow> bytes \<Rightarrow> buffer \<Rightarrow> bool" where
  "pending_ok bs rest b \<longleftrightarrow>
     length (buf_data b) = bs \<and> buf_len b = length rest \<and> length rest \<le> bs \<and>
     (if buf_zero b then rest = zeros (length rest) else take (length rest) (buf_data b) = rest)"

lemma add_pending_data_ok:
  assumes p: "pending_ok (block_size (config s)) rest (pending s)" and bs: "block_size (config s) < 2 ^ 32"
    and x: "x = min len (block_size (config s) - length rest)"
  shows "\<exists>b. add_pending_data (User a) len s = Some (x, s\<lparr>pending := b\<rparr>) \<and>
    pending_ok (block_size (config s)) (rest @ map (mem s) [a..<a + x]) b \<and>
    buf_data_mem b = buf_data_mem (pending s)"
proof -
  let ?bs = "block_size (config s)" and ?b = "pending s"
  define data where "data = (if buf_zero ?b then take 0 (buf_data ?b) @ zeros (length rest) @
      drop (0 + length rest) (buf_data ?b) else buf_data ?b)"
  have data: "length data = ?bs" "take (length rest) data = rest"
    using p by (auto simp: data_def pending_ok_def)
  have sub: "min len (sub64 ?bs (buf_len ?b)) = x" using p bs x by (simp add: pending_ok_def)
  have x': "length rest + x \<le> ?bs" using p x by (auto simp: pending_ok_def)
  let ?r = "?b\<lparr>buf_data := take (length rest) data @ map (mem s) [a..<a + x] @ drop (length rest + x) data,
      buf_zero := False, buf_len := length rest + x\<rparr>"
  have "u64 (length rest + x) = length rest + x" using x' bs by simp
  then have "add_pending_data (User a) len s = Some (x, s\<lparr>pending := ?r\<rparr>)"
    using p sub x' data unfolding add_pending_data_def Let_def sub
    by (auto simp: pending_ok_def memset_at_def memcpy_at_def data_def)
  moreover have "pending_ok ?bs (rest @ map (mem s) [a..<a + x]) ?r"
    using data x' by (simp add: pending_ok_def)
  ultimately show ?thesis by (intro exI [of _ ?r]) simp
qed

lemma add_pending_zeros_ok:
  assumes p: "pending_ok (block_size (config s)) rest (pending s)" and bs: "block_size (config s) < 2 ^ 32"
    and x: "x = min len (block_size (config s) - length rest)"
  shows "\<exists>b. add_pending_zeros len s = Some (x, s\<lparr>pending := b\<rparr>) \<and>
    pending_ok (block_size (config s)) (rest @ zeros x) b \<and>
    buf_data_mem b = buf_data_mem (pending s)"
proof -
  let ?bs = "block_size (config s)" and ?b = "pending s"
  have sub: "min len (sub64 ?bs (buf_len ?b)) = x" using p bs x by (simp add: pending_ok_def)
  have x': "length rest + x \<le> ?bs" using p x by (auto simp: pending_ok_def)
  have u: "u64 (length rest + x) = length rest + x" using x' bs by simp
  show ?thesis
  proof (cases "rest = [] \<or> buf_zero ?b")
    case True
    have zrest: "rest @ zeros x = zeros (length rest + x)"
      using True p by (auto simp: pending_ok_def replicate_add)
    let ?r = "?b\<lparr>buf_zero := True, buf_len := length rest + x\<rparr>"
    have "add_pending_zeros len s = Some (x, s\<lparr>pending := ?r\<rparr>)"
      using p sub x' True u by (auto simp: add_pending_zeros_def Let_def pending_ok_def)
    moreover have "pending_ok ?bs (rest @ zeros x) ?r"
      using p x' unfolding zrest by (simp add: pending_ok_def)
    ultimately show ?thesis by (intro exI [of _ ?r]) simp
  next
    case False
    let ?r = "?b\<lparr>buf_data := take (length rest) (buf_data ?b) @ zeros x @ drop (length rest + x) (buf_data ?b),
        buf_len := length rest + x\<rparr>"
    have "add_pending_zeros len s = Some (x, s\<lparr>pending := ?r\<rparr>)"
      using p sub x' False u
      by (auto simp: add_pending_zeros_def Let_def pending_ok_def memset_at_def memcpy_at_def)
    moreover have "pending_ok ?bs (rest @ zeros x) ?r"
      using p x' False by (simp add: pending_ok_def)
    ultimately show ?thesis by (intro exI [of _ ?r]) simp
  qed
qed

text \<open>What a call leaves alone.\<close>

definition ckeeps :: "('x, 'k) sys \<Rightarrow> ('x, 'k) sys \<Rightarrow> bool" where
  "ckeeps s s' \<longleftrightarrow>
     keeps (s\<lparr>pending := pending s'\<rparr>) s' \<and> buf_data_mem (pending s') = buf_data_mem (pending s)"

lemma ckeeps_refl [simp]: "ckeeps s s"
  by (simp add: ckeeps_def)

lemma ckeeps_trans: "ckeeps s s' \<Longrightarrow> ckeeps s' s'' \<Longrightarrow> ckeeps s s''"
  by (simp add: ckeeps_def keeps_def)

lemma keeps_ckeeps: "keeps s s' \<Longrightarrow> ckeeps s s'"
  by (simp add: ckeeps_def keeps_def)

lemma ckeeps_pending: "buf_data_mem b = buf_data_mem (pending s) \<Longrightarrow> ckeeps s (s\<lparr>pending := b\<rparr>)"
  by (simp add: ckeeps_def keeps_def)

lemma ckeepsD:
  "ckeeps s s' \<Longrightarrow> config s' = config s" "ckeeps s s' \<Longrightarrow> mem s' = mem s"
  "ckeeps s s' \<Longrightarrow> message_length s' = message_length s" "ckeeps s s' \<Longrightarrow> finalized s' = finalized s"
  "ckeeps s s' \<Longrightarrow> inflight s' = inflight s"
  by (simp_all add: ckeeps_def keeps_def)

lemma cinv_frame [simp]:
  "cinv E G B t n (s\<lparr>pending := b\<rparr>) \<longleftrightarrow> cinv E G B t n s"
  "cinv E G B t n (s\<lparr>message_length := w\<rparr>) \<longleftrightarrow> cinv E G B t n s"
  "cinv E G B t n (s\<lparr>finalized := f\<rparr>) \<longleftrightarrow> cinv E G B t n s"
  by (simp_all add: cinv_def sinv_def outer_at_def sq_ok_def)

lemma cinv_bs: "cinv E G B t n s \<Longrightarrow> 16 \<le> block_size (config s) \<and> block_size (config s) < 2 ^ 32"
  using winvD(6) by (auto simp: cinv_def sinv_def)

lemma consume_pending_ok:
  assumes inv: "cinv E G B False n s" and p: "pending_ok (block_size (config s)) rest (pending s)"
    and rest: "B n = rest" and co: "co = None \<or> co = g_held G" and n: "Suc n < 2 ^ 62"
  shows "ensures (consume_pending E co s)
    (\<lambda>(r, s'). r = 0 \<and> cinv E G B (length rest < block_size (config s)) (Suc n) s' \<and> pending_ok (block_size (config s)) [] (pending s') \<and>
       ckeeps s s')"
proof -
  let ?bs = "block_size (config s)" and ?b = "pending s"
  let ?clear = "\<lambda>s. s\<lparr>pending := (pending s)\<lparr>buf_len := 0, buf_zero := False\<rparr>\<rparr>"
  have clear: "cinv E G B t (Suc n) (?clear s') \<and> pending_ok ?bs [] (pending (?clear s')) \<and> ckeeps s (?clear s')"
    if "cinv E G B t (Suc n) s'" "keeps (s\<lparr>pending := b\<rparr>) s'" "length (buf_data b) = ?bs"
      "buf_data_mem b = buf_data_mem ?b" for b s' t
    using that by (auto simp: pending_ok_def ckeeps_def keeps_def)
  show ?thesis
  proof (cases "buf_len ?b = ?bs \<and> buf_zero ?b")
    case True
    then have "B n = zeros ?bs" using p rest by (simp add: pending_ok_def)
    then have "ensures (consume_zero_blocks E 1 s) (\<lambda>(r, s'). r = 0 \<and> cinv E G B False (n + 1) s' \<and> keeps s s')"
      using n by (intro consume_zero_blocks_ok [OF inv]) (auto simp: le_less_Suc_eq)
    then show ?thesis
      unfolding consume_pending_def using True p clear [of False _ ?b]
      by (auto simp: pending_ok_def elim!: ensures_mono)
  next
    case False
    define b where "b = (if buf_zero ?b then ?b\<lparr>buf_data := zeros (length rest) @ drop (length rest) (buf_data ?b)\<rparr> else ?b)"
    have b: "length (buf_data b) = ?bs" "take (length rest) (buf_data b) = rest" "buf_len b = length rest"
        "buf_data_mem b = buf_data_mem ?b" "length rest \<le> ?bs"
      using p by (auto simp: b_def pending_ok_def)
    have "block_source G (s\<lparr>pending := b\<rparr>) Pending_data (length rest) co SUBMIT_COPY_DATA (B n)"
      using b co rest by (auto simp: block_source_def load_array_def)
    then have "ensures (consume_data_block E Pending_data (length rest) co SUBMIT_COPY_DATA (s\<lparr>pending := b\<rparr>))
        (\<lambda>(r, s'). r = 0 \<and> cinv E G B (length rest < ?bs) (Suc n) s' \<and> keeps (s\<lparr>pending := b\<rparr>) s')"
      using n inv consume_data_block_ok [of E G B False n "s\<lparr>pending := b\<rparr>"] by simp
    then have *: "ensures (consume_data_block E Pending_data (length rest) co SUBMIT_COPY_DATA (s\<lparr>pending := b\<rparr>))
        (\<lambda>(r, s'). r = 0 \<and> cinv E G B (length rest < ?bs) (Suc n) (?clear s') \<and> pending_ok ?bs [] (pending (?clear s')) \<and>
           ckeeps s (?clear s'))"
      by (rule ensures_mono) (use clear [of _ _ b] b in auto)
    then show ?thesis
      unfolding consume_pending_def using False p b
      by (cases "buf_zero ?b")
        (auto simp: b_def pending_ok_def Let_def elim!: ensures_mono)
  qed
qed

section \<open>Updating\<close>

text \<open>The invariant between calls: the message hashed so far is \<open>m\<close>.\<close>

definition minv :: "('x, 'k) ext \<Rightarrow> ('x, 'k) ghost \<Rightarrow> bytes \<Rightarrow> ('x, 'k) sys \<Rightarrow> bool" where
  "minv E G m s \<longleftrightarrow>
     (let bs = block_size (config s); n = length m div bs
      in cinv E G (blk bs m) False n s \<and> pending_ok bs (drop (n * bs) m) (pending s) \<and> length m < 2 ^ 62)"

text \<open>Who owns the bytes of an update.\<close>

definition update_source :: "('x, 'k) ghost \<Rightarrow> nat option \<Rightarrow> 8 word \<Rightarrow> nat \<Rightarrow> nat \<Rightarrow> bool" where
  "update_source G co flags a len \<longleftrightarrow>
     (co = None \<or> co = g_held G) \<and>
     (flags = SUBMIT_COPY_DATA \<or> flags = 0 \<and> co \<noteq> None \<and>
        (\<exists>u a0 n0 rest. g_out G = (u, a0, n0) # rest \<and> a0 \<le> a \<and> a + len \<le> a0 + n0))"

lemma update_source_sub:
  "update_source G co flags a len \<Longrightarrow> a \<le> a' \<Longrightarrow> a' + len' \<le> a + len \<Longrightarrow> update_source G co flags a' len'"
  by (fastforce simp: update_source_def)

lemma load_range:
  "map f [a..<a + len] = drop k m \<Longrightarrow> x \<le> len \<Longrightarrow> map f [a + x..<a + len] = drop (k + x) m"
  by (metis add.commute drop_drop drop_map drop_upt)

lemma load_block:
  assumes "map f [a..<a + len] = drop k m" and "x \<le> len"
  shows "map f [a..<a + x] = take x (drop k m)"
  unfolding assms(1) [symmetric] using assms(2) by (simp add: take_map)

lemma blocks_bound:
  assumes "n * bs \<le> length (m :: bytes)" and "length m < 2 ^ 62" and "16 \<le> bs"
  shows "Suc n < 2 ^ 62"
proof -
  have "n * 16 \<le> n * bs" using assms(3) by simp
  then have "n * 16 < 2 ^ 62" using assms(1,2) by (meson le_less_trans)
  then show ?thesis by simp
qed

lemma update_blocks_ok:
  assumes "cinv E G (blk bs m) False n s" and "block_size (config s) = bs"
    and "map (mem s) [a..<a + len] = drop (n * bs) m" and "n * bs + len = length m"
    and "update_source G co flags a len" and "length m < 2 ^ 62"
  shows "ensures (update_blocks E a len co flags s)
    (\<lambda>(r, a', len', s'). r = 0 \<and> a' + len' = a + len \<and> len' \<le> len \<and> len' < bs \<and>
       (\<exists>n'. n' * bs + len' = length m \<and> cinv E G (blk bs m) False n' s') \<and> keeps s s')"
  using assms
proof (induction len arbitrary: n a s rule: less_induct)
  case (less len)
  note bs = less.prems(2)
  have bs16: "16 \<le> bs" using cinv_bs [OF less.prems(1)] bs by simp
  show ?case
  proof (cases "bs \<le> len")
    case False
    then show ?thesis
      using less.prems by (subst update_blocks.simps) auto
  next
    case True
    have data: "map (mem s) [a..<a + bs] = blk bs m n"
      using load_block [OF less.prems(3) True] by (simp add: blk_def)
    have src: "block_source G s (User a) bs co flags (blk bs m n)"
      using less.prems(5) True data [symmetric]
      by (fastforce simp: block_source_def update_source_def bs)
    have "n * bs \<le> length m" using less.prems(4) by simp
    then have n: "Suc n < 2 ^ 62" using blocks_bound less.prems(6) bs16 by blast
    have step: "ensures (if r \<noteq> 0 then Some (error s', a, len, s')
        else update_blocks E (a + bs) (len - bs) co flags s')
      (\<lambda>(r, a', len', s'). r = 0 \<and> a' + len' = a + len \<and> len' \<le> len \<and> len' < bs \<and>
       (\<exists>n'. n' * bs + len' = length m \<and> cinv E G (blk bs m) False n' s') \<and> keeps s s')"
      if st: "r = 0 \<and> cinv E G (blk bs m) False (Suc n) s' \<and> keeps s s'" for r s'
    proof -
      have k: "block_size (config s') = bs" "mem s' = mem s" using st bs by (auto simp: keeps_def)
      have "ensures (update_blocks E (a + bs) (len - bs) co flags s')
        (\<lambda>(r, a', len', s''). r = 0 \<and> a' + len' = a + bs + (len - bs) \<and> len' \<le> len - bs \<and> len' < bs \<and>
          (\<exists>n'. n' * bs + len' = length m \<and> cinv E G (blk bs m) False n' s'') \<and> keeps s' s'')"
        using st k True bs16 less.prems update_source_sub [OF less.prems(5), of "a + bs" "len - bs"]
          load_range [OF less.prems(3) True]
        by (intro less.IH) (auto simp: add.commute)
      then show ?thesis using st True by (auto elim!: ensures_mono intro: keeps_trans)
    qed
    show ?thesis
      using True bs ensures_mono [OF consume_data_block_ok [OF less.prems(1) src n]] step
      by (subst update_blocks.simps) (auto elim!: ensures_mono [rotated])
  qed
qed

lemma minvI:
  assumes "cinv E G (blk bs m) False n s" and "block_size (config s) = bs" and "n * bs + k = length m" and "k < bs"
    and "pending_ok bs (drop (n * bs) m) (pending s)" and "length m < 2 ^ 62"
  shows "minv E G m s"
  using assms blocks_done [OF assms(3,4)] by (simp add: minv_def Let_def)

lemma update_rest_ok:
  assumes inv: "cinv E G (blk bs m) False n s" and bs: "block_size (config s) = bs" and p: "pending_ok bs [] (pending s)"
    and data: "map (mem s) [a..<a + len] = drop (n * bs) m" and len: "n * bs + len = length m"
    and src: "update_source G co flags a len" and m: "length m < 2 ^ 62"
  shows "ensures (update_rest E a len co flags s)
    (\<lambda>(r, s'). r = 0 \<and> minv E G m s' \<and> ckeeps s s')"
proof -
  have rest: "ensures (if r \<noteq> 0 then Some (r, s')
       else if len' > 0 then do { (n, s) \<leftarrow> add_pending_data (User a') len' s'; Some (0, s) }
       else Some (0, s')) (\<lambda>(r, s'). r = 0 \<and> minv E G m s' \<and> ckeeps s s')"
    if r: "r = 0" and a': "a' + len' = a + len" and len': "len' < bs" "n' * bs + len' = length m" "len' \<le> len"
      and inv': "cinv E G (blk bs m) False n' s'" and k: "keeps s s'" for r a' len' n' s'
  proof -
    have k': "config s' = config s" "mem s' = mem s" "pending s' = pending s" using k by (auto simp: keeps_def)
    have b32: "block_size (config s') < 2 ^ 32" using cinv_bs [OF inv'] by simp
    have "n' * bs = n * bs + (len - len')" "a' = a + (len - len')" using len len' a' by linarith+
    then have d: "map (mem s') [a'..<a' + len'] = drop (n' * bs) m"
      using load_range [OF data, of "len - len'"] len'(3) k' by simp
    show ?thesis
    proof (cases "len' = 0")
      case True
      then show ?thesis using r inv' k len' k' bs p m d minvI [OF inv' _ len'(2,1)] keeps_ckeeps by auto
    next
      case False
      obtain b where b: "add_pending_data (User a') len' s' = Some (len', s'\<lparr>pending := b\<rparr>)"
          "pending_ok bs (drop (n' * bs) m) b" "buf_data_mem b = buf_data_mem (pending s')"
        using add_pending_data_ok [of s' "[]" len' len' a'] k' p bs b32 len' d by auto
      then show ?thesis
        using False r inv' k k' len' m bs minvI [of E G bs m n' "s'\<lparr>pending := b\<rparr>" len']
          ckeeps_trans [OF keeps_ckeeps [OF k] ckeeps_pending [OF b(3)]] by simp
    qed
  qed
  show ?thesis
    unfolding update_rest_def
  proof (subst ensures_bind, rule ensures_mono [OF update_blocks_ok [OF inv bs data len src m]], clarify, goal_cases)
    case (1 r a' len' s' n')
    from rest [of 0 a' len' n' s'] 1 show ?case by simp
  qed
qed

lemma minvD:
  assumes "minv E G m s"
  shows "cinv E G (blk (block_size (config s)) m) False (length m div block_size (config s)) s"
    and "pending_ok (block_size (config s)) (drop (length m div block_size (config s) * block_size (config s)) m)
      (pending s)"
    and "16 \<le> block_size (config s)" and "block_size (config s) < 2 ^ 32"
    and "length (drop (length m div block_size (config s) * block_size (config s)) m) < block_size (config s)"
    and "length m div block_size (config s) * block_size (config s) \<le> length m"
proof -
  let ?bs = "block_size (config s)"
  show c: "cinv E G (blk ?bs m) False (length m div ?bs) s"
    and "pending_ok ?bs (drop (length m div ?bs * ?bs) m) (pending s)"
    using assms by (simp_all add: minv_def Let_def)
  show "16 \<le> ?bs" and "?bs < 2 ^ 32" using cinv_bs [OF c] by auto
  then show "length (drop (length m div ?bs * ?bs) m) < ?bs"
    by (simp add: minus_div_mult_eq_mod)
  show "length m div ?bs * ?bs \<le> length m" by simp
qed

text \<open>The message grows: the blocks that were consumed are the same.\<close>

lemma cinv_append:
  assumes "cinv E G (blk bs m) False (length m div bs) s"
  shows "cinv E G (blk bs (m @ d)) False (length m div bs) s"
  by (rule cinv_cong [OF assms]) (rule blk_consumed)

lemma update_pending_ok:
  assumes inv: "minv E G m s" and d: "d = map (mem s) [a..<a + len]" and bs: "block_size (config s) = bs"
    and co: "co = None \<or> co = g_held G" and m: "length m + len < 2 ^ 62"
  shows "ensures (update_pending E a len co s) (\<lambda>(r, a', len', s'). r = 0 \<and> ckeeps s s' \<and>
    a \<le> a' \<and> a' + len' = a + len \<and>
    (len' = 0 \<and> minv E G (m @ d) s' \<or>
     (\<exists>n. cinv E G (blk bs (m @ d)) False n s' \<and> pending_ok bs [] (pending s') \<and>
        map (mem s') [a'..<a' + len'] = drop (n * bs) (m @ d) \<and> n * bs + len' = length (m @ d))))"
proof -
  define n where "n = length m div bs"
  define rest where "rest = drop (n * bs) m"
  note D = minvD [OF inv, unfolded bs, folded n_def, folded rest_def]
  have inv': "cinv E G (blk bs (m @ d)) False n s" using cinv_append D(1) unfolding n_def .
  have m': "length (m @ d) < 2 ^ 62" and len: "n * bs + length rest = length m" "length d = len"
    and drop: "drop (n * bs) (m @ d) = rest @ d"
    using m d D(6) by (simp_all add: rest_def)
  show ?thesis
  proof (cases "rest = []")
    case True
    then show ?thesis
      using inv' D(2) drop d len by (auto simp: update_pending_def pending_ok_def)
  next
    case rest: False
    define x where "x = min len (bs - length rest)"
    have xd: "map (mem s) [a..<a + x] = take x d" using d x_def by (simp add: take_map)
    obtain b where b: "add_pending_data (User a) len s = Some (x, s\<lparr>pending := b\<rparr>)"
        "pending_ok bs (rest @ take x d) b" "buf_data_mem b = buf_data_mem (pending s)"
      using add_pending_data_ok [of s rest x len a] D(2,4) bs x_def xd by auto
    have k: "ckeeps s (s\<lparr>pending := b\<rparr>)" using ckeeps_pending [OF b(3)] .
    have pos: "buf_len (pending s) > 0" "buf_len b = length rest + x"
      using rest D(2) b(2) len(2) by (auto simp: pending_ok_def x_def)
    show ?thesis
    proof (cases "length rest + x = bs")
      case False
      then have xl: "x = len" using D(5) by (auto simp: x_def)
      then have "minv E G (m @ d) (s\<lparr>pending := b\<rparr>)"
        using False inv' b(2) len drop m' D(5) bs
        by (intro minvI [where n = n and k = "length rest + len" and bs = bs]) (auto simp: x_def)
      with k xl False pos b(1) bs show ?thesis by (auto simp: update_pending_def)
    next
      case True
      have sn: "Suc n * bs = length m + x" "x \<le> len" using len True by (auto simp: x_def)
      have "blk bs (m @ d) n = rest @ take x d" using drop by (simp add: blk_def True [symmetric])
      moreover have "Suc n < 2 ^ 62" using blocks_bound [OF D(6)] m D(3) by simp
      ultimately have cons: "ensures (consume_pending E co (s\<lparr>pending := b\<rparr>)) (\<lambda>(r, s'). r = 0 \<and>
          cinv E G (blk bs (m @ d)) False (Suc n) s' \<and> pending_ok bs [] (pending s') \<and> ckeeps s s')"
        using consume_pending_ok [of E G "blk bs (m @ d)" n "s\<lparr>pending := b\<rparr>" "rest @ take x d" co]
          inv' b(2) bs co by (auto elim!: ensures_mono cinv_weaken intro: ckeeps_trans [OF k])
      have data: "map (mem s) [a + x..<a + len] = drop (Suc n * bs) (m @ d)" "Suc n * bs + (len - x) = length (m @ d)"
        unfolding sn(1) using load_range [of "mem s" a len "length m" "m @ d" x] d sn(2) len(2) by simp_all
      have "ensures (consume_pending E co (s\<lparr>pending := b\<rparr>)) (\<lambda>(r, s'). r = 0 \<and> ckeeps s s' \<and>
          (\<exists>n. cinv E G (blk bs (m @ d)) False n s' \<and> pending_ok bs [] (pending s') \<and>
            map (mem s') [a + x..<a + len] = drop (n * bs) (m @ d) \<and> n * bs + (len - x) = length (m @ d)))"
        by (rule ensures_mono [OF cons]) (use data ckeepsD(2) in fastforce)
      then show ?thesis
        unfolding update_pending_def using pos b(1) True bs sn(2) by (auto elim!: ensures_mono)
    qed
  qed
qed

lemma do_update_ok:
  assumes inv: "minv E G m s" and d: "d = map (mem s) [a..<a + len]"
    and src: "update_source G co flags a len" and m: "length m + len < 2 ^ 62"
  shows "ensures (do_update E a len co flags s) (\<lambda>(r, s'). r = 0 \<and> minv E G (m @ d) s' \<and> ckeeps s s')"
proof -
  define bs where "bs = block_size (config s)"
  have co: "co = None \<or> co = g_held G" using src by (simp add: update_source_def)
  have m': "length (m @ d) < 2 ^ 62" using m d by simp
  show ?thesis
    unfolding do_update_def
  proof (subst ensures_bind, rule ensures_mono [OF update_pending_ok [OF inv d bs_def [symmetric] co m]],
      clarify, goal_cases)
    case (1 r a' len' s')
    have bs': "block_size (config s') = bs" using ckeepsD(1) [OF 1(1)] bs_def by simp
    have src': "update_source G co flags a' len'" using update_source_sub [OF src] 1(2,3) by simp
    from 1(4) have "ensures (update_rest E a' len' co flags s')
        (\<lambda>(r, s''). r = 0 \<and> minv E G (m @ d) s'' \<and> ckeeps s' s'')"
    proof (elim disjE conjE exE)
      assume "len' = 0" and i: "minv E G (m @ d) s'"
      then show ?thesis
        using minvD(3) [OF i] by (auto simp: update_rest_def update_blocks.simps [of E _ 0])
    next
      fix n assume "cinv E G (blk bs (m @ d)) False n s'" "pending_ok bs [] (pending s')"
        "map (mem s') [a'..<a' + len'] = drop (n * bs) (m @ d)" "n * bs + len' = length (m @ d)"
      then show ?thesis using update_rest_ok bs' src' m' by blast
    qed
    then show ?case using ckeeps_trans [OF 1(1)] by (auto elim!: ensures_mono)
  qed
qed

section \<open>Zeros\<close>

lemma zero_blocks:
  assumes z: "drop (n * bs) m = zeros len" and "n \<le> i" and "i < n + len div bs"
  shows "blk bs m i = zeros bs"
proof -
  have "Suc (i - n) * bs \<le> len div bs * bs" using assms by (intro mult_le_mono1) linarith
  also have "\<dots> \<le> len" by simp
  finally have le: "(i - n) * bs + bs \<le> len" by simp
  have "drop (i * bs) m = drop ((i - n) * bs) (drop (n * bs) m)"
    using assms(2) by (simp add: algebra_simps)
  then show ?thesis using le z by (simp add: blk_def)
qed

lemma zero_rest_ok:
  assumes inv: "cinv E G (blk bs m) False n s" and bs: "block_size (config s) = bs" and p: "pending_ok bs [] (pending s)"
    and data: "drop (n * bs) m = zeros len" and len: "n * bs + len = length m" and m: "length m < 2 ^ 62"
  shows "ensures (zero_rest E len s)
    (\<lambda>(r, s'). r = 0 \<and> minv E G m s' \<and> ckeeps s s')"
proof -
  let ?n = "n + len div bs" and ?l = "len mod bs"
  have bs16: "16 \<le> bs" "bs < 2 ^ 32" using cinv_bs [OF inv] bs by auto
  have eq: "?n * bs + ?l = length m" using len by (simp add: algebra_simps)
  then have n: "Suc ?n < 2 ^ 62" using blocks_bound [of ?n bs m] m bs16 by simp
  have data': "drop (?n * bs) m = zeros ?l"
  proof -
    have "drop (?n * bs) m = drop (len div bs * bs) (drop (n * bs) m)" by (simp add: algebra_simps)
    then show ?thesis using data by (simp add: minus_div_mult_eq_mod)
  qed
  have l: "?l < bs" using bs16 by simp
  have blocks: "ensures (if len \<ge> block_size (config s) then do {
              assert_that (block_size (config s) \<noteq> 0);
              (r, s) \<leftarrow> consume_zero_blocks E (len div block_size (config s)) s;
              Some (if r \<noteq> 0 then error s else 0, len mod block_size (config s), s)
            } else Some (0, len, s))
      (\<lambda>(r, l, s'). r = 0 \<and> l = ?l \<and> cinv E G (blk bs m) False ?n s' \<and> keeps s s')"
    using consume_zero_blocks_ok [OF inv, of "len div bs"] zero_blocks [OF data] n bs bs16 inv
    by (auto elim!: ensures_mono simp: keeps_def)
  have rest: "ensures (if ?l > 0 then do { (n, s) \<leftarrow> add_pending_zeros ?l s'; Some (0, s) } else Some (0, s'))
      (\<lambda>(r, s'). r = 0 \<and> minv E G m s' \<and> ckeeps s s')"
    if inv': "cinv E G (blk bs m) False ?n s'" and k: "keeps s s'" for s'
  proof -
    have k': "config s' = config s" "pending s' = pending s" using k by (auto simp: keeps_def)
    obtain b where b: "add_pending_zeros ?l s' = Some (?l, s'\<lparr>pending := b\<rparr>)"
        "pending_ok bs (drop (?n * bs) m) b" "buf_data_mem b = buf_data_mem (pending s')"
      using add_pending_zeros_ok [of s' "[]" ?l ?l] k' p bs bs16 l data' by auto
    show ?thesis
      using inv' k k' bs m b p data' minvI [of E G bs m ?n s' ?l, OF inv' _ eq l]
        minvI [of E G bs m ?n "s'\<lparr>pending := b\<rparr>" ?l, OF _ _ eq l]
        ckeeps_trans [OF keeps_ckeeps [OF k] ckeeps_pending [OF b(3)]] keeps_ckeeps [OF k] by auto
  qed
  show ?thesis
    unfolding zero_rest_def
  proof (subst ensures_bind, rule ensures_mono [OF blocks], clarify, goal_cases)
    case (1 r l s')
    from rest [OF 1] show ?case by simp
  qed
qed

lemma zero_pending_ok:
  assumes inv: "minv E G m s" and bs: "block_size (config s) = bs" and m: "length m + len < 2 ^ 62"
  shows "ensures (zero_pending E len s) (\<lambda>(r, len', s'). r = 0 \<and> ckeeps s s' \<and>
    (len' = 0 \<and> minv E G (m @ zeros len) s' \<or>
     (\<exists>n. cinv E G (blk bs (m @ zeros len)) False n s' \<and> pending_ok bs [] (pending s') \<and>
        drop (n * bs) (m @ zeros len) = zeros len' \<and> n * bs + len' = length (m @ zeros len))))"
proof -
  define n where "n = length m div bs"
  define rest where "rest = drop (n * bs) m"
  let ?m = "m @ zeros len"
  note D = minvD [OF inv, unfolded bs, folded n_def, folded rest_def]
  have inv': "cinv E G (blk bs ?m) False n s" using cinv_append D(1) unfolding n_def .
  have m': "length ?m < 2 ^ 62" and len: "n * bs + length rest = length m"
    and drop: "drop (n * bs) ?m = rest @ zeros len"
    using m D(6) by (simp_all add: rest_def)
  show ?thesis
  proof (cases "rest = []")
    case True
    then have "drop (n * bs) ?m = zeros len" "n * bs + len = length ?m" using drop len by auto
    with True inv' D(2) show ?thesis by (auto simp: zero_pending_def pending_ok_def)
  next
    case rest: False
    define x where "x = min len (bs - length rest)"
    obtain b where b: "add_pending_zeros len s = Some (x, s\<lparr>pending := b\<rparr>)"
        "pending_ok bs (rest @ zeros x) b" "buf_data_mem b = buf_data_mem (pending s)"
      using add_pending_zeros_ok [of s rest x len] D(2,4) bs x_def by auto
    have k: "ckeeps s (s\<lparr>pending := b\<rparr>)" using ckeeps_pending [OF b(3)] .
    have pos: "buf_len (pending s) > 0" "buf_len b = length rest + x"
      using rest D(2) b(2) by (auto simp: pending_ok_def)
    show ?thesis
    proof (cases "length rest + x = bs")
      case False
      then have xl: "x = len" using D(5) by (auto simp: x_def)
      then have "minv E G ?m (s\<lparr>pending := b\<rparr>)"
        using False inv' b(2) len drop m' D(5) bs
        by (intro minvI [where n = n and k = "length rest + len" and bs = bs]) (auto simp: x_def)
      with k xl False pos b(1) bs show ?thesis by (auto simp: zero_pending_def)
    next
      case True
      have sn: "Suc n * bs = length m + x" "x \<le> len" using len True by (auto simp: x_def)
      have "blk bs ?m n = rest @ zeros x" using drop sn(2) by (simp add: blk_def True [symmetric])
      moreover have "Suc n < 2 ^ 62" using blocks_bound [OF D(6)] m D(3) by simp
      ultimately have cons: "ensures (consume_pending E None (s\<lparr>pending := b\<rparr>)) (\<lambda>(r, s'). r = 0 \<and>
          cinv E G (blk bs ?m) False (Suc n) s' \<and> pending_ok bs [] (pending s') \<and> ckeeps s s')"
        using consume_pending_ok [of E G "blk bs ?m" n "s\<lparr>pending := b\<rparr>" "rest @ zeros x" None]
          inv' b(2) bs by (auto elim!: ensures_mono cinv_weaken intro: ckeeps_trans [OF k])
      have data: "drop (Suc n * bs) ?m = zeros (len - x)" "Suc n * bs + (len - x) = length ?m"
        unfolding sn(1) using sn(2) by simp_all
      have "ensures (consume_pending E None (s\<lparr>pending := b\<rparr>)) (\<lambda>(r, s'). r = 0 \<and> ckeeps s s' \<and>
          (\<exists>n. cinv E G (blk bs ?m) False n s' \<and> pending_ok bs [] (pending s') \<and>
            drop (n * bs) ?m = zeros (len - x) \<and> n * bs + (len - x) = length ?m))"
        by (rule ensures_mono [OF cons]) (use data in fastforce)
      then show ?thesis
        unfolding zero_pending_def using pos b(1) True bs by (auto elim!: ensures_mono)
    qed
  qed
qed

lemma zero_update_ok:
  assumes inv: "minv E G m s" and m: "length m + len < 2 ^ 62"
  shows "ensures (zero_pending E len s) (\<lambda>(r, len', s'). r = 0 \<and> ensures (zero_rest E len' s')
    (\<lambda>(r, s'). r = 0 \<and> minv E G (m @ zeros len) s' \<and> ckeeps s s'))"
proof -
  define bs where "bs = block_size (config s)"
  have m': "length (m @ zeros len) < 2 ^ 62" using m by simp
  show ?thesis
  proof (rule ensures_mono [OF zero_pending_ok [OF inv bs_def [symmetric] m]], clarify, goal_cases)
    case (1 r len' s')
    have bs': "block_size (config s') = bs" using ckeepsD(1) [OF 1(1)] bs_def by simp
    from 1(2) have "ensures (zero_rest E len' s')
        (\<lambda>(r, s''). r = 0 \<and> minv E G (m @ zeros len) s'' \<and> ckeeps s' s'')"
    proof (elim disjE conjE exE)
      assume "len' = 0" and i: "minv E G (m @ zeros len) s'"
      then show ?thesis using minvD(3) [OF i] by (auto simp: zero_rest_def)
    next
      fix n assume "cinv E G (blk bs (m @ zeros len)) False n s'" "pending_ok bs [] (pending s')"
        "drop (n * bs) (m @ zeros len) = zeros len'" "n * bs + len' = length (m @ zeros len)"
      then show ?thesis using zero_rest_ok bs' m' by blast
    qed
    then show ?case using ckeeps_trans [OF 1(1)] by (auto elim!: ensures_mono)
  qed
qed

section \<open>Calls\<close>

lemma cinv_yield:
  assumes "cinv E G B t n s"
  shows "ensures (yield E s) (\<lambda>s'. cinv E G B t n s' \<and> keeps s s')"
proof -
  obtain L where L: "sinv E (G\<lparr>g_log := L\<rparr>) B t n s" "sq_ok L s" using assms by (auto simp: cinv_def)
  then have w: "winv E (G\<lparr>g_log := L\<rparr>) s" by (simp add: sinv_def)
  show ?thesis
  proof (rule ensures_mono [OF yield_ok [OF w]])
    fix s' assume "step_ok E (G\<lparr>g_log := L\<rparr>) s s'"
    from sinv_step [OF L(1) this] show "cinv E G B t n s' \<and> keeps s s'"
      using sq_ok_keeps [OF L(2)] by (auto simp: cinv_def)
  qed
qed

lemma minv_keeps: "cinv E G B False n s' \<Longrightarrow> keeps s s' \<Longrightarrow> minv E G m s \<Longrightarrow>
    B = blk (block_size (config s)) m \<Longrightarrow> n = length m div block_size (config s) \<Longrightarrow> minv E G m s'"
  by (simp add: minv_def keeps_def Let_def)

lemma minv_yield:
  assumes "minv E G m s"
  shows "ensures (yield E s) (\<lambda>s'. minv E G m s' \<and> keeps s s')"
  by (rule ensures_mono [OF cinv_yield [OF minvD(1) [OF assms]]]) (use assms minv_keeps in blast)

lemma minv_frame [simp]:
  "minv E G m (s\<lparr>message_length := w\<rparr>) \<longleftrightarrow> minv E G m s"
  "minv E G m (s\<lparr>finalized := f\<rparr>) \<longleftrightarrow> minv E G m s"
  by (simp_all add: minv_def Let_def)

lemma minv_error: "minv E G m s \<Longrightarrow> error s = 0"
  using minvD(1) winvD(5) by (fastforce simp: cinv_def sinv_def)

text \<open>The invariant of a hash between two calls.\<close>

definition hinv :: "('x, 'k) ext \<Rightarrow> ('x, 'k) ghost \<Rightarrow> bytes \<Rightarrow> ('x, 'k) sys \<Rightarrow> bool" where
  "hinv E G m s \<longleftrightarrow>
     minv E G m s \<and> g_held G = None \<and> message_length s = of_nat (length m) \<and> \<not> finalized s"

lemma blkhash_update_ok:
  assumes inv: "hinv E G m s" and m: "length m + len < 2 ^ 62"
  shows "ensures (blkhash_update E a len s) (\<lambda>(r, s'). r = 0 \<and> hinv E G (m @ map (mem s) [a..<a + len]) s' \<and>
    ckeeps (s\<lparr>message_length := message_length s'\<rparr>) s')"
proof -
  have minv: "minv E G m s" using inv by (simp add: hinv_def)
  have "ensures (do_update E a len None SUBMIT_COPY_DATA (s1\<lparr>message_length := message_length s1 + of_nat len\<rparr>))
      (\<lambda>(r, s'). r = 0 \<and> hinv E G (m @ map (mem s) [a..<a + len]) s' \<and>
         ckeeps (s\<lparr>message_length := message_length s'\<rparr>) s')"
    if s1: "minv E G m s1" "keeps s s1" for s1
  proof -
    let ?s = "s1\<lparr>message_length := message_length s1 + of_nat len\<rparr>"
    have "ensures (do_update E a len None SUBMIT_COPY_DATA ?s)
        (\<lambda>(r, s'). r = 0 \<and> minv E G (m @ map (mem s) [a..<a + len]) s' \<and> ckeeps ?s s')"
      using s1 m by (intro do_update_ok) (auto simp: update_source_def keeps_def)
    then show ?thesis
      using s1 inv by (auto elim!: ensures_mono simp: hinv_def ckeeps_def keeps_def)
  qed
  then show ?thesis
    unfolding blkhash_update_def ensures_bind
    by (intro ensures_mono [OF minv_yield [OF minv]]) (auto dest: minv_error)
qed

lemma blkhash_zero_ok:
  assumes inv: "hinv E G m s" and m: "length m + len < 2 ^ 62"
  shows "ensures (blkhash_zero E len s) (\<lambda>(r, s'). r = 0 \<and> hinv E G (m @ zeros len) s' \<and>
    ckeeps (s\<lparr>message_length := message_length s'\<rparr>) s')"
proof -
  have minv: "minv E G m s" using inv by (simp add: hinv_def)
  have "ensures (zero_pending E len (s1\<lparr>message_length := message_length s1 + of_nat len\<rparr>)) (\<lambda>(r, len', s').
      r = 0 \<and> ensures (zero_rest E len' s') (\<lambda>(r, s'). r = 0 \<and> hinv E G (m @ zeros len) s' \<and>
         ckeeps (s\<lparr>message_length := message_length s'\<rparr>) s'))"
    if s1: "minv E G m s1" "keeps s s1" for s1
  proof -
    let ?s = "s1\<lparr>message_length := message_length s1 + of_nat len\<rparr>"
    have "minv E G m ?s" using s1 by simp
    from zero_update_ok [OF this m] show ?thesis
      using s1 inv by (auto elim!: ensures_mono simp: hinv_def ckeeps_def keeps_def)
  qed
  then show ?thesis
    unfolding blkhash_zero_def ensures_bind
    by (intro ensures_mono [OF minv_yield [OF minv]]) (fastforce dest: minv_error elim!: ensures_mono)
qed

text \<open>A step that changes only what the workers share, and the application's view of it.\<close>

lemma ghost_log [simp]:
  "G\<lparr>g_log := L, g_held := h\<rparr> = G\<lparr>g_held := h, g_log := L\<rparr>"
  "G\<lparr>g_log := L, g_out := out\<rparr> = G\<lparr>g_out := out, g_log := L\<rparr>"
  "G\<lparr>g_log := L, g_waited := b\<rparr> = G\<lparr>g_waited := b, g_log := L\<rparr>"
  by simp_all

lemma minv_change:
  assumes inv: "minv E G m s" and w: "\<And>L. winv E (G\<lparr>g_log := L\<rparr>) s \<Longrightarrow> winv E (G'\<lparr>g_log := L\<rparr>) s'"
    and same: "g_hash G' = g_hash G" "caller_eq (s\<lparr>inflight := inflight s', mem := mem s'\<rparr>) s'"
  shows "minv E G' m s'"
proof -
  obtain L where L: "sinv E (G\<lparr>g_log := L\<rparr>) (blk (block_size (config s)) m) False
      (length m div block_size (config s)) s" "sq_ok L s"
    using minvD(1) [OF inv] by (auto simp: cinv_def)
  then have "winv E (G'\<lparr>g_log := L\<rparr>) s'" using w by (simp add: sinv_def)
  then have "sinv E (G'\<lparr>g_log := L\<rparr>) (blk (block_size (config s)) m) False
      (length m div block_size (config s)) s'" "sq_ok L s'"
    using L same by (auto simp: sinv_def caller_eq_def outer_at_def sq_ok_def)
  then show ?thesis using inv same(2) by (auto simp: minv_def Let_def cinv_def caller_eq_def)
qed

lemma minv_winv: "minv E G m s \<Longrightarrow> \<exists>L. winv E (G\<lparr>g_log := L\<rparr>) s"
  using minvD(1) by (fastforce simp: cinv_def sinv_def)

lemma minv_inflight: "minv E G m s \<Longrightarrow> inflight s = length (g_out G) \<and> queue_depth (config s) < 2 ^ 32"
  using winvD(9) minv_winv by (fastforce simp: cq_inv_def)

text \<open>The asynchronous update.\<close>

lemma aio_begin_ok:
  assumes inv: "minv E G m s" and held: "g_held G = None" and room: "inflight s < queue_depth (config s)"
  shows "\<exists>c s'. completion_new ud (s\<lparr>inflight := u32 (inflight s + 1)\<rparr>) = (Some c, s') \<and>
    minv E (G\<lparr>g_held := Some c, g_out := (ud, a, n) # g_out G\<rparr>) m s' \<and>
    caller_eq (s\<lparr>inflight := inflight s + 1\<rparr>) s'"
proof -
  let ?c = "fresh (comps s)"
  let ?s = "s\<lparr>inflight := inflight s + 1,
       comps := (comps s)\<lparr>cells := (cells (comps s))(?c \<mapsto>
           \<lparr>c_callback = Update_completed, c_user_data = ud, c_error = 0, c_refs = 1\<rparr>),
         fresh := Suc ?c\<rparr>\<rparr>"
  have u: "u32 (inflight s + 1) = inflight s + 1" using room minv_inflight [OF inv] by simp
  obtain L where "winv E (G\<lparr>g_log := L\<rparr>) s" using minv_winv [OF inv] by blast
  then have "completion_new ud (s\<lparr>inflight := u32 (inflight s + 1)\<rparr>) = (Some ?c, ?s)"
    unfolding u using winvD(4) by (fastforce simp: completion_new_def heap_new_def)
  moreover have "caller_eq (s\<lparr>inflight := inflight s + 1\<rparr>) ?s" by (simp add: caller_eq_def)
  moreover have "minv E (G\<lparr>g_held := Some ?c, g_out := (ud, a, n) # g_out G\<rparr>) m ?s"
    using winv_completion_new [of E "G\<lparr>g_log := L\<rparr>" s ud a n for L] held room
    by (intro minv_change [OF inv]) (auto simp: caller_eq_def)
  ultimately show ?thesis by blast
qed

lemma aio_end_ok:
  assumes inv: "minv E G m s" and held: "g_held G = Some c"
  shows "ensures (yield E s) (\<lambda>s1. ensures (completion_unref E c s1)
    (\<lambda>s'. minv E (G\<lparr>g_held := None\<rparr>) m s' \<and> keeps s s'))"
proof (rule ensures_mono [OF minv_yield [OF inv]], clarify)
  fix s1 assume s1: "minv E G m s1" "keeps s s1"
  obtain L where w: "winv E (G\<lparr>g_log := L\<rparr>) s1" using minv_winv [OF s1(1)] by blast
  from completion_unref_ok [OF w, of c] held obtain s2
    where s2: "completion_unref E c s1 = Some s2" "caller_eq s1 s2" by (auto elim: ensuresE)
  have "winv E ((G\<lparr>g_held := None\<rparr>)\<lparr>g_log := L\<rparr>) s2" if "winv E (G\<lparr>g_log := L\<rparr>) s1" for L
    using completion_unref_ok [OF that, of c] held s2(1) by auto
  then have "minv E (G\<lparr>g_held := None\<rparr>) m s2"
    using s2(2) by (intro minv_change [OF s1(1)]) (auto simp: caller_eq_def)
  then show "ensures (completion_unref E c s1) (\<lambda>s'. minv E (G\<lparr>g_held := None\<rparr>) m s' \<and> keeps s s')"
    using s2 keeps_trans [OF s1(2) caller_eq_keeps] by simp
qed

lemma aio_call_ok:
  assumes s: "minv E (G\<lparr>g_held := Some c, g_out := (ud, a, len) # g_out G\<rparr>) m s" "g_held G = None"
      "message_length s = of_nat (length m)" "\<not> finalized s" and m: "length m + len < 2 ^ 62"
  shows "ensures (do {
         (r, s) \<leftarrow> do_update E a len (Some c) 0 (s\<lparr>message_length := message_length s + of_nat len\<rparr>);
         s \<leftarrow> (if r \<noteq> 0 then completion_set_error c (error s) s else Some s);
         s \<leftarrow> yield E s;
         s \<leftarrow> completion_unref E c s;
         Some (0, s) })
    (\<lambda>(r, s'). r = 0 \<and> hinv E (G\<lparr>g_out := (ud, a, len) # g_out G\<rparr>) (m @ map (mem s) [a..<a + len]) s' \<and>
       ckeeps (s\<lparr>message_length := message_length s'\<rparr>) s')"
proof -
  let ?s = "s\<lparr>message_length := message_length s + of_nat len\<rparr>" and ?m = "m @ map (mem s) [a..<a + len]"
  let ?G = "G\<lparr>g_held := Some c, g_out := (ud, a, len) # g_out G\<rparr>"
  have upd: "ensures (do_update E a len (Some c) 0 ?s) (\<lambda>(r, s'). r = 0 \<and> minv E ?G ?m s' \<and> ckeeps ?s s')"
    using s m by (intro do_update_ok) (auto simp: update_source_def)
  have G: "G\<lparr>g_held := Some c, g_out := out, g_held := None\<rparr> = G\<lparr>g_out := out\<rparr>" for out
    using s(2) by simp
  have "ensures (yield E s3) (\<lambda>s4. ensures (completion_unref E c s4)
      (\<lambda>s'. hinv E (G\<lparr>g_out := (ud, a, len) # g_out G\<rparr>) ?m s' \<and> ckeeps (s\<lparr>message_length := message_length s'\<rparr>) s'))"
    if s3: "minv E ?G ?m s3" "ckeeps ?s s3" for s3
    using aio_end_ok [OF s3(1), of c] s3(2) s(2-4) unfolding G
    by (auto elim!: ensures_mono simp: hinv_def ckeeps_def keeps_def)
  then show ?thesis by (auto intro!: ensures_mono [OF upd])
qed

lemma blkhash_aio_update_ok:
  assumes inv: "hinv E G m s" and m: "length m + len < 2 ^ 62"
  shows "ensures (blkhash_aio_update E a len ud s) (\<lambda>(r, s').
    ckeeps (s\<lparr>message_length := message_length s', inflight := inflight s'\<rparr>) s' \<and>
    (if length (g_out G) < queue_depth (config s)
     then r = 0 \<and> hinv E (G\<lparr>g_out := (ud, a, len) # g_out G\<rparr>) (m @ map (mem s) [a..<a + len]) s'
     else r = EAGAIN \<and> hinv E G m s'))"
    (is "ensures _ ?Q")
  unfolding blkhash_aio_update_def
proof (subst ensures_bind, rule ensures_mono [OF minv_yield [of E G m]], goal_cases)
  case 1
  then show ?case using inv by (simp add: hinv_def)
next
  case (2 s1)
  then have s1: "minv E G m s1" "keeps s s1" "error s1 = 0" "inflight s1 = length (g_out G)"
    using minv_error [of E G m s1] minv_inflight [of E G m s1] by auto
  have k1: "config s1 = config s" "mem s1 = mem s" "message_length s1 = of_nat (length m)" "\<not> finalized s1"
    and held: "g_held G = None"
    using s1(2) inv by (auto simp: keeps_def hinv_def)
  show ?case
  proof (cases "length (g_out G) < queue_depth (config s)")
    case False
    then show ?thesis using s1 k1 held by (auto simp: hinv_def ckeeps_def keeps_def)
  next
    case True
    obtain c s2 where s2: "completion_new ud (s1\<lparr>inflight := u32 (inflight s1 + 1)\<rparr>) = (Some c, s2)"
        "minv E (G\<lparr>g_held := Some c, g_out := (ud, a, len) # g_out G\<rparr>) m s2"
        "caller_eq (s1\<lparr>inflight := inflight s1 + 1\<rparr>) s2"
      using aio_begin_ok [OF s1(1) held, of ud a len] True s1(4) k1(1) by auto
    have k2: "mem s2 = mem s" "message_length s2 = of_nat (length m)" "\<not> finalized s2"
        "keeps (s\<lparr>inflight := inflight s2\<rparr>) s2"
      using s2(3) s1(2) k1 by (auto simp: caller_eq_def keeps_def)
    have "ensures (do {
         (r, s) \<leftarrow> do_update E a len (Some c) 0 (s2\<lparr>message_length := message_length s2 + of_nat len\<rparr>);
         s \<leftarrow> (if r \<noteq> 0 then completion_set_error c (error s) s else Some s);
         s \<leftarrow> yield E s;
         s \<leftarrow> completion_unref E c s;
         Some (0, s) }) ?Q"
      by (rule ensures_mono [OF aio_call_ok [OF s2(2) held k2(2,3) m]])
        (use True k2 in \<open>auto simp: ckeeps_def keeps_def\<close>)
    then show ?thesis using True s1(3,4) s2(1) k1(1) by simp
  qed
qed

end
