(* ===== verification/Session.thy ===== *)
theory Session
  imports Message
begin

text \<open>
  The life of a hash: creation, the calls of an application in any order, the end of the message,
  and the release of the hash.
\<close>

section \<open>The length of the message\<close>

text \<open>The length is hashed as a little endian number on both kinds of host.\<close>

lemma byte_of_nat:
  assumes "n < 2 ^ 64"
  shows "(ucast (drop_bit (8 * i) (of_nat n :: 64 word)) :: 8 word) = of_nat (n div 256 ^ i)"
proof -
  have "unat (drop_bit (8 * i) (of_nat n :: 64 word)) = n div 256 ^ i"
    using assms by (simp only: unat_drop_bit_eq) (simp add: drop_bit_eq_div power_mult unsigned_of_nat take_bit_nat_eq_self)
  then show ?thesis by (metis of_nat_unat)
qed

lemma bytes_nat_nth: "i < length xs \<Longrightarrow> (of_nat (bytes_nat xs div 256 ^ i) :: 8 word) = xs ! i"
proof (induction xs arbitrary: i)
  case (Cons x xs)
  have x: "unat x < 256" using unsigned_less [of x] by simp
  show ?case
  proof (cases i)
    case 0
    have "(256 :: 8 word) = 0" by transfer (simp add: take_bit_eq_mod)
    then have "(of_nat (256 * bytes_nat xs) :: 8 word) = 0" by (metis of_nat_mult of_nat_numeral mult_zero_left)
    with 0 show ?thesis by (simp add: bytes_nat_def)
  next
    case (Suc k)
    have "(unat x + 256 * bytes_nat xs) div 256 = bytes_nat xs" using x by simp
    then show ?thesis using Cons Suc by (simp add: bytes_nat_def div_mult2_eq)
  qed
qed simp

lemma le_bytes_of_bytes: "length xs = 8 \<Longrightarrow> le_bytes (of_nat (bytes_nat xs)) = xs"
  using bytes_nat_bound [of xs] bytes_nat_nth [of _ xs]
  by (intro nth_equalityI) (simp_all add: le_bytes_def byte_of_nat)

lemma host_bytes_length:
  "host_bytes le (if le then w else bswap64 w) = le_bytes w"
  by (simp add: host_bytes_def bswap64_def le_bytes_of_bytes)

section \<open>Finishing\<close>

lemma final_block_ok:
  assumes "minv E G m s" and "bs = block_size (config s)"
  shows "ensures (if buf_len (pending s) > 0 then consume_pending E None s else submit_zero_block E s)
    (\<lambda>(r, s'). r = 0 \<and> cinv E G (blk bs m) True ((length m + bs - 1) div bs) s' \<and> ckeeps s s')"
proof -
  define n where "n = length m div bs"
  define rest where "rest = drop (n * bs) m"
  note D = minvD [OF assms(1), folded assms(2), folded n_def, folded rest_def]
  have count: "(length m + bs - 1) div bs = (if rest = [] then n else Suc n)"
    using blocks_count [of bs m] D(3) by (simp add: n_def rest_def)
  have n: "Suc n < 2 ^ 62" using blocks_bound [OF D(6)] D(3) assms(1) by (simp add: minv_def Let_def)
  show ?thesis
  proof (cases "rest = []")
    case True
    then show ?thesis
      using submit_zero_block_ok [OF D(1)] count D(2)
      by (auto simp: pending_ok_def elim!: ensures_mono intro: keeps_ckeeps)
  next
    case False
    have "blk bs m n = rest" using D(5) by (simp add: blk_def rest_def)
    then show ?thesis
      using consume_pending_ok [OF D(1) D(2) [unfolded assms(2)], of None] n count D(2,5) False assms(2)
      by (auto simp: pending_ok_def elim!: ensures_mono)
  qed
qed

lemma hash_message_length_ok:
  assumes C: "crypto_ok (crypto E) (digest_name (config s)) (g_hash G)" and o: "outer_at E G B h s"
  shows "\<exists>d. hash_message_length E s = Some (0, s\<lparr>outer_digest := Some d\<rparr>) \<and>
    digest_absorbed (crypto E) (digest_name (config s)) (g_hash G) d
      (block_digests (hash_of (g_hash G)) B h @ le_bytes (message_length s))"
  using outer_update_ok [OF C o, of "le_bytes (message_length s)"]
  by (auto simp: hash_message_length_def Let_def host_bytes_length)

text \<open>What is left of the invariant once the hash is final: nothing is in flight.\<close>

definition finv :: "('x, 'k) ext \<Rightarrow> ('x, 'k) ghost \<Rightarrow> ('x, 'k) sys \<Rightarrow> bool" where
  "finv E G s \<longleftrightarrow> winv E (G\<lparr>g_log := []\<rparr>) s \<and> sq_ok [] s \<and> g_held G = None \<and> finalized s"

lemma final_length_ok:
  assumes s: "sinv E (G\<lparr>g_log := []\<rparr>) (blk bs m) True ((length m + bs - 1) div bs) s" "sq_ok [] s"
    and ml: "message_length s = of_nat (length m)" and fin: "finalized s" and held: "g_held G = None"
  shows "\<exists>d d'. hash_message_length E s = Some (0, s\<lparr>outer_digest := Some d\<rparr>) \<and>
    digest_final (crypto E) d = (0, d', blkhash_spec (hash_of (g_hash G)) bs m) \<and>
    finv E G (s\<lparr>outer_digest := Some d'\<rparr>)"
proof -
  let ?n = "(length m + bs - 1) div bs" and ?hash = "hash_of (g_hash G)"
  have w: "winv E (G\<lparr>g_log := []\<rparr>) s" and o: "outer_at E G (blk bs m) ?n s"
    using s(1) by (auto simp: sinv_def log_closed_def outer_at_def)
  have C: "crypto_ok (crypto E) (digest_name (config s)) (g_hash G)" using winvD(3) [OF w] by simp
  obtain d where d: "hash_message_length E s = Some (0, s\<lparr>outer_digest := Some d\<rparr>)"
      "digest_absorbed (crypto E) (digest_name (config s)) (g_hash G) d
         (block_digests ?hash (blk bs m) ?n @ le_bytes (message_length s))"
    using hash_message_length_ok [OF C o] by blast
  then obtain d' where "digest_final (crypto E) d = (0, d', blkhash_spec ?hash bs m)"
    using dg.fin_hash [OF C d(2)] ml by (auto simp: blkhash_spec_digests)
  moreover have "finv E G (s\<lparr>outer_digest := Some d'\<rparr>)"
    using w s(2) held fin by (simp add: finv_def sq_ok_def)
  ultimately show ?thesis using d(1) by blast
qed

lemma blkhash_final_ok:
  assumes inv: "hinv E G m s"
  shows "ensures (blkhash_final E s) (\<lambda>(r, md, s'). r = 0 \<and>
    md = blkhash_spec (hash_of (g_hash G)) (block_size (config s)) m \<and> finv E G s' \<and>
    ckeeps (s\<lparr>finalized := True\<rparr>) s')"
proof -
  define bs where "bs = block_size (config s)"
  let ?s = "s\<lparr>finalized := True\<rparr>" and ?n = "(length m + bs - 1) div bs"
  let ?P = "\<lambda>s2. \<exists>d d'. hash_message_length E s2 = Some (0, s2\<lparr>outer_digest := Some d\<rparr>) \<and>
    digest_final (crypto E) d = (0, d', blkhash_spec (hash_of (g_hash G)) bs m) \<and>
    finv E G (s2\<lparr>outer_digest := Some d'\<rparr>) \<and> ckeeps ?s (s2\<lparr>outer_digest := Some d'\<rparr>)"
  have minv: "minv E G m ?s" and ml: "message_length s = of_nat (length m)" and fin: "\<not> finalized s"
    and held: "g_held G = None"
    using inv by (simp_all add: hinv_def)
  have "ensures (hash_inflight_submissions E s1) (\<lambda>(r, s2). r = 0 \<and> ?P s2)"
    if s1: "cinv E G (blk bs m) True ?n s1" "ckeeps ?s s1" for s1
  proof -
    obtain L where L: "sinv E (G\<lparr>g_log := L\<rparr>) (blk bs m) True ?n s1" "sq_ok L s1"
      using s1(1) by (auto simp: cinv_def)
    have "?P s2" if s2: "sinv E (G\<lparr>g_log := []\<rparr>) (blk bs m) True ?n s2" "sq_ok [] s2" "keeps s1 s2" for s2
    proof -
      have k: "ckeeps ?s s2" using ckeeps_trans [OF s1(2) keeps_ckeeps [OF s2(3)]] .
      then have "message_length s2 = of_nat (length m)" "finalized s2"
        using ckeepsD(3,4) [OF k] ml by auto
      moreover have "ckeeps ?s (s2\<lparr>outer_digest := d\<rparr>)" for d using k by (simp add: ckeeps_def keeps_def)
      ultimately show ?thesis using final_length_ok [OF s2(1,2) _ _ held] by blast
    qed
    then show ?thesis
      unfolding hash_inflight_submissions_def sq_ok_len [OF L(2)]
      using hash_inflight_ok [OF L] by (auto elim!: ensures_mono)
  qed
  then have "ensures (if buf_len (pending ?s) > 0 then consume_pending E None ?s else submit_zero_block E ?s)
    (\<lambda>(r, s1). r = 0 \<and> ensures (hash_inflight_submissions E s1) (\<lambda>(r, s2). r = 0 \<and> ?P s2))"
    using bs_def by (intro ensures_mono [OF final_block_ok [OF minv]]) auto
  then show ?thesis
    using fin unfolding blkhash_final_def bs_def Let_def by (auto elim!: ensures_mono)
qed

section \<open>Creation\<close>

text \<open>The options a hash can work with; the setters accept more.\<close>

definition opts_ok :: "blkhash_opts \<Rightarrow> bool" where
  "opts_ok opts \<longleftrightarrow>
     16 \<le> o_block_size opts \<and> o_block_size opts < 2 ^ 32 \<and>
     0 < o_threads opts \<and> o_threads opts \<le> MAX_THREADS \<and> o_queue_depth opts < 2 ^ 30"

text \<open>The libraries and the kernel behave as documented for these options.\<close>

definition env_ok ::
    "('x, 'k) ext \<Rightarrow> 'x hash_model \<Rightarrow> 'k event_model \<Rightarrow> blkhash_opts \<Rightarrow> 'k \<Rightarrow> bool" where
  "env_ok E M EM opts k \<longleftrightarrow>
     crypto_ok (crypto E) (o_digest_name opts) M \<and>
     (o_queue_depth opts > 0 \<longrightarrow> eventfd_ok (host E) EM \<and> eventfd_opens (host E) EM k)"

text \<open>What the hash allocated is still there, and there is room for the stop messages.\<close>

definition owned_ok :: "('x, 'k) sys \<Rightarrow> bool" where
  "owned_ok s \<longleftrightarrow>
     buf_data_mem (pending s) = Allocated \<and> sq_ring_mem (sq s) = Allocated \<and>
     p_queue_mem (pool s) = Allocated \<and> p_workers_mem (pool s) = Allocated \<and>
     cq_array_mem (cq s) = (if queue_depth (config s) > 0 then Allocated else Null) \<and>
     (queue_depth (config s) = 0 \<longrightarrow> cq_event (cq s) = None) \<and>
     p_workers_count (pool s) \<le> p_queue_size (pool s)"

lemma create_workers_ok:
  "faults s = [] \<Longrightarrow> p_workers_count (pool s) + n < 2 ^ 32 \<Longrightarrow>
   create_workers n s = (0, s\<lparr>threads := threads s @ replicate n Start,
     pool := (pool s)\<lparr>p_workers_count := p_workers_count (pool s) + n\<rparr>\<rparr>)"
proof (induction n arbitrary: s)
  case (Suc n)
  have "u32 (p_workers_count (pool s) + 1) = p_workers_count (pool s) + 1" using Suc.prems by simp
  with Suc show ?case by (simp add: replicate_append_same [symmetric])
qed simp

definition new_pool :: "config \<Rightarrow> hash_pool" where
  "new_pool c =
     \<lparr>p_queue = replicate (max_submissions c) SubNULL, p_queue_mem = Allocated,
      p_workers_mem = Allocated, p_queue_size = max_submissions c, p_queue_len = 0,
      p_queue_head = 0, p_queue_tail = 0, p_workers_count = workers c, p_workers_idle = 0,
      p_error = 0, p_stopped = False\<rparr>"

lemma hash_pool_init_ok:
  assumes "faults s = []" and "threads s = []" and "workers (config s) < 2 ^ 32"
  shows "hash_pool_init E s =
    Some (0, s\<lparr>pool := new_pool (config s), threads := replicate (workers (config s)) Start\<rparr>)"
  using assms by (simp add: hash_pool_init_def Let_def create_workers_ok new_pool_def)

lemma new_cq_event:
  assumes "faults s = []" and "queue_depth (config s) > 0"
    and "event_open (host E) (EVENT_CLOEXEC OR EVENT_NONBLOCK) [] (kern s) = (Inr e, [], k)"
  shows "new_cq E s = (0, s\<lparr>cq := (cq s)\<lparr>
      cq_array := replicate (queue_depth (config s)) \<lparr>bc_user_data = 0, bc_error = 0\<rparr>,
      cq_array_mem := Allocated, cq_event := Some e\<rparr>, kern := k\<rparr>)"
  using assms unfolding new_cq_def sys_acquire_def by (cases s) (simp del: sys_acquire_ok)

text \<open>The completion queue of a new hash.\<close>

definition cq_new :: "'k event_model \<Rightarrow> nat \<Rightarrow> completion_queue \<Rightarrow> 'k \<Rightarrow> bool" where
  "cq_new EM qd q k \<longleftrightarrow>
     cq_count q = 0 \<and> length (cq_array q) = qd \<and>
     (if qd > 0 then cq_array_mem q = Allocated \<and> (\<exists>e. cq_event q = Some e \<and> event_opened EM e k)
      else cq_array_mem q = Null \<and> cq_event q = None)"

lemma new_cq_ok:
  assumes "faults s = []" and "cq s = \<lparr>cq_array = [], cq_array_mem = Null, cq_event = None, cq_count = 0\<rparr>"
    and ev: "queue_depth (config s) > 0 \<Longrightarrow> eventfd_ok (host E) EM \<and> eventfd_opens (host E) EM (kern s)"
  shows "\<exists>q k. new_cq E s = (0, s\<lparr>cq := q, kern := k\<rparr>) \<and> cq_new EM (queue_depth (config s)) q k"
proof (cases "queue_depth (config s) > 0")
  case False
  then have eq: "new_cq E s = (0, s\<lparr>cq := cq s, kern := kern s\<rparr>)" by (simp add: new_cq_def)
  show ?thesis
    by (rule exI, rule exI, rule conjI, rule eq) (use False assms(2) in \<open>simp add: cq_new_def\<close>)
next
  case True
  obtain e k where ev: "event_open (host E) (EVENT_CLOEXEC OR EVENT_NONBLOCK) [] (kern s) = (Inr e, [], k)"
      "event_opened EM e k"
    using event_open_ok [of "host E" EM "kern s"] ev [OF True] by auto
  note eq = new_cq_event [OF assms(1) True ev(1)]
  show ?thesis
    by (rule exI, rule exI, rule conjI, rule eq) (simp add: ev(2) assms(2) True cq_new_def)
qed

text \<open>The invariant of the workers holds when a hash was just created.\<close>

lemma tsum_Start [simp]:
  "f Start = 0 \<Longrightarrow> tsum f (replicate n Start) = 0"
  by (induction n) auto

lemma winv_new:
  assumes "crypto_ok (crypto E) (digest_name (config s)) (g_hash G)"
    and ev: "queue_depth (config s) > 0 \<longrightarrow> eventfd_ok (host E) (g_event G) \<and>
      (\<exists>e. cq_event (cq s) = Some e \<and> event_opened (g_event G) e (kern s))"
    and "faults s = []" "error s = 0" "16 \<le> block_size (config s)" "0 < workers (config s)"
      "workers (config s) < 2 ^ 32" "0 < max_submissions (config s)" "max_submissions (config s) < 2 ^ 32"
    and pool: "pool s = new_pool (config s)" "threads s = replicate (workers (config s)) Start"
    and heaps: "subs s = heap_empty" "comps s = heap_empty"
    and cq: "cq_count (cq s) = 0" "length (cq_array (cq s)) = queue_depth (config s)"
      "queue_depth (config s) < 2 ^ 32" "inflight s = 0"
    and G: "g_out G = []" "g_held G = None" "g_log G = []"
  shows "winv E G s"
proof -
  have view: "pq_view (pool s) = []" by (simp add: pool new_pool_def pq_view_def)
  have q: "queued (pool s) = []" by (simp add: queued_def view)
  have held: "todo_of s = {#}" "refs_of s = {#}" "busy_of s = {#}" "calls_of s = {#}" "sigs_of s = {#}"
    by (simp_all add: holdings_defs q pool(2))
  have "pool_inv (pool s) (threads s)"
    using assms(6-9) view q by (simp add: pool_inv_def pool new_pool_def pq_inv_def)
  moreover have "threads_ok (crypto E) (digest_name (config s)) (g_hash G) (threads s)"
    by (simp add: threads_ok_def pool(2))
  moreover have "subs_inv bs hash m {#} {#} (subs s) []" for bs hash m
    by (simp add: subs_inv_def heaps)
  moreover have "comps_inv {#} {#} None (subs s) (comps s)" by (simp add: comps_inv_def heaps)
  moreover have "cq_inv (queue_depth (config s)) (cq s) (comps s) {#} [] (inflight s)"
    using cq by (simp add: cq_inv_def heaps undelivered_def)
  moreover have "event_inv (g_event G) (queue_depth (config s)) (cq s) b w (kern s)" for b w
    using ev cq(1) by (auto simp: event_inv_def)
  moreover have "borrow_inv {#} (subs s) (comps s) []" by (simp add: borrow_inv_def)
  ultimately show ?thesis
    using assms(1-5) G held by (simp add: winv_def held_inv_def)
qed

definition new_ghost :: "'x hash_model \<Rightarrow> 'k event_model \<Rightarrow> ('x, 'k) ghost" where
  "new_ghost M EM =
     \<lparr>g_hash = M, g_event = EM, g_out = [], g_held = None, g_log = [], g_waited = False\<rparr>"

lemma new_ghost_log [simp]: "(new_ghost M EM)\<lparr>g_log := []\<rparr> = new_ghost M EM"
  by (simp add: new_ghost_def)

lemma new_opts_state:
  assumes env: "env_ok E M EM opts k" and opts: "opts_ok opts"
  shows "\<exists>c q k' d. blkhash_new_opts E opts (sys_init m k [] sc) =
      Some (0, (sys_init m k [] sc)\<lparr>config := c, pool := new_pool c,
        sq := \<lparr>sq_ring = replicate (max_submissions c) SubNULL, sq_ring_mem = Allocated,
               sq_size = max_submissions c, sq_len = 0, sq_head = 0, sq_tail = 0\<rparr>,
        cq := q, pending := \<lparr>buf_data = zeros (block_size c), buf_data_mem = Allocated, buf_len = 0,
               buf_zero = False\<rparr>, outer_digest := Some d,
        threads := replicate (workers c) Start, kern := k'\<rparr>) \<and>
    config_ok M c \<and> digest_name c = o_digest_name opts \<and> block_size c = o_block_size opts \<and>
    workers c = o_threads opts \<and> queue_depth c = o_queue_depth opts \<and>
    max_submissions c = max (u32 (max (queue_depth c) (workers c) * 4)) 32 \<and>
    digest_absorbed (crypto E) (digest_name c) M d [] \<and>
    cq_new EM (queue_depth c) q k'"
proof -
  let ?s0 = "(sys_init m k [] sc) :: ('a, 'b) sys"
  have C: "crypto_ok (crypto E) (o_digest_name opts) M" using env by (simp add: env_ok_def)
  obtain c where c: "config_init (crypto E) config_zero opts [] = Some (0, c, [])" "config_ok M c"
      "digest_name c = o_digest_name opts" "block_size c = o_block_size opts"
      "workers c = o_threads opts" "queue_depth c = o_queue_depth opts"
      "max_submissions c = max (u32 (max (queue_depth c) (workers c) * 4)) 32"
    using config_init_ok [OF C] by blast
  obtain d0 d where d: "digest_create (crypto E) (digest_name c) [] = (Inr d0, [])"
      "digest_init (crypto E) d0 = (0, d)" "digest_absorbed (crypto E) (digest_name c) M d []"
    using dg.create_usable [OF C] dg.init_absorbed [OF C] c(3) by metis
  let ?q = "\<lparr>sq_ring = replicate (max_submissions c) SubNULL, sq_ring_mem = Allocated,
               sq_size = max_submissions c, sq_len = 0, sq_head = 0, sq_tail = 0\<rparr>"
  let ?s3 = "?s0\<lparr>config := c, pool := new_pool c, threads := replicate (workers c) Start, sq := ?q\<rparr>"
  have w: "workers c < 2 ^ 32" using opts c(5) by (simp add: opts_ok_def MAX_THREADS_def)
  obtain q k' where q: "new_cq E ?s3 = (0, ?s3\<lparr>cq := q, kern := k'\<rparr>)" "cq_new EM (queue_depth c) q k'"
    using new_cq_ok [of ?s3 E EM] env c(6) by (auto simp: sys_init_def env_ok_def)
  have "hash_pool_init E (?s0\<lparr>config := c\<rparr>) =
      Some (0, ?s0\<lparr>config := c, pool := new_pool c, threads := replicate (workers c) Start\<rparr>)"
    using hash_pool_init_ok [of "?s0\<lparr>config := c\<rparr>" E] w by (simp add: sys_init_def)
  then have "blkhash_new_opts E opts ?s0 = Some (0, ?s0\<lparr>config := c, pool := new_pool c, sq := ?q,
        cq := q, pending := \<lparr>buf_data = zeros (block_size c), buf_data_mem = Allocated, buf_len = 0,
               buf_zero = False\<rparr>, outer_digest := Some d,
        threads := replicate (workers c) Start, kern := k'\<rparr>)"
    using c(1) d(1,2) q(1)
    by (simp add: blkhash_new_opts_def sys_init_def submission_queue_init_def Let_def)
  with c d(3) q(2) show ?thesis by (intro exI conjI) (assumption | simp)+
qed

lemma sq_ok_new:
  assumes "sq s = \<lparr>sq_ring = replicate n SubNULL, sq_ring_mem = Allocated, sq_size = n, sq_len = 0,
      sq_head = 0, sq_tail = 0\<rparr>" and "0 < n" and "n + 3 < 2 ^ 32" and "p_queue_size (pool s) = n"
  shows "sq_ok [] s"
  using assms by (simp add: sq_ok_def sq_inv_def sq_view_def)

lemma blkhash_new_opts_ok:
  assumes env: "env_ok E M EM opts k" and opts: "opts_ok opts"
  shows "ensures (blkhash_new_opts E opts (sys_init m k [] sc)) (\<lambda>(r, s). r = 0 \<and>
    hinv E (new_ghost M EM) [] s \<and> owned_ok s \<and> mem s = m \<and> block_size (config s) = o_block_size opts \<and>
    queue_depth (config s) = o_queue_depth opts \<and> length (threads s) = o_threads opts)"
proof -
  let ?s0 = "(sys_init m k [] sc) :: ('a, 'b) sys" and ?G = "new_ghost M EM"
  obtain c q k' d where new: "blkhash_new_opts E opts ?s0 =
      Some (0, ?s0\<lparr>config := c, pool := new_pool c,
        sq := \<lparr>sq_ring = replicate (max_submissions c) SubNULL, sq_ring_mem = Allocated,
               sq_size = max_submissions c, sq_len = 0, sq_head = 0, sq_tail = 0\<rparr>,
        cq := q, pending := \<lparr>buf_data = zeros (block_size c), buf_data_mem = Allocated, buf_len = 0,
               buf_zero = False\<rparr>, outer_digest := Some d,
        threads := replicate (workers c) Start, kern := k'\<rparr>)" (is "_ = Some (0, ?s)")
    and c: "config_ok M c" "digest_name c = o_digest_name opts" "block_size c = o_block_size opts"
      "workers c = o_threads opts" "queue_depth c = o_queue_depth opts"
      "max_submissions c = max (u32 (max (queue_depth c) (workers c) * 4)) 32"
    and d: "digest_absorbed (crypto E) (digest_name c) M d []"
    and q: "cq_new EM (queue_depth c) q k'"
    using new_opts_state [OF env opts, of m sc] by (elim exE conjE) (rule that, assumption+)
  have o: "16 \<le> block_size c" "block_size c < 2 ^ 32" "0 < workers c" "workers c \<le> 128" "queue_depth c < 2 ^ 30"
    using opts c by (auto simp: opts_ok_def MAX_THREADS_def)
  have ms: "max_submissions c = max (max (queue_depth c) (workers c) * 4) 32" "workers c \<le> max_submissions c"
      "0 < max_submissions c" "max_submissions c + 3 < 2 ^ 32"
    using o(4,5) c(6) by (auto simp: max_def)
  have "winv E ?G ?s"
    using env c(2-5) q o ms(3,4)
    by (intro winv_new) (auto simp: env_ok_def sys_init_def new_ghost_def cq_new_def)
  moreover have "sq_ok [] ?s" by (rule sq_ok_new) (use ms in \<open>simp_all add: new_pool_def\<close>)
  moreover have "outer_at E ?G B 0 ?s" for B
    using d by (simp add: outer_at_def sys_init_def block_digests_def new_ghost_def)
  moreover have "block_index ?s = 0" "submitted_index ?s = 0" "config ?s = c" by (simp_all add: sys_init_def)
  moreover have "g_hash ?G = M" "g_log ?G = []" by (simp_all add: new_ghost_def)
  ultimately have "cinv E ?G B False 0 ?s" for B
    using o c(1) unfolding cinv_def sinv_def by (intro exI [of _ "[]"]) auto
  then have "minv E ?G [] ?s"
    by (simp add: minv_def Let_def pending_ok_def)
  then have "hinv E ?G [] ?s" by (simp add: hinv_def sys_init_def new_ghost_def)
  moreover have "owned_ok ?s" using q ms(2) by (auto simp: owned_ok_def new_pool_def cq_new_def)
  ultimately show ?thesis
    unfolding new using c(3-5) by (simp add: sys_init_def)
qed

section \<open>What an application does between the calls\<close>

lemma completions_hinv:
  assumes inv: "hinv E G m s" and dist: "distinct (map fst (g_out G))"
  shows "ensures (blkhash_aio_completions E cnt s) (\<lambda>(r, D, s').
    r = int (length D) \<and> length D \<le> cnt \<and> mset (map bc_user_data D) \<subseteq># mset (map fst (g_out G)) \<and>
    (\<forall>e\<in>set D. bc_error e = 0) \<and>
    hinv E (G\<lparr>g_out := received D (g_out G), g_waited := (cnt = 0 \<and> g_waited G)\<rparr>) m s' \<and>
    caller_eq (s\<lparr>inflight := inflight s'\<rparr>) s')"
proof -
  have minv: "minv E G m s" and held: "g_held G = None" using inv by (auto simp: hinv_def)
  obtain L where w: "winv E (G\<lparr>g_log := L\<rparr>) s" using minv_winv [OF minv] by blast
  obtain r D s' where res: "blkhash_aio_completions E cnt s = Some (r, D, s')"
    using blkhash_aio_completions_ok [OF w, of cnt] held dist by (auto elim!: ensuresE)
  have step: "r = int (length D) \<and> length D \<le> cnt \<and> mset (map bc_user_data D) \<subseteq># mset (map fst (g_out G)) \<and>
      (\<forall>e\<in>set D. bc_error e = 0) \<and>
      winv E ((G\<lparr>g_out := received D (g_out G), g_waited := (cnt = 0 \<and> g_waited G)\<rparr>)\<lparr>g_log := L\<rparr>) s' \<and>
      caller_eq (s\<lparr>inflight := inflight s'\<rparr>) s'"
    if "winv E (G\<lparr>g_log := L\<rparr>) s" for L
    using blkhash_aio_completions_ok [OF that, of cnt] held dist res by simp
  have eq: "caller_eq (s\<lparr>inflight := inflight s'\<rparr>) s'" using step [OF w] by blast
  have "minv E (G\<lparr>g_out := received D (g_out G), g_waited := (cnt = 0 \<and> g_waited G)\<rparr>) m s'"
    by (rule minv_change [OF minv]) (use step eq in \<open>auto simp: caller_eq_def\<close>)
  then show ?thesis
    using res step [OF w] inv by (auto simp: hinv_def caller_eq_def)
qed

lemma store_hinv:
  assumes inv: "hinv E G m s" and keep: "\<And>u a n. (u, a, n) \<in> set (g_out G) \<Longrightarrow> \<not> (a \<le> p \<and> p < a + n)"
  shows "hinv E G m (s\<lparr>mem := (mem s)(p := b)\<rparr>)"
proof -
  have "minv E G m (s\<lparr>mem := (mem s)(p := b)\<rparr>)"
  proof (rule minv_change)
    show "minv E G m s" using inv by (simp add: hinv_def)
    fix L assume "winv E (G\<lparr>g_log := L\<rparr>) s"
    then show "winv E (G\<lparr>g_log := L\<rparr>) (s\<lparr>mem := (mem s)(p := b)\<rparr>)"
    proof (rule winv_app_store)
      fix u a n i assume "(u, a, n) \<in> set (g_out (G\<lparr>g_log := L\<rparr>))" "a \<le> i" "i < a + n"
      then have "i \<noteq> p" using keep [of u a n] by auto
      then show "((mem s)(p := b)) i = mem s i" by simp
    qed
  qed (simp_all add: caller_eq_def)
  with inv show ?thesis by (simp add: hinv_def)
qed

lemma read_fd_hinv:
  assumes inv: "hinv E G m s" and qd: "queue_depth (config s) > 0" and n: "8 \<le> n"
  shows "\<exists>e r k. cq_event (cq s) = Some e \<and> read_retry (host E) (read_fd e) n (kern s) = Some (r, k) \<and>
    hinv E (G\<lparr>g_waited := True\<rparr>) m (s\<lparr>kern := k\<rparr>)"
proof -
  have minv: "minv E G m s" using inv by (auto simp: hinv_def)
  obtain L where w: "winv E (G\<lparr>g_log := L\<rparr>) s" using minv_winv [OF minv] by blast
  obtain e r k where e: "cq_event (cq s) = Some e" "read_retry (host E) (read_fd e) n (kern s) = Some (r, k)"
    using winv_read_fd [OF w qd n] by blast
  have "winv E ((G\<lparr>g_waited := True\<rparr>)\<lparr>g_log := L\<rparr>) (s\<lparr>kern := k\<rparr>)" if "winv E (G\<lparr>g_log := L\<rparr>) s" for L
    using winv_read_fd [OF that qd n] e by auto
  then have "minv E (G\<lparr>g_waited := True\<rparr>) m (s\<lparr>kern := k\<rparr>)"
    by (intro minv_change [OF minv]) (auto simp: caller_eq_def)
  with e inv show ?thesis by (auto simp: hinv_def)
qed

lemma run_workers_hinv:
  assumes inv: "hinv E G m s" and run: "run_workers E is s = Some s'"
  shows "hinv E G m (s'\<lparr>sched := sc\<rparr>)" and "caller_eq s s'"
proof -
  have minv: "minv E G m s" using inv by (simp add: hinv_def)
  have w: "winv E (G\<lparr>g_log := L\<rparr>) s' \<and> caller_eq s s'" if "winv E (G\<lparr>g_log := L\<rparr>) s" for L
    using wk.run_workers_inv [OF that, of "is"] run by simp
  obtain L where "winv E (G\<lparr>g_log := L\<rparr>) s" using minv_winv [OF minv] by blast
  from w [OF this] show eq: "caller_eq s s'" by blast
  have "minv E G m (s'\<lparr>sched := sc\<rparr>)"
    by (rule minv_change [OF minv]) (use w eq in \<open>auto simp: caller_eq_def wk.sched_free\<close>)
  then show "hinv E G m (s'\<lparr>sched := sc\<rparr>)" using inv eq by (simp add: hinv_def caller_eq_def)
qed

section \<open>Sessions\<close>

text \<open>
  An application uses a hash. \<open>session E opts m0 k0 sc m out w s\<close>: a hash was created with the
  options in a world with memory \<open>m0\<close>, kernel \<open>k0\<close> and interleaving \<open>sc\<close>, and after some calls the
  message passed to it is \<open>m\<close>, the asynchronous updates in \<open>out\<close> (user data, address, length) were
  accepted and not yet reported as completed, and \<open>w\<close> says whether the application has read the
  completion descriptor since it last asked for completions. Between the calls the workers run
  (rule \<open>run\<close>). What the documentation asks of an
  application are the conditions of the rules: it does not change the buffer of an update that
  is not completed, gives two such updates different user data, and hashes fewer than \<open>2\<^sup>62\<close> bytes.
\<close>

inductive session ::
    "('x, 'k) ext \<Rightarrow> blkhash_opts \<Rightarrow> (nat \<Rightarrow> byte) \<Rightarrow> 'k \<Rightarrow> nat list list \<Rightarrow>
     bytes \<Rightarrow> (nat \<times> nat \<times> nat) list \<Rightarrow> bool \<Rightarrow> ('x, 'k) sys \<Rightarrow> bool"
  for E opts m0 k0 sc where
  new: "blkhash_new_opts E opts (sys_init m0 k0 [] sc) = Some (0, s) \<Longrightarrow>
    session E opts m0 k0 sc [] [] False s"
| update: "session E opts m0 k0 sc m out w s \<Longrightarrow> length m + len < 2 ^ 62 \<Longrightarrow>
    blkhash_update E a len s = Some (r, s') \<Longrightarrow>
    session E opts m0 k0 sc (m @ map (mem s) [a..<a + len]) out w s'"
| zero: "session E opts m0 k0 sc m out w s \<Longrightarrow> length m + len < 2 ^ 62 \<Longrightarrow>
    blkhash_zero E len s = Some (r, s') \<Longrightarrow>
    session E opts m0 k0 sc (m @ zeros len) out w s'"
| aio_update: "session E opts m0 k0 sc m out w s \<Longrightarrow> length m + len < 2 ^ 62 \<Longrightarrow>
    ud \<notin> fst ` set out \<Longrightarrow> blkhash_aio_update E a len ud s = Some (0, s') \<Longrightarrow>
    session E opts m0 k0 sc (m @ map (mem s) [a..<a + len]) ((ud, a, len) # out) w s'"
| aio_refused: "session E opts m0 k0 sc m out w s \<Longrightarrow> length m + len < 2 ^ 62 \<Longrightarrow>
    blkhash_aio_update E a len ud s = Some (r, s') \<Longrightarrow> r \<noteq> 0 \<Longrightarrow>
    session E opts m0 k0 sc m out w s'"
| completions: "session E opts m0 k0 sc m out w s \<Longrightarrow>
    blkhash_aio_completions E cnt s = Some (r, D, s') \<Longrightarrow>
    session E opts m0 k0 sc m (received D out) (cnt = 0 \<and> w) s'"
| read_fd: "session E opts m0 k0 sc m out w s \<Longrightarrow> cq_event (cq s) = Some e \<Longrightarrow>
    queue_depth (config s) > 0 \<Longrightarrow> 8 \<le> n \<Longrightarrow> read_retry (host E) (read_fd e) n (kern s) = Some (r, k) \<Longrightarrow>
    session E opts m0 k0 sc m out True (s\<lparr>kern := k\<rparr>)"
| store: "session E opts m0 k0 sc m out w s \<Longrightarrow>
    (\<And>u a n. (u, a, n) \<in> set out \<Longrightarrow> \<not> (a \<le> p \<and> p < a + n)) \<Longrightarrow>
    session E opts m0 k0 sc m out w (s\<lparr>mem := (mem s)(p := b)\<rparr>)"
| run: "session E opts m0 k0 sc m out w s \<Longrightarrow> run_workers E is s = Some s' \<Longrightarrow>
    session E opts m0 k0 sc m out w (s'\<lparr>sched := sc'\<rparr>)"

text \<open>The invariant of a session.\<close>

definition session_ghost ::
    "'x hash_model \<Rightarrow> 'k event_model \<Rightarrow> (nat \<times> nat \<times> nat) list \<Rightarrow> bool \<Rightarrow> ('x, 'k) ghost" where
  "session_ghost M EM out w = (new_ghost M EM)\<lparr>g_out := out, g_waited := w\<rparr>"

lemma session_ghost_simps [simp]:
  "g_hash (session_ghost M EM out w) = M" "g_event (session_ghost M EM out w) = EM"
  "g_out (session_ghost M EM out w) = out" "g_held (session_ghost M EM out w) = None"
  "g_waited (session_ghost M EM out w) = w"
  "(session_ghost M EM out w)\<lparr>g_out := out'\<rparr> = session_ghost M EM out' w"
  "(session_ghost M EM out w)\<lparr>g_waited := w'\<rparr> = session_ghost M EM out w'"
  by (simp_all add: session_ghost_def new_ghost_def)

lemma new_session_ghost: "new_ghost M EM = session_ghost M EM [] False"
  by (simp add: session_ghost_def new_ghost_def)

definition session_inv ::
    "('x, 'k) ext \<Rightarrow> 'x hash_model \<Rightarrow> 'k event_model \<Rightarrow> blkhash_opts \<Rightarrow> bytes \<Rightarrow>
     (nat \<times> nat \<times> nat) list \<Rightarrow> bool \<Rightarrow> ('x, 'k) sys \<Rightarrow> bool" where
  "session_inv E M EM opts m out w s \<longleftrightarrow>
     hinv E (session_ghost M EM out w) m s \<and> distinct (map fst out) \<and> owned_ok s \<and>
     block_size (config s) = o_block_size opts \<and> queue_depth (config s) = o_queue_depth opts"

lemma owned_ok_ckeeps: "owned_ok s \<Longrightarrow> ckeeps s s' \<Longrightarrow> owned_ok s'"
  by (simp add: owned_ok_def ckeeps_def keeps_def)

lemma owned_ok_frame [simp]:
  "owned_ok (s\<lparr>message_length := l\<rparr>) \<longleftrightarrow> owned_ok s" "owned_ok (s\<lparr>inflight := n\<rparr>) \<longleftrightarrow> owned_ok s"
  "owned_ok (s\<lparr>finalized := b\<rparr>) \<longleftrightarrow> owned_ok s" "owned_ok (s\<lparr>kern := k\<rparr>) \<longleftrightarrow> owned_ok s"
  "owned_ok (s\<lparr>mem := f\<rparr>) \<longleftrightarrow> owned_ok s"
  by (simp_all add: owned_ok_def)

lemma distinct_received: "distinct (map fst out) \<Longrightarrow> distinct (map fst (received D out))"
  by (induction out) (auto simp: received_def)

lemma session_inv_next:
  assumes "session_inv E M EM opts m out w s" and "hinv E (session_ghost M EM out' w') m' s'"
    and "ckeeps (s\<lparr>message_length := message_length s', inflight := inflight s'\<rparr>) s'"
    and "distinct (map fst out')"
  shows "session_inv E M EM opts m' out' w' s'"
  using assms owned_ok_ckeeps [OF _ assms(3)] ckeepsD(1) [OF assms(3)] by (simp add: session_inv_def)

lemma session_invariant:
  assumes "session E opts m0 k0 sc m out w s" and env: "env_ok E M EM opts k0" and opts: "opts_ok opts"
  shows "session_inv E M EM opts m out w s"
  using assms(1)
proof induction
  case (new s)
  then show ?case
    using blkhash_new_opts_ok [OF env opts, of m0 sc]
    by (simp add: session_inv_def new_session_ghost [symmetric])
next
  case (update m out w s len a r s')
  then have "hinv E (session_ghost M EM out w) m s" by (simp add: session_inv_def)
  from blkhash_update_ok [OF this update.hyps(2), of a] update show ?case
    by (intro session_inv_next [OF update.IH]) (auto simp: session_inv_def ckeeps_def keeps_def)
next
  case (zero m out w s len r s')
  then have "hinv E (session_ghost M EM out w) m s" by (simp add: session_inv_def)
  from blkhash_zero_ok [OF this zero.hyps(2)] zero show ?case
    by (intro session_inv_next [OF zero.IH]) (auto simp: session_inv_def ckeeps_def keeps_def)
next
  case (aio_update m out w s len ud a s')
  then have "hinv E (session_ghost M EM out w) m s" by (simp add: session_inv_def)
  from blkhash_aio_update_ok [OF this aio_update.hyps(2), of a ud] aio_update show ?case
    by (intro session_inv_next [OF aio_update.IH]) (auto simp: session_inv_def split: if_splits)
next
  case (aio_refused m out w s len a ud r s')
  then have "hinv E (session_ghost M EM out w) m s" by (simp add: session_inv_def)
  from blkhash_aio_update_ok [OF this aio_refused.hyps(2), of a ud] aio_refused show ?case
    by (intro session_inv_next [OF aio_refused.IH]) (auto simp: session_inv_def split: if_splits)
next
  case (completions m out w s cnt r D s')
  then have "hinv E (session_ghost M EM out w) m s" "distinct (map fst out)" by (simp_all add: session_inv_def)
  with completions_hinv [of E "session_ghost M EM out w" m s cnt] completions.hyps(2) show ?case
    by (intro session_inv_next [OF completions.IH])
      (auto simp: ckeeps_def keeps_def caller_eq_def intro: distinct_received)
next
  case (read_fd m out w s e n r k)
  then have "hinv E (session_ghost M EM out w) m s" by (simp add: session_inv_def)
  from read_fd_hinv [OF this read_fd.hyps(3,4)] read_fd show ?case by (auto simp: session_inv_def)
next
  case (store m out w s p b)
  then have "hinv E (session_ghost M EM out w) m s" by (simp add: session_inv_def)
  from store_hinv [OF this, of p b] store show ?case by (simp add: session_inv_def)
next
  case (run m out w s "is" s' sc')
  then have "hinv E (session_ghost M EM out w) m s" "distinct (map fst out)" by (simp_all add: session_inv_def)
  with run_workers_hinv [of E "session_ghost M EM out w" m s "is" s'] run.hyps(2) show ?case
    by (intro session_inv_next [OF run.IH]) (auto simp: ckeeps_def keeps_def caller_eq_def)
qed

end
