(* ===== verification/Shutdown.thy ===== *)
theory Shutdown
  imports Session
begin

text \<open>
  Releasing a hash (\<^verbatim>\<open>blkhash_free\<close>, \<^verbatim>\<open>hash_pool_destroy\<close>, \<^verbatim>\<open>stop_workers\<close>) once it is final: every
  worker thread terminates and everything the hash allocated is freed.
\<close>

section \<open>A quiet pool\<close>

text \<open>The workers have nothing to do, and nothing they could touch is left.\<close>

fun resting :: "'x thread \<Rightarrow> bool" where
  "resting Start = True"
| "resting (Loop d) = True"
| "resting (Wait d) = True"
| "resting (Woken d) = True"
| "resting t = False"

fun stopping :: "'x thread \<Rightarrow> bool" where
  "stopping Start = True"
| "stopping (Loop d) = True"
| "stopping (Woken d) = True"
| "stopping Exited = True"
| "stopping t = False"

definition pool_base :: "('x, 'k) ext \<Rightarrow> 'x hash_model \<Rightarrow> 'k \<Rightarrow> ('x, 'k) sys \<Rightarrow> bool" where
  "pool_base E M k s \<longleftrightarrow>
     crypto_ok (crypto E) (digest_name (config s)) M \<and> faults s = [] \<and> kern s = k \<and>
     (\<forall>j. cells (subs s) j = None) \<and> (\<forall>c. cells (comps s) c = None) \<and> pq_inv (pool s) \<and>
     p_workers_idle (pool s) = tsum thread_idle (threads s) \<and>
     p_workers_count (pool s) = length (threads s) \<and> length (threads s) < 2 ^ 32"

definition qinv :: "('x, 'k) ext \<Rightarrow> 'x hash_model \<Rightarrow> 'k \<Rightarrow> ('x, 'k) sys \<Rightarrow> bool" where
  "qinv E M k s \<longleftrightarrow>
     pool_base E M k s \<and> p_queue_len (pool s) = 0 \<and> (\<forall>t\<in>set (threads s). resting t)"

text \<open>The workers were told to stop: there is one stop message for each of them that still runs.\<close>

definition jinv :: "('x, 'k) ext \<Rightarrow> 'x hash_model \<Rightarrow> 'k \<Rightarrow> ('x, 'k) sys \<Rightarrow> bool" where
  "jinv E M k s \<longleftrightarrow>
     pool_base E M k s \<and> (\<forall>t\<in>set (threads s). stopping t) \<and>
     pq_view (pool s) = replicate (length (filter (\<lambda>t. t \<noteq> Exited) (threads s))) STOP"

lemma start_step:
  assumes "pool_base E M k s" and "threads s = xs @ Start # ys" and "i = length xs"
  shows "\<exists>d. worker_thread E i s = Some (s\<lparr>threads := xs @ Loop d # ys\<rparr>) \<and>
    pool_base E M k (s\<lparr>threads := xs @ Loop d # ys\<rparr>)"
proof -
  obtain d where "digest_create (crypto E) (digest_name (config s)) [] = (Inr d, [])"
    using dg.create_usable assms(1) unfolding pool_base_def by blast
  moreover have "s\<lparr>faults := []\<rparr> = s" using assms(1) by (cases s) (simp add: pool_base_def)
  moreover have "faults s = []" using assms(1) by (simp add: pool_base_def)
  ultimately have "worker_thread E i s = Some (s\<lparr>threads := xs @ Loop d # ys\<rparr>)"
    using assms(2,3) by (simp add: worker_thread_def set_thread_def)
  moreover have "pool_base E M k (s\<lparr>threads := xs @ Loop d # ys\<rparr>)"
    using assms(1,2) by (simp add: pool_base_def)
  ultimately show ?thesis by blast
qed

lemma awake_base:
  assumes "pool_base E M k s" and "threads s = xs @ t # ys" and "t = Wait d \<or> t = Woken d"
  shows "pool_base E M k (s\<lparr>pool := (pool s)\<lparr>p_workers_idle := sub32 (p_workers_idle (pool s)) 1\<rparr>,
    threads := xs @ Loop d # ys\<rparr>)"
proof -
  have "p_workers_idle (pool s) < 2 ^ 32"
    using assms(1) idle_le [of "threads s"] unfolding pool_base_def by linarith
  then show ?thesis using assms by (auto simp: pool_base_def pq_inv_def)
qed

lemma threads_split:
  assumes "i < length (threads s)"
  obtains xs t ys where "threads s = xs @ t # ys" and "i = length xs" and "threads s ! i = t"
  using assms id_take_nth_drop [of i "threads s"] by (metis length_take less_imp_le min.absorb2)

subsection \<open>Before the stop messages\<close>

lemma quiet_sleep:
  assumes "qinv E M k s" and "threads s = xs @ Loop d # ys" and "i = length xs"
  shows "\<exists>p. wait_for_work i d s = Some (s\<lparr>pool := p, threads := xs @ Wait d # ys\<rparr>) \<and>
    qinv E M k (s\<lparr>pool := p, threads := xs @ Wait d # ys\<rparr>) \<and> p_queue_len p = 0 \<and>
    caller_eq s (s\<lparr>pool := p, threads := xs @ Wait d # ys\<rparr>)"
proof -
  let ?p = "(pool s)\<lparr>p_workers_idle := u32 (p_workers_idle (pool s) + 1)\<rparr>"
  have "p_workers_idle (pool s) + 1 < 2 ^ 32"
    using assms(1,2) idle_le [of xs] idle_le [of ys] by (simp add: qinv_def pool_base_def)
  then have "qinv E M k (s\<lparr>pool := ?p, threads := xs @ Wait d # ys\<rparr>)"
    using assms(1,2) by (auto simp: qinv_def pool_base_def pq_inv_def)
  then show ?thesis
    using assms by (intro exI [of _ ?p]) (simp add: wait_for_work_def qinv_def set_thread_def caller_eq_def)
qed

lemma quiet_step:
  assumes inv: "qinv E M k s"
  shows "ensures (worker_thread E i s) (\<lambda>s'. qinv E M k s' \<and> caller_eq s s' \<and>
    (i < length (threads s) \<and> runnable (threads s ! i) \<longrightarrow> work_left s' < work_left s))"
proof (cases "i < length (threads s)")
  case False
  then show ?thesis using inv by (simp add: worker_thread_def)
next
  case True
  then obtain xs t ys where ts: "threads s = xs @ t # ys" and i: "i = length xs" and nth: "threads s ! i = t"
    by (rule threads_split)
  have base: "pool_base E M k s" and q: "p_queue_len (pool s) = 0" and rest: "resting t"
    and others: "\<forall>u\<in>set xs \<union> set ys. resting u"
    using inv ts by (auto simp: qinv_def)
  have sleep: "ensures (worker_thread E i s) (\<lambda>s'. qinv E M k s' \<and> caller_eq s s' \<and>
      (i < length (threads s) \<and> runnable (threads s ! i) \<longrightarrow> work_left s' < work_left s))"
    if t: "t = Wait d \<or> t = Woken d" for d
  proof -
    let ?s = "s\<lparr>pool := (pool s)\<lparr>p_workers_idle := sub32 (p_workers_idle (pool s)) 1\<rparr>, threads := xs @ Loop d # ys\<rparr>"
    have "qinv E M k ?s" using awake_base [OF base ts t] q others by (auto simp: qinv_def)
    from quiet_sleep [OF this, of xs d ys i] obtain p where
      p: "wait_for_work i d ?s = Some (?s\<lparr>pool := p, threads := xs @ Wait d # ys\<rparr>)"
        "qinv E M k (?s\<lparr>pool := p, threads := xs @ Wait d # ys\<rparr>)" "p_queue_len p = 0"
        "caller_eq ?s (?s\<lparr>pool := p, threads := xs @ Wait d # ys\<rparr>)"
      using i by auto
    have "worker_thread E i s = Some (s\<lparr>pool := p, threads := xs @ Wait d # ys\<rparr>)"
      using p(1) t True nth ts i
      by (auto simp: worker_thread_def wait_for_work_awake_def wait_for_work_def set_thread_def
          split: if_splits prod.splits sub_ptr.splits)
    then show ?thesis
      using p(2-4) t q ts nth by (auto simp: caller_eq_def work_left_tsum)
  qed
  show ?thesis
  proof (cases t)
    case Start
    then show ?thesis
      using start_step [OF base, of xs ys i] ts i True q others nth
      by (auto simp: qinv_def caller_eq_def work_left_tsum)
  next
    case (Loop d)
    then show ?thesis
      using quiet_sleep [OF inv, of xs d ys i] ts i True nth q
      by (auto simp: worker_thread_def work_left_tsum)
  next
    case (Wait d)
    then show ?thesis by (intro sleep) simp
  next
    case (Woken d)
    then show ?thesis by (intro sleep) simp
  qed (use rest in simp_all)
qed

interpretation quiet: worker_steps E "qinv E M k" for E M k
proof
  fix s sc show "qinv E M k (s\<lparr>sched := sc\<rparr>) \<longleftrightarrow> qinv E M k s"
    by (simp add: qinv_def pool_base_def)
qed (rule quiet_step)

subsection \<open>After the stop messages\<close>

lemma pop_stop:
  assumes "pq_inv p" and "pq_view p = replicate (Suc r) STOP"
  shows "\<exists>p'. pop_unlocked p = (STOP, p') \<and> pq_inv p' \<and> pq_view p' = replicate r STOP \<and>
    p_queue_len p' < p_queue_len p \<and> p_workers_idle p' = p_workers_idle p \<and>
    p_workers_count p' = p_workers_count p \<and> p_queue_size p' = p_queue_size p \<and>
    p_queue_mem p' = p_queue_mem p \<and> p_workers_mem p' = p_workers_mem p"
proof -
  let ?p = "snd (pop_unlocked p)"
  have ne: "pq_view p \<noteq> []" using assms(2) by simp
  have "pq_view p = fst (pop_unlocked p) # pq_view ?p" using pqf.pop_view [OF assms(1) ne] .
  then have v: "fst (pop_unlocked p) = STOP" "pq_view ?p = replicate r STOP" using assms(2) by simp_all
  have "p_queue_len p = Suc r" using assms(2) length_pq_view [of p] by simp
  moreover have "p_queue_len ?p = r" using v(2) length_pq_view [of ?p] by simp
  ultimately show ?thesis
    using pqf.pop_inv [OF assms(1) ne] v by (intro exI [of _ ?p]) (auto simp: pop_unlocked_def prod_eq_iff)
qed

lemma stop_exit:
  assumes inv: "jinv E M k s" and ts: "threads s = xs @ Loop d # ys" and i: "i = length xs"
  shows "\<exists>p. wait_for_work i d s = Some (s\<lparr>pool := p, threads := xs @ Exited # ys\<rparr>) \<and>
    jinv E M k (s\<lparr>pool := p, threads := xs @ Exited # ys\<rparr>) \<and> p_queue_len p < p_queue_len (pool s) \<and>
    caller_eq s (s\<lparr>pool := p, threads := xs @ Exited # ys\<rparr>)"
proof -
  let ?r = "length (filter (\<lambda>t. t \<noteq> Exited) (xs @ ys))"
  have "pq_inv (pool s)" and view: "pq_view (pool s) = replicate (Suc ?r) STOP"
    using inv ts by (simp_all add: jinv_def pool_base_def)
  then obtain p where p: "pop_unlocked (pool s) = (STOP, p)" "pq_inv p" "pq_view p = replicate ?r STOP"
      "p_queue_len p < p_queue_len (pool s)" "p_workers_idle p = p_workers_idle (pool s)"
      "p_workers_count p = p_workers_count (pool s)" "p_queue_size p = p_queue_size (pool s)"
      "p_queue_mem p = p_queue_mem (pool s)" "p_workers_mem p = p_workers_mem (pool s)"
    using pop_stop by blast
  moreover have "jinv E M k (s\<lparr>pool := p, threads := xs @ Exited # ys\<rparr>)"
    using inv ts p by (simp add: jinv_def pool_base_def)
  ultimately show ?thesis
    using ts i by (intro exI [of _ p]) (auto simp: wait_for_work_def set_thread_def caller_eq_def)
qed

definition exited_set :: "nat set \<Rightarrow> ('x, 'k) sys \<Rightarrow> bool" where
  "exited_set K s \<longleftrightarrow> (\<forall>n\<in>K. n < length (threads s) \<and> threads s ! n = Exited)"

lemma exited_set_step:
  "exited_set K s \<Longrightarrow> threads s = xs @ t # ys \<Longrightarrow> t \<noteq> Exited \<Longrightarrow>
   threads s' = xs @ u # ys \<Longrightarrow> exited_set K s'"
  by (auto simp: exited_set_def nth_append nth_Cons split: if_splits nat.splits)

lemma join_step:
  assumes inv: "jinv E M k s" and K: "exited_set K s"
  shows "ensures (worker_thread E i s) (\<lambda>s'. (jinv E M k s' \<and> exited_set K s') \<and> caller_eq s s' \<and>
    (i < length (threads s) \<and> runnable (threads s ! i) \<longrightarrow> work_left s' < work_left s))"
proof (cases "i < length (threads s) \<and> threads s ! i \<noteq> Exited")
  case False
  then show ?thesis using inv K by (auto simp: worker_thread_def)
next
  case True
  then obtain xs t ys where ts: "threads s = xs @ t # ys" and i: "i = length xs" and nth: "threads s ! i = t"
    using threads_split by metis
  have base: "pool_base E M k s" and stop: "stopping t"
    and others: "\<forall>u\<in>set xs \<union> set ys. stopping u"
    using inv ts by (auto simp: jinv_def)
  have ne: "t \<noteq> Exited" using True nth by simp
  note K' = exited_set_step [OF K ts ne]
  show ?thesis
  proof (cases t)
    case Start
    obtain d where d: "worker_thread E i s = Some (s\<lparr>threads := xs @ Loop d # ys\<rparr>)"
        "pool_base E M k (s\<lparr>threads := xs @ Loop d # ys\<rparr>)"
      using start_step [OF base, of xs ys i] ts i Start by blast
    then show ?thesis
      using inv Start ts others K' [of "s\<lparr>threads := xs @ Loop d # ys\<rparr>"]
      by (auto simp: jinv_def caller_eq_def work_left_tsum)
  next
    case (Loop d)
    obtain p where "wait_for_work i d s = Some (s\<lparr>pool := p, threads := xs @ Exited # ys\<rparr>)"
        "jinv E M k (s\<lparr>pool := p, threads := xs @ Exited # ys\<rparr>)" "p_queue_len p < p_queue_len (pool s)"
        "caller_eq s (s\<lparr>pool := p, threads := xs @ Exited # ys\<rparr>)"
      using stop_exit [OF inv, of xs d ys i] ts i Loop by blast
    then show ?thesis
      using Loop ts nth True K' [of "s\<lparr>pool := p, threads := xs @ Exited # ys\<rparr>"]
      by (auto simp: worker_thread_def work_left_tsum)
  next
    case (Woken d)
    let ?s = "s\<lparr>pool := (pool s)\<lparr>p_workers_idle := sub32 (p_workers_idle (pool s)) 1\<rparr>, threads := xs @ Loop d # ys\<rparr>"
    have "pool_base E M k ?s" using awake_base [OF base ts, of d] Woken by blast
    then have "jinv E M k ?s" using inv Woken ts others by (auto simp: jinv_def pq_view_def)
    then obtain p where p: "wait_for_work i d ?s = Some (?s\<lparr>pool := p, threads := xs @ Exited # ys\<rparr>)"
        "jinv E M k (?s\<lparr>pool := p, threads := xs @ Exited # ys\<rparr>)" "p_queue_len p < p_queue_len (pool s)"
        "caller_eq ?s (?s\<lparr>pool := p, threads := xs @ Exited # ys\<rparr>)"
      using stop_exit [of E M k ?s xs d ys i] i by auto
    have "worker_thread E i s = Some (s\<lparr>pool := p, threads := xs @ Exited # ys\<rparr>)"
      using p(1) Woken True nth ts i
      by (auto simp: worker_thread_def wait_for_work_awake_def wait_for_work_def set_thread_def
          split: if_splits prod.splits sub_ptr.splits)
    then show ?thesis
      using p(2-4) Woken ts K' [of "s\<lparr>pool := p, threads := xs @ Exited # ys\<rparr>"]
      by (auto simp: caller_eq_def work_left_tsum)
  qed (use stop ne in simp_all)
qed

lemma join_length: "jinv E M k s \<Longrightarrow> jinv E M k s' \<Longrightarrow> caller_eq s s' \<Longrightarrow> length (threads s') = length (threads s)"
  by (simp add: jinv_def pool_base_def caller_eq_def)

lemma join_progress:
  assumes "jinv E M k s" and "i < length (threads s)" and "\<not> exited_in i s"
  shows "\<exists>i < length (threads s). runnable (threads s ! i)"
proof -
  have "stopping (threads s ! i)" "threads s ! i \<noteq> Exited" using assms by (auto simp: jinv_def exited_in_def)
  then have "runnable (threads s ! i)" by (cases "threads s ! i") auto
  with assms(2) show ?thesis by blast
qed

definition joining ::
    "('x, 'k) ext \<Rightarrow> 'x hash_model \<Rightarrow> 'k \<Rightarrow> nat set \<Rightarrow> nat \<Rightarrow> ('x, 'k) sys \<Rightarrow> bool" where
  "joining E M k K i s \<longleftrightarrow> jinv E M k s \<and> exited_set K s \<and> i < length (threads s)"

lemma joining_step:
  assumes "joining E M k K i s"
  shows "ensures (worker_thread E n s) (\<lambda>s'. joining E M k K i s' \<and> caller_eq s s' \<and>
    (n < length (threads s) \<and> runnable (threads s ! n) \<longrightarrow> work_left s' < work_left s))"
proof (rule ensures_mono [OF join_step])
  show "jinv E M k s" "exited_set K s" using assms by (simp_all add: joining_def)
  fix s' assume "(jinv E M k s' \<and> exited_set K s') \<and> caller_eq s s' \<and>
    (n < length (threads s) \<and> runnable (threads s ! n) \<longrightarrow> work_left s' < work_left s)"
  then show "joining E M k K i s' \<and> caller_eq s s' \<and>
    (n < length (threads s) \<and> runnable (threads s ! n) \<longrightarrow> work_left s' < work_left s)"
    using assms join_length [of E M k s s'] by (simp add: joining_def)
qed

interpretation join_wait: worker_wait E "joining E M k K i" "exited_in i" for E M k K i
proof
  fix s sc
  show "joining E M k K i (s\<lparr>sched := sc\<rparr>) \<longleftrightarrow> joining E M k K i s"
    by (simp add: joining_def jinv_def pool_base_def exited_set_def)
  show "exited_in i (s\<lparr>sched := sc\<rparr>) \<longleftrightarrow> exited_in i s" by (simp add: exited_in_def)
  show "\<exists>i < length (threads s). runnable (threads s ! i)" if "joining E M k K i s" "\<not> exited_in i s"
    by (rule join_progress [of E M k s i]) (use that in \<open>simp_all add: joining_def\<close>)
qed (rule joining_step)

lemma join_workers_ok:
  assumes "jinv E M k s" and "exited_set K s" and "\<forall>i\<in>set is. i < length (threads s)"
  shows "ensures (join_workers E is s) (\<lambda>s'. jinv E M k s' \<and> exited_set (K \<union> set is) s' \<and> caller_eq s s')"
  using assms
proof (induction "is" arbitrary: s K)
  case (Cons i "is")
  have i: "i < length (threads s)" using Cons.prems by simp
  have "ensures (wait_until E (exited_in i) s)
      (\<lambda>s'. joining E M k K i s' \<and> caller_eq s s' \<and> exited_in i s')"
    using Cons.prems i by (intro join_wait.wait_until_ends) (simp add: joining_def)
  then have "ensures (wait_until E (exited_in i) s) (\<lambda>s1. ensures (join_workers E is s1)
      (\<lambda>s'. jinv E M k s' \<and> exited_set (insert i K \<union> set is) s' \<and> caller_eq s s'))"
  proof (rule ensures_mono)
    fix s1 assume s1: "joining E M k K i s1 \<and> caller_eq s s1 \<and> exited_in i s1"
    then have "length (threads s1) = length (threads s)"
      using join_length [OF Cons.prems(1)] by (simp add: joining_def)
    then have "ensures (join_workers E is s1)
        (\<lambda>s'. jinv E M k s' \<and> exited_set (insert i K \<union> set is) s' \<and> caller_eq s1 s')"
      using s1 Cons.prems(3) i by (intro Cons.IH) (auto simp: joining_def exited_set_def exited_in_def)
    then show "ensures (join_workers E is s1)
        (\<lambda>s'. jinv E M k s' \<and> exited_set (insert i K \<union> set is) s' \<and> caller_eq s s')"
      by (rule ensures_mono) (use s1 caller_eq_trans in auto)
  qed
  then show ?case using i by simp
qed simp

lemma push_stops_ok:
  assumes "pq_inv p" and "p_queue_len p + n \<le> p_queue_size p"
  shows "pq_inv (push_stops n p) \<and> pq_view (push_stops n p) = pq_view p @ replicate n STOP \<and>
    p_workers_idle (push_stops n p) = p_workers_idle p \<and> p_workers_count (push_stops n p) = p_workers_count p \<and>
    p_queue_size (push_stops n p) = p_queue_size p \<and> p_queue_mem (push_stops n p) = p_queue_mem p \<and>
    p_workers_mem (push_stops n p) = p_workers_mem p"
  using assms
proof (induction n arbitrary: p)
  case (Suc n)
  have room: "length (pq_view p) < p_queue_size p" using Suc.prems(2) by simp
  have "pq_inv (push_unlocked p STOP)" and v: "pq_view (push_unlocked p STOP) = pq_view p @ [STOP]"
    using pqf.push_inv [OF Suc.prems(1) room] pqf.push_view [OF Suc.prems(1) room] by auto
  moreover have "p_queue_len (push_unlocked p STOP) = Suc (p_queue_len p)"
    using v length_pq_view [of "push_unlocked p STOP"] by simp
  ultimately show ?case
    using Suc.IH [of "push_unlocked p STOP"] Suc.prems(2) by (simp add: push_unlocked_def)
qed simp

lemma cond_broadcast_stopping: "\<forall>t\<in>set ts. resting t \<Longrightarrow> \<forall>t\<in>set (cond_broadcast ts). stopping t \<and> t \<noteq> Exited"
proof -
  have "stopping (wake t) \<and> wake t \<noteq> Exited" if "resting t" for t :: "'a thread" using that by (cases t) auto
  then show "\<forall>t\<in>set ts. resting t \<Longrightarrow> ?thesis" by (auto simp: cond_broadcast_def)
qed

lemma cond_broadcast_idle: "tsum thread_idle (cond_broadcast ts) = tsum thread_idle ts"
proof -
  have "thread_idle (wake t) = thread_idle t" for t :: "'a thread" by (cases t) auto
  then show ?thesis by (simp add: cond_broadcast_def tsum_def comp_def)
qed

lemma stop_workers_ok:
  assumes inv: "qinv E M k s" and room: "length (threads s) \<le> p_queue_size (pool s)"
  shows "ensures (stop_workers E s) (\<lambda>s'. jinv E M k s' \<and> (\<forall>t\<in>set (threads s'). t = Exited) \<and> caller_eq s s')"
  unfolding stop_workers_def
proof (subst ensures_bind, rule ensures_mono [OF quiet.yield_inv [OF inv]], clarify, goal_cases)
  case (1 s1)
  let ?p = "(pool s1)\<lparr>p_stopped := True\<rparr>"
  let ?s = "s1\<lparr>pool := push_stops (length (threads s1)) ?p, threads := cond_broadcast (threads s1)\<rparr>"
  have base: "pool_base E M k s1" and len: "p_queue_len (pool s1) = 0" and rest: "\<forall>t\<in>set (threads s1). resting t"
    using 1(1) by (auto simp: qinv_def)
  have n: "p_workers_count (pool s1) = length (threads s1)" using base by (simp add: pool_base_def)
  have "length (threads s1) = length (threads s)" "p_queue_size (pool s1) = p_queue_size (pool s)"
    using n 1(2) inv by (simp_all add: caller_eq_def qinv_def pool_base_def)
  then have "p_queue_len ?p + length (threads s1) \<le> p_queue_size ?p" using room len by simp
  moreover have "pq_inv ?p" using base by (simp add: pool_base_def pq_inv_def)
  ultimately have p: "pq_inv (pool ?s)" "pq_view (pool ?s) = replicate (length (threads s1)) STOP"
      "p_workers_idle (pool ?s) = p_workers_idle (pool s1)" "p_workers_count (pool ?s) = length (threads s1)"
      "p_queue_size (pool ?s) = p_queue_size (pool s1)" "p_queue_mem (pool ?s) = p_queue_mem (pool s1)"
      "p_workers_mem (pool ?s) = p_workers_mem (pool s1)"
    using push_stops_ok [of ?p "length (threads s1)"] n len by (auto simp: pq_view_def)
  have "filter (\<lambda>t. t \<noteq> Exited) (threads ?s) = threads ?s"
    using cond_broadcast_stopping [OF rest] by (simp add: filter_id_conv)
  then have "jinv E M k ?s"
    using base p cond_broadcast_stopping [OF rest]
    by (simp add: jinv_def pool_base_def cond_broadcast_idle) (simp add: cond_broadcast_def)
  moreover have "caller_eq s ?s" using 1(2) p n by (simp add: caller_eq_def)
  moreover have "exited_set {} ?s" by (simp add: exited_set_def)
  moreover have "length (threads ?s) = length (threads s1)" by (simp add: cond_broadcast_def)
  ultimately have "ensures (join_workers E [0..<length (threads s1)] ?s)
      (\<lambda>s'. jinv E M k s' \<and> (\<forall>t\<in>set (threads s'). t = Exited) \<and> caller_eq s s')"
    using join_workers_ok [of E M k ?s "{}" "[0..<length (threads s1)]"]
    by (auto elim!: ensures_mono simp: exited_set_def in_set_conv_nth join_length intro: caller_eq_trans)
  then show ?case using len n p(4) by (simp add: Let_def)
qed

section \<open>Releasing a hash\<close>

lemma busy_free_resting: "thread_busy t = {#} \<Longrightarrow> t \<noteq> Exited \<Longrightarrow> resting t"
  by (cases t) auto

lemma busy_calls: "thread_busy t = {#} \<Longrightarrow> thread_calls t = {#}"
  by (cases t) auto

lemma tsum_empty_iff: "tsum f ts = {#} \<longleftrightarrow> (\<forall>t\<in>set ts. f t = {#})"
  by (induction ts) auto

lemma comps_empty:
  assumes "winv E G s" and "g_held G = None" and "refs_of s = {#}" and "calls_of s = {#}"
  shows "cells (comps s) c = None"
proof (rule ccontr)
  assume "cells (comps s) c \<noteq> None"
  then obtain v where v: "cells (comps s) c = Some v" by blast
  then have "c_refs v = 0" using winvD(8) [OF assms(1)] assms(2,3) by (simp add: comps_inv_def)
  then have "count (calls_of s) c = 1" using winvD(8) [OF assms(1)] v by (simp add: comps_inv_def)
  then show False by (simp add: assms(4))
qed

text \<open>Once the calling thread has consumed every submission, the workers hold nothing.\<close>

lemma winv_quiet:
  assumes inv: "winv E G s" and log: "g_log G = []" and held: "g_held G = None"
  shows "qinv E (g_hash G) (kern s) s"
proof -
  note w = inv [unfolded winv_def]
  have subs: "cells (subs s) j = None" for j using w by (simp add: subs_inv_def log)
  have busy: "busy_of s = {#}" using w by (simp add: subs_inv_def log)
  then have none: "queued (pool s) = []" "\<forall>t\<in>set (threads s). thread_busy t = {#}"
    by (simp_all add: busy_of_def tsum_empty_iff)
  have refs: "refs_of s = {#}" using refs_sub_busy [of s] busy by simp
  have calls: "calls_of s = {#}" using none(2) by (simp add: calls_of_def tsum_empty_iff busy_calls)
  have "cells (comps s) c = None" for c by (rule comps_empty [OF inv held refs calls])
  moreover have "p_queue_len (pool s) = 0" using none(1) length_pq_view [of "pool s"] by (simp add: queued_def)
  moreover have "\<forall>t\<in>set (threads s). resting t"
    using none(2) w by (auto simp: threads_ok_def intro: busy_free_resting)
  ultimately show ?thesis using w subs by (simp add: qinv_def pool_base_def pool_inv_def)
qed

text \<open>Nothing the hash has allocated or opened is left, and no thread runs.\<close>

definition released :: "('x, 'k) sys \<Rightarrow> bool" where
  "released s \<longleftrightarrow>
     (\<forall>t\<in>set (threads s). t = Exited) \<and> (\<forall>j. cells (subs s) j = None) \<and> (\<forall>c. cells (comps s) c = None) \<and>
     buf_data_mem (pending s) \<noteq> Allocated \<and> sq_ring_mem (sq s) \<noteq> Allocated \<and>
     p_queue_mem (pool s) \<noteq> Allocated \<and> p_workers_mem (pool s) \<noteq> Allocated \<and>
     cq_array_mem (cq s) \<noteq> Allocated \<and> cq_event (cq s) = None \<and> outer_digest s = None"

lemma blkhash_free_ok:
  assumes inv: "finv E G s" and own: "owned_ok s"
  shows "ensures (blkhash_free E s) (\<lambda>s'. released s' \<and>
    kern s' = (if queue_depth (config s) > 0 then event_close (host E) (cq_event (cq s)) (kern s) else kern s))"
proof -
  let ?k = "if queue_depth (config s) > 0 then event_close (host E) (cq_event (cq s)) (kern s) else kern s"
  let ?q = "(cq s)\<lparr>cq_array_mem := if queue_depth (config s) > 0 then Dangling else Null, cq_event := None\<rparr>"
  let ?s = "s\<lparr>outer_digest := None, pending := (pending s)\<lparr>buf_data_mem := Dangling\<rparr>, kern := ?k, cq := ?q, sq := sq_zero\<rparr>"
  have "qinv E (g_hash G) (kern s) s"
    using inv winv_quiet [of E "G\<lparr>g_log := []\<rparr>" s] by (simp add: finv_def)
  then have q: "qinv E (g_hash G) ?k ?s" by (simp add: qinv_def pool_base_def)
  have room: "length (threads ?s) \<le> p_queue_size (pool ?s)"
    using q own by (simp add: qinv_def pool_base_def owned_ok_def)
  have sq: "sq_len (sq s) = 0" using inv sq_ok_len [of "[]" s] by (simp add: finv_def)
  have cq: "(cq s)\<lparr>cq_array_mem := Null, cq_event := None\<rparr> = cq s" if "queue_depth (config s) = 0"
    using own that by (cases "cq s") (simp add: owned_ok_def)
  have "ensures (stop_workers E ?s) (\<lambda>s'. ensures (pool_free s') (\<lambda>s''. released s'' \<and> kern s'' = ?k))"
    by (rule ensures_mono [OF stop_workers_ok [OF q room]])
      (use own in \<open>auto simp: pool_free_def released_def jinv_def pool_base_def caller_eq_def owned_ok_def sq_zero_def\<close>)
  moreover have "blkhash_free E s = hash_pool_destroy E ?s"
    using own sq
    by (cases "queue_depth (config s) = 0")
      (simp_all add: cq blkhash_free_def submission_queue_destroy_def owned_ok_def)
  ultimately show ?thesis by (simp add: hash_pool_destroy_def)
qed

section \<open>Idle workers\<close>

text \<open>When no worker can run, every completion is in the completion queue and the event says so.\<close>

lemma idle_holdings:
  assumes inv: "winv E G s" and idle: "\<forall>t\<in>set (threads s). \<not> runnable t"
  shows "refs_of s = {#}" and "calls_of s = {#}" and "sigs_of s = {#}" and "\<not> notify_of s"
proof -
  have "p_queue_len (pool s) = 0" using winvD(1) [OF inv] idle by (auto simp: pool_inv_def)
  then have q: "queued (pool s) = []" by (simp add: queued_def pq_view_def)
  have "thread_refs t = {#} \<and> thread_calls t = {#} \<and> thread_sigs t = {#} \<and> \<not> thread_notify t"
    if "t \<in> set (threads s)" for t
    using idle that by (cases t) auto
  then show "refs_of s = {#}" and "calls_of s = {#}" and "sigs_of s = {#}" and "\<not> notify_of s"
    using q by (auto simp: holdings_defs tsum_empty_iff)
qed

lemma idle_delivered:
  assumes inv: "winv E G s" and held: "g_held G = None" and idle: "\<forall>t\<in>set (threads s). \<not> runnable t"
  shows "mset (map bc_user_data (take (cq_count (cq s)) (cq_array (cq s)))) = mset (map fst (g_out G))"
    and "g_out G \<noteq> [] \<Longrightarrow> \<not> g_waited G \<Longrightarrow>
      \<exists>e. cq_event (cq s) = Some e \<and> event_ready (g_event G) e (kern s)"
proof -
  note h = idle_holdings [OF inv idle]
  have "undelivered (comps s) (sigs_of s) = {}"
    using comps_empty [OF inv held h(1,2)] by (simp add: undelivered_def)
  then show eq: "mset (map bc_user_data (take (cq_count (cq s)) (cq_array (cq s)))) = mset (map fst (g_out G))"
    using winvD(9) [OF inv] by (simp add: cq_inv_def)
  assume out: "g_out G \<noteq> []" "\<not> g_waited G"
  then have "cq_count (cq s) > 0" using eq by (cases "cq_count (cq s)") auto
  moreover have "cq_count (cq s) \<le> queue_depth (config s)" using winvD(9) [OF inv] by (simp add: cq_inv_def)
  ultimately show "\<exists>e. cq_event (cq s) = Some e \<and> event_ready (g_event G) e (kern s)"
    using winvD(10) [OF inv] h(4) out by (auto simp: event_inv_def)
qed

end
