(* ===== verification/Use.thy ===== *)
theory Use
  imports Shutdown "HOL-Library.Code_Target_Numeral"
begin

text \<open>
  The calls of a session, one lemma for each, and a sample session with the sample hash function
  and the sample kernel of the theories \<open>Digest\<close> and \<open>Event\<close>.
\<close>

section \<open>The calls of a session\<close>

lemma session_new:
  assumes "env_ok E M EM opts k0" and "opts_ok opts"
  shows "\<exists>s. blkhash_new_opts E opts (sys_init m0 k0 [] sc) = Some (0, s) \<and>
    session E opts m0 k0 sc [] [] False s \<and> mem s = m0"
  using blkhash_new_opts_ok [OF assms, of m0 sc] by (auto elim!: ensuresE intro: session.new)

lemma session_hinv:
  assumes "session E opts m0 k0 sc m out w s" and "env_ok E M EM opts k0" and "opts_ok opts"
  shows "hinv E (session_ghost M EM out w) m s" and "distinct (map fst out)" and "owned_ok s"
    and "block_size (config s) = o_block_size opts" and "queue_depth (config s) = o_queue_depth opts"
  using session_invariant [OF assms] by (simp_all add: session_inv_def)

lemma session_winv:
  assumes "session E opts m0 k0 sc m out w s" and "env_ok E M EM opts k0" and "opts_ok opts"
  obtains L where "winv E ((session_ghost M EM out w)\<lparr>g_log := L\<rparr>) s"
proof -
  have "minv E (session_ghost M EM out w) m s" using session_hinv(1) [OF assms] by (simp add: hinv_def)
  from minv_winv [OF this] show ?thesis using that by blast
qed

lemma session_update:
  assumes s: "session E opts m0 k0 sc m out w s" and env: "env_ok E M EM opts k0" "opts_ok opts"
    and m: "length m + len < 2 ^ 62"
  shows "\<exists>s'. blkhash_update E a len s = Some (0, s') \<and>
    session E opts m0 k0 sc (m @ map (mem s) [a..<a + len]) out w s' \<and> mem s' = mem s"
  using blkhash_update_ok [OF session_hinv(1) [OF s env] m, of a] session.update [OF s m, of a]
  by (auto elim!: ensuresE dest: ckeepsD(2))

lemma session_zero:
  assumes s: "session E opts m0 k0 sc m out w s" and env: "env_ok E M EM opts k0" "opts_ok opts"
    and m: "length m + len < 2 ^ 62"
  shows "\<exists>s'. blkhash_zero E len s = Some (0, s') \<and>
    session E opts m0 k0 sc (m @ zeros len) out w s' \<and> mem s' = mem s \<and> cq_event (cq s') = cq_event (cq s)"
  using blkhash_zero_ok [OF session_hinv(1) [OF s env] m] session.zero [OF s m]
  by (auto elim!: ensuresE simp: ckeeps_def keeps_def)

lemma session_aio_update:
  assumes s: "session E opts m0 k0 sc m out w s" and env: "env_ok E M EM opts k0" "opts_ok opts"
    and m: "length m + len < 2 ^ 62" and ud: "ud \<notin> fst ` set out"
  shows "\<exists>r s'. blkhash_aio_update E a len ud s = Some (r, s') \<and> mem s' = mem s \<and> cq_event (cq s') = cq_event (cq s) \<and>
    (if length out < o_queue_depth opts
     then r = 0 \<and> session E opts m0 k0 sc (m @ map (mem s) [a..<a + len]) ((ud, a, len) # out) w s'
     else r = EAGAIN \<and> session E opts m0 k0 sc m out w s')"
proof -
  obtain r s' where c: "blkhash_aio_update E a len ud s = Some (r, s')"
      "ckeeps (s\<lparr>message_length := message_length s', inflight := inflight s'\<rparr>) s'"
      "if length out < o_queue_depth opts then r = 0 else r = EAGAIN"
    using blkhash_aio_update_ok [OF session_hinv(1) [OF s env] m, of a ud] session_hinv(5) [OF s env]
    by (auto elim!: ensuresE split: if_splits)
  have "mem s' = mem s" "cq_event (cq s') = cq_event (cq s)" using c(2) by (simp_all add: ckeeps_def keeps_def)
  moreover have "session E opts m0 k0 sc (m @ map (mem s) [a..<a + len]) ((ud, a, len) # out) w s'" if "r = 0"
    using session.aio_update [OF s m ud] c(1) that by simp
  moreover have "session E opts m0 k0 sc m out w s'" if "r = EAGAIN"
    using session.aio_refused [OF s m c(1)] that by simp
  ultimately show ?thesis using c(1,3) by (auto split: if_splits)
qed

lemma distinct_submset:
  assumes "mset xs \<subseteq># mset ys" and "distinct ys"
  shows "distinct xs"
proof -
  have "count (mset xs) a \<le> 1" for a
    using mset_subset_eq_count [OF assms(1), of a] assms(2) distinct_count_atmost_1 [of ys]
    by (metis le_trans le_refl zero_le)
  then show ?thesis
    unfolding distinct_count_atmost_1 by (metis One_nat_def Suc_leI count_greater_zero_iff le_antisym not_in_iff set_mset_mset)
qed

lemma session_completions:
  assumes s: "session E opts m0 k0 sc m out w s" and env: "env_ok E M EM opts k0" "opts_ok opts"
  shows "\<exists>D s'. blkhash_aio_completions E cnt s = Some (int (length D), D, s') \<and> length D \<le> cnt \<and>
    mset (map bc_user_data D) \<subseteq># mset (map fst out) \<and> (\<forall>e\<in>set D. bc_error e = 0) \<and>
    session E opts m0 k0 sc m (received D out) (cnt = 0 \<and> w) s' \<and>
    mem s' = mem s \<and> cq_event (cq s') = cq_event (cq s)"
  using completions_hinv [OF session_hinv(1) [OF s env], of cnt] session_hinv(2) [OF s env]
    session.completions [OF s, of cnt]
  by (auto elim!: ensuresE simp: caller_eq_def)

lemma session_final:
  assumes s: "session E opts m0 k0 sc m out w s" and env: "env_ok E M EM opts k0" "opts_ok opts"
  shows "\<exists>s'. blkhash_final E s = Some (0, blkhash_spec (hash_of M) (o_block_size opts) m, s') \<and>
    finv E (session_ghost M EM out w) s' \<and> owned_ok s' \<and> config s' = config s \<and> cq_event (cq s') = cq_event (cq s)"
proof -
  obtain r md s' where c: "blkhash_final E s = Some (r, md, s')" "r = 0"
      "md = blkhash_spec (hash_of M) (o_block_size opts) m" "finv E (session_ghost M EM out w) s'"
      "ckeeps (s\<lparr>finalized := True\<rparr>) s'"
    using blkhash_final_ok [OF session_hinv(1) [OF s env]] session_hinv(4) [OF s env]
    by (auto elim!: ensuresE)
  have "owned_ok s'" using owned_ok_ckeeps [OF _ c(5)] session_hinv(3) [OF s env] by simp
  moreover have "config s' = config s" "cq_event (cq s') = cq_event (cq s)"
    using c(5) by (simp_all add: ckeeps_def keeps_def)
  ultimately show ?thesis using c(1-4) by blast
qed

lemma session_end:
  assumes "session E opts m0 k0 sc m out w s" and "env_ok E M EM opts k0" and "opts_ok opts"
  shows "\<exists>s1 s2. blkhash_final E s = Some (0, blkhash_spec (hash_of M) (o_block_size opts) m, s1) \<and>
    blkhash_free E s1 = Some s2 \<and> released s2 \<and>
    (o_queue_depth opts > 0 \<longrightarrow> kern s2 = event_close (host E) (cq_event (cq s)) (kern s1))"
proof -
  obtain s1 where s1: "blkhash_final E s = Some (0, blkhash_spec (hash_of M) (o_block_size opts) m, s1)"
      "finv E (session_ghost M EM out w) s1" "owned_ok s1" "config s1 = config s" "cq_event (cq s1) = cq_event (cq s)"
    using session_final [OF assms] by blast
  with blkhash_free_ok [OF s1(2,3)] session_hinv(5) [OF assms] show ?thesis by (auto elim!: ensuresE)
qed

section \<open>A sample session\<close>

definition sample_ext :: "(bytes, nat \<times> nat) ext" where
  "sample_ext = \<lparr>crypto = sample_crypto, host = sample_host\<rparr>"

definition sample_opts :: blkhash_opts where
  "sample_opts = \<lparr>o_digest_name = ''sum'', o_block_size = 16, o_queue_depth = 2, o_threads = 2\<rparr>"

definition sample_mem :: "nat \<Rightarrow> byte" where
  "sample_mem p = of_nat (p mod 7)"

definition sample_sched :: "nat list list" where
  "sample_sched = [[0, 1], [1, 1, 0], [0, 0, 0, 1]]"

text \<open>Twenty bytes, forty zeros, and five bytes with an asynchronous update.\<close>

definition sample_message :: bytes where
  "sample_message = (map sample_mem [0..<20] @ zeros 40) @ map sample_mem [100..<105]"

lemma sample_env: "env_ok sample_ext sample_model sample_event_model sample_opts (0, 0)"
  using sample_crypto_ok sample_eventfd_ok
  by (simp add: env_ok_def sample_ext_def sample_opts_def eventfd_opens_def)
    (simp add: sample_host_def sample_event_model_def)

lemma sample_opts_ok: "opts_ok sample_opts"
  by (simp add: opts_ok_def sample_opts_def MAX_THREADS_def)

lemma sample_update:
  assumes "len < 2 ^ 62"
  shows "\<exists>s. session sample_ext sample_opts sample_mem (0, 0) sc (map sample_mem [a..<a + len]) [] False s \<and>
    mem s = sample_mem"
proof -
  note ok = sample_env sample_opts_ok
  obtain s1 where s1: "session sample_ext sample_opts sample_mem (0, 0) sc [] [] False s1" "mem s1 = sample_mem"
    using session_new [OF ok, of sample_mem sc] by blast
  have "length ([] :: bytes) + len < 2 ^ 62" using assms by simp
  from session_update [OF s1(1) ok this, of a] show ?thesis using s1(2) by auto
qed

lemma sample_prefix:
  "\<exists>s. session sample_ext sample_opts sample_mem (0, 0) sample_sched
     (map sample_mem [0..<20] @ zeros 40) [] False s \<and> mem s = sample_mem"
proof -
  obtain s where s: "session sample_ext sample_opts sample_mem (0, 0) sample_sched
      (map sample_mem [0..<20]) [] False s" "mem s = sample_mem"
    using sample_update [of 20 sample_sched 0] by auto
  show ?thesis using session_zero [OF s(1) sample_env sample_opts_ok, of 40] s(2) by auto
qed

lemma sample_session:
  "\<exists>s. session sample_ext sample_opts sample_mem (0, 0) sample_sched sample_message [(9, 100, 5)] False s"
proof -
  obtain s where s: "session sample_ext sample_opts sample_mem (0, 0) sample_sched
      (map sample_mem [0..<20] @ zeros 40) [] False s" "mem s = sample_mem"
    using sample_prefix by blast
  have "length (map sample_mem [0..<20] @ zeros 40) + 5 < 2 ^ 62" by simp
  from session_aio_update [OF s(1) sample_env sample_opts_ok this, of 9 100]
  obtain s' where "session sample_ext sample_opts sample_mem (0, 0) sample_sched
      ((map sample_mem [0..<20] @ zeros 40) @ map (mem s) [100..<100 + 5]) [(9, 100, 5)] False s'"
    by (auto simp: sample_opts_def)
  then show ?thesis using s(2) unfolding sample_message_def by auto
qed

text \<open>An asynchronous update of one block whose submission is still in the queue of the pool.\<close>

definition sample_aio :: "(int \<times> (bytes, nat \<times> nat) sys) option" where
  "sample_aio = do {
     (r, s) \<leftarrow> blkhash_new_opts sample_ext sample_opts (sys_init sample_mem (0, 0) [] []);
     blkhash_aio_update sample_ext 100 16 9 s
   }"

lemma sample_aio_queued:
  "map_option (\<lambda>(r, s). (r, queued (pool s), map_option (\<lambda>x. (sub_data x, sub_len x)) (cells (subs s) 0))) sample_aio =
   Some (0, [0], Some (User 100, 16))"
  by code_simp

lemma sample_aio_session:
  "\<exists>s sub. session sample_ext sample_opts sample_mem (0, 0) [] (map sample_mem [100..<116]) [(9, 100, 16)] False s \<and>
     0 \<in># todo_of s \<and> cells (subs s) 0 = Some sub \<and> sub_data sub = User 100 \<and> sub_len sub = 16"
proof -
  obtain s1 where s1: "blkhash_new_opts sample_ext sample_opts (sys_init sample_mem (0, 0) [] []) = Some (0, s1)"
      "session sample_ext sample_opts sample_mem (0, 0) [] [] [] False s1" "mem s1 = sample_mem"
    using session_new [OF sample_env sample_opts_ok, of sample_mem "[]"] by blast
  obtain s where s: "blkhash_aio_update sample_ext 100 16 9 s1 = Some (0, s)" "queued (pool s) = [0]"
      "map_option (\<lambda>x. (sub_data x, sub_len x)) (cells (subs s) 0) = Some (User 100, 16)"
    using sample_aio_queued s1(1) unfolding sample_aio_def
    by (cases "blkhash_aio_update sample_ext 100 16 9 s1") auto
  have "session sample_ext sample_opts sample_mem (0, 0) [] ([] @ map (mem s1) [100..<100 + 16]) [(9, 100, 16)] False s"
    by (rule session.aio_update [OF s1(2) _ _ s(1)]) simp_all
  then show ?thesis using s(2,3) s1(3) by (auto simp: todo_of_def)
qed

text \<open>Less than a block, which completes at once; the workers went to sleep before.\<close>

definition sample_idle :: "(int \<times> (bytes, nat \<times> nat) sys) option" where
  "sample_idle = do {
     (r, s) \<leftarrow> blkhash_new_opts sample_ext sample_opts (sys_init sample_mem (0, 0) [] [[0, 0, 1, 1]]);
     blkhash_aio_update sample_ext 100 5 9 s
   }"

lemma sample_idle_threads:
  "map_option (\<lambda>(r, s). (r, list_all (\<lambda>t. \<not> runnable t) (threads s))) sample_idle = Some (0, True)"
  by code_simp

lemma sample_idle_session:
  "\<exists>s. session sample_ext sample_opts sample_mem (0, 0) [[0, 0, 1, 1]] (map sample_mem [100..<105]) [(9, 100, 5)] False s \<and>
     (\<forall>t\<in>set (threads s). \<not> runnable t)"
proof -
  obtain s1 where s1: "blkhash_new_opts sample_ext sample_opts (sys_init sample_mem (0, 0) [] [[0, 0, 1, 1]]) = Some (0, s1)"
      "session sample_ext sample_opts sample_mem (0, 0) [[0, 0, 1, 1]] [] [] False s1" "mem s1 = sample_mem"
    using session_new [OF sample_env sample_opts_ok, of sample_mem "[[0, 0, 1, 1]]"] by blast
  obtain s where s: "blkhash_aio_update sample_ext 100 5 9 s1 = Some (0, s)" "\<forall>t\<in>set (threads s). \<not> runnable t"
    using sample_idle_threads s1(1) unfolding sample_idle_def
    by (cases "blkhash_aio_update sample_ext 100 5 9 s1") (auto simp: list_all_iff)
  have "session sample_ext sample_opts sample_mem (0, 0) [[0, 0, 1, 1]] ([] @ map (mem s1) [100..<100 + 5]) [(9, 100, 5)] False s"
    by (rule session.aio_update [OF s1(2) _ _ s(1)]) simp_all
  then show ?thesis using s(2) s1(3) by auto
qed

end
