(* ===== verification/Collision.thy ===== *)
theory Collision
  imports Reference
begin

text \<open>
  The block hash is as collision resistant as the hash function it uses: from two messages with
  the same block hash one finds, among the inputs that were hashed, two different inputs with the
  same digest.
\<close>

section \<open>The encoding of the length\<close>

lemma le_bytes_bit: "n < 64 \<Longrightarrow> bit (le_bytes w ! (n div 8)) (n mod 8) = bit w n"
  by (simp add: le_bytes_def bit_ucast_iff bit_drop_bit_eq less_mult_imp_div_less)

lemma le_bytes_inj: "le_bytes v = le_bytes w \<Longrightarrow> v = w"
  by (rule bit_word_eqI) (simp add: le_bytes_bit [symmetric])

lemma le_bytes_length:
  assumes "le_bytes (of_nat a) = le_bytes (of_nat b)" and "a < 2 ^ 64" and "b < 2 ^ 64"
  shows "a = b"
proof -
  have "(of_nat a :: 64 word) = of_nat b" using le_bytes_inj assms(1) .
  then have "unat (of_nat a :: 64 word) = unat (of_nat b :: 64 word)" by simp
  then show ?thesis using assms(2,3) by (simp add: unat_of_nat)
qed

section \<open>The blocks determine the message\<close>

lemma concat_blk: "concat (map (blk bs m) [0..<n]) = take (n * bs) m"
  by (induction n) (simp_all add: blk_def take_add [symmetric] add.commute)

lemma concat_blocks: "0 < bs \<Longrightarrow> concat (blocks bs m) = m"
proof -
  assume "0 < bs"
  then have "length m \<le> (length m + bs - 1) div bs * bs"
    using div_mult_mod_eq [of "length m + bs - 1" bs] mod_less_divisor [of bs "length m + bs - 1"] by linarith
  then show ?thesis by (simp add: blocks_def concat_blk)
qed

lemma concat_digests_inj:
  assumes len: "\<And>x. length (hash x) = k" and "length xs = length ys"
    and "concat (map hash xs) = concat (map hash ys)"
  shows "map hash xs = map hash ys"
  using assms(2,3) by (induction xs ys rule: list_induct2) (simp_all add: len)

section \<open>Collisions\<close>

text \<open>The inputs of the hash function for a message: the blocks and the input of the outer hash.\<close>

definition outer_input :: "(bytes \<Rightarrow> bytes) \<Rightarrow> nat \<Rightarrow> bytes \<Rightarrow> bytes" where
  "outer_input hash bs m = concat (map hash (blocks bs m)) @ le_bytes (of_nat (length m))"

definition hashed_inputs :: "(bytes \<Rightarrow> bytes) \<Rightarrow> nat \<Rightarrow> bytes \<Rightarrow> bytes set" where
  "hashed_inputs hash bs m = insert (outer_input hash bs m) (set (blocks bs m))"

lemma blkhash_spec_outer: "blkhash_spec hash bs m = hash (outer_input hash bs m)"
  by (simp add: blkhash_spec_def outer_input_def)

lemma outer_input_blocks:
  assumes len: "\<And>x. length (hash x) = k" and "length m < 2 ^ 64" and "length m' < 2 ^ 64"
    and eq: "outer_input hash bs m = outer_input hash bs m'"
  shows "length (blocks bs m) = length (blocks bs m')"
    and "map hash (blocks bs m) = map hash (blocks bs m')"
proof -
  have eq': "concat (map hash (blocks bs m)) = concat (map hash (blocks bs m'))"
      "le_bytes (of_nat (length m)) = le_bytes (of_nat (length m'))"
    using eq by (simp_all add: outer_input_def)
  then have "length m = length m'" using le_bytes_length assms(2,3) by blast
  then show n: "length (blocks bs m) = length (blocks bs m')" by (simp add: blocks_def)
  show "map hash (blocks bs m) = map hash (blocks bs m')"
    using concat_digests_inj [OF len n eq'(1)] .
qed

lemma blkhash_spec_collision:
  assumes len: "\<And>x. length (hash x) = k" and "0 < bs" and "length m < 2 ^ 64" and "length m' < 2 ^ 64"
    and "m \<noteq> m'" and "blkhash_spec hash bs m = blkhash_spec hash bs m'"
  shows "\<exists>x\<in>hashed_inputs hash bs m. \<exists>y\<in>hashed_inputs hash bs m'. x \<noteq> y \<and> hash x = hash y"
proof (cases "outer_input hash bs m = outer_input hash bs m'")
  case False
  then show ?thesis using assms(6) by (auto simp: hashed_inputs_def blkhash_spec_outer)
next
  case True
  note b = outer_input_blocks [OF len assms(3,4) True]
  have "blocks bs m \<noteq> blocks bs m'" using concat_blocks [OF assms(2)] assms(5) by metis
  then obtain i where i: "i < length (blocks bs m)" "blocks bs m ! i \<noteq> blocks bs m' ! i"
    using b(1) nth_equalityI by blast
  moreover have "hash (blocks bs m ! i) = hash (blocks bs m' ! i)"
    using arg_cong [OF b(2), of "\<lambda>xs. xs ! i"] i(1) b(1) by simp
  ultimately show ?thesis using b(1) by (auto simp: hashed_inputs_def intro!: bexI)
qed

end
