(* ===== verification/Sources.thy ===== *)
theory Sources
  imports Prelude
begin

text \<open>
  Where the tools read from: regular files and pipes (\<^verbatim>\<open>bin/file-src.c\<close>, \<^verbatim>\<open>bin/pipe-src.c\<close>), the
  choice of a source (\<^verbatim>\<open>bin/src.c\<close>) and the extents of an image (\<^verbatim>\<open>bin/src.h\<close>, \<^verbatim>\<open>bin/nbd-src.c\<close>).
  The system calls and \<^verbatim>\<open>libnbd\<close> are parameters. A call of \<^verbatim>\<open>FAIL\<close> is the value \<open>Inl ()\<close>.
\<close>

type_synonym 'a outcome = "unit + 'a"

section \<open>Files\<close>

record 'f file_host =
  sys_open :: "string \<Rightarrow> 'f \<Rightarrow> (int + int) \<times> 'f"
  sys_seek_end :: "int \<Rightarrow> 'f \<Rightarrow> (int + int) \<times> 'f"
  sys_seek_set :: "int \<Rightarrow> 'f \<Rightarrow> (int + int) \<times> 'f"
  sys_pread :: "int \<Rightarrow> nat \<Rightarrow> nat \<Rightarrow> 'f \<Rightarrow> (int + bytes) \<times> 'f"

record src =
  src_uri :: string
  src_size :: int
  src_can_extents :: bool
  src_fd :: int

partial_function (option) pread_retry ::
    "'f file_host \<Rightarrow> int \<Rightarrow> nat \<Rightarrow> nat \<Rightarrow> 'f \<Rightarrow> ((int + bytes) \<times> 'f) option" where
  "pread_retry K fd n off f =
     (case sys_pread K fd n off f of
        (Inl err, f) \<Rightarrow> if err = EINTR then pread_retry K fd n off f else Some (Inl err, f)
      | (Inr data, f) \<Rightarrow> Some (Inr data, f))"

declare pread_retry.simps [code]

text \<open>The loop of \<^verbatim>\<open>file_ops_pread\<close>: \<open>got\<close> is what it has stored in the buffer so far.\<close>

partial_function (option) file_read_loop ::
    "'f file_host \<Rightarrow> int \<Rightarrow> nat \<Rightarrow> nat \<Rightarrow> bytes \<Rightarrow> 'f \<Rightarrow> (bytes outcome \<times> 'f) option" where
  "file_read_loop K fd len off got f =
     (if length got < len then do {
        (r, f) \<leftarrow> pread_retry K fd (len - length got) (off + length got) f;
        case r of
          Inl err \<Rightarrow> Some (Inl (), f)
        | Inr data \<Rightarrow> file_read_loop K fd len off (got @ data) f
      } else Some (Inr got, f))"

declare file_read_loop.simps [code]

definition file_ops_pread ::
    "'f file_host \<Rightarrow> src \<Rightarrow> nat \<Rightarrow> nat \<Rightarrow> 'f \<Rightarrow> (bytes outcome \<times> 'f) option" where
  "file_ops_pread K s len off f =
     (if int off + int len > src_size s then Some (Inl (), f)
      else file_read_loop K (src_fd s) len off [] f)"

definition open_file :: "'f file_host \<Rightarrow> string \<Rightarrow> bool \<Rightarrow> 'f \<Rightarrow> src outcome \<times> 'f" where
  "open_file K path calloc_ok f =
     (case sys_open K path f of
        (Inl err, f) \<Rightarrow> (Inl (), f)
      | (Inr fd, f) \<Rightarrow>
     (case sys_seek_end K fd f of
        (Inl err, f) \<Rightarrow> (Inl (), f)
      | (Inr sz, f) \<Rightarrow>
     (case sys_seek_set K fd f of
        (Inl err, f) \<Rightarrow> (Inl (), f)
      | (Inr pos, f) \<Rightarrow>
          if calloc_ok
          then (Inr \<lparr>src_uri = path, src_size = sz, src_can_extents = False, src_fd = fd\<rparr>, f)
          else (Inl (), f))))"

section \<open>Pipes\<close>

text \<open>\<open>is_running\<close> is what \<^verbatim>\<open>running()\<close> returns, which a signal can change while the tool reads.\<close>

record 'p pipe_host =
  pipe_read :: "nat \<Rightarrow> 'p \<Rightarrow> (int + bytes) \<times> 'p"
  is_running :: "'p \<Rightarrow> bool"

partial_function (option) pipe_read_loop ::
    "'p pipe_host \<Rightarrow> nat \<Rightarrow> bytes \<Rightarrow> 'p \<Rightarrow> (bytes outcome \<times> 'p) option" where
  "pipe_read_loop K len got p =
     (if length got < len then
        (case pipe_read K (len - length got) p of
           (Inl err, p) \<Rightarrow>
             if err = EINTR \<and> \<not> is_running K p then Some (Inr got, p) else Some (Inl (), p)
         | (Inr data, p) \<Rightarrow>
             if data = [] then Some (Inr got, p) else pipe_read_loop K len (got @ data) p)
      else Some (Inr got, p))"

declare pipe_read_loop.simps [code]

definition pipe_ops_read ::
    "'p pipe_host \<Rightarrow> nat \<Rightarrow> 'p \<Rightarrow> (bytes outcome \<times> 'p) option" where
  "pipe_ops_read K len p = pipe_read_loop K len [] p"

definition open_pipe :: "int \<Rightarrow> bool \<Rightarrow> src outcome" where
  "open_pipe fd calloc_ok =
     (if calloc_ok then Inr \<lparr>src_uri = [], src_size = - 1, src_can_extents = False, src_fd = fd\<rparr>
      else Inl ())"

section \<open>The choice of a source\<close>

definition is_nbd_uri :: "string \<Rightarrow> bool" where
  "is_nbd_uri s \<longleftrightarrow> take 6 s = ''nbd://'' \<or> take 12 s = ''nbd+unix:///''"

datatype opened = File src | Nbd src

text \<open>\<open>nbd\<close> is the result of \<^verbatim>\<open>open_nbd\<close> and \<open>file\<close> the result of \<^verbatim>\<open>open_file\<close> for the name.\<close>

definition open_src :: "bool \<Rightarrow> src outcome \<Rightarrow> src outcome \<Rightarrow> string \<Rightarrow> opened outcome" where
  "open_src have_nbd nbd file filename =
     (if is_nbd_uri filename then if have_nbd then map_sum id Nbd nbd else Inl ()
      else map_sum id File file)"

section \<open>Extents\<close>

record extent =
  e_length :: nat
  e_zero :: bool

text \<open>\<open>ops_extents\<close> is the \<^verbatim>\<open>extents\<close> operation of the source.\<close>

definition src_extents ::
    "(src \<Rightarrow> nat \<Rightarrow> nat \<Rightarrow> extent list \<Rightarrow> nat \<Rightarrow> 'n \<Rightarrow> int \<times> src \<times> extent list \<times> nat \<times> 'n) \<Rightarrow>
     src \<Rightarrow> nat \<Rightarrow> nat \<Rightarrow> extent list \<Rightarrow> nat \<Rightarrow> 'n \<Rightarrow> src \<times> extent list \<times> nat \<times> 'n" where
  "src_extents ops_extents s off len es count h =
     (case (if src_can_extents s then ops_extents s off len es count h else (- 1, s, es, count, h)) of
        (r, s, es, count, h) \<Rightarrow>
          if r = 0 then (s, es, count, h)
          else (s, es[0 := \<lparr>e_length = u32 len, e_zero = False\<rparr>], 1, h))"

section \<open>Reading a file\<close>

text \<open>
  What the tools rely on: \<^verbatim>\<open>pread\<close> on this descriptor is interrupted finitely often and otherwise
  returns a part of the content, which is empty only at its end.
\<close>

record 'f file_model =
  fm_content :: "'f \<Rightarrow> bytes"
  fm_intr :: "'f \<Rightarrow> nat"

definition pread_ok :: "'f file_host \<Rightarrow> 'f file_model \<Rightarrow> int \<Rightarrow> bool" where
  "pread_ok K F fd \<longleftrightarrow>
     (\<forall>n off f. case sys_pread K fd n off f of
        (Inl err, f') \<Rightarrow> err = EINTR \<and> fm_intr F f' < fm_intr F f \<and> fm_content F f' = fm_content F f
      | (Inr data, f') \<Rightarrow> fm_content F f' = fm_content F f \<and>
          (\<exists>k\<le>n. data = take k (drop off (fm_content F f)) \<and> (0 < n \<longrightarrow> 0 < k)))"

lemma pread_okD:
  assumes "pread_ok K F fd" and "sys_pread K fd n off f = (r, f')"
  shows "case r of
      Inl err \<Rightarrow> err = EINTR \<and> fm_intr F f' < fm_intr F f \<and> fm_content F f' = fm_content F f
    | Inr data \<Rightarrow> fm_content F f' = fm_content F f \<and>
        (\<exists>k\<le>n. data = take k (drop off (fm_content F f)) \<and> (0 < n \<longrightarrow> 0 < k))"
  using assms(1) unfolding pread_ok_def
  by (elim allE [where x = n] allE [where x = off] allE [where x = f]) (simp add: assms(2) split: sum.splits)

lemma pread_retry_ok:
  assumes "pread_ok K F fd"
  shows "\<exists>data f'. pread_retry K fd n off f = Some (Inr data, f') \<and> fm_content F f' = fm_content F f \<and>
    (\<exists>k\<le>n. data = take k (drop off (fm_content F f)) \<and> (0 < n \<longrightarrow> 0 < k))"
proof (induction "fm_intr F f" arbitrary: f rule: less_induct)
  case less
  show ?case
  proof (cases "sys_pread K fd n off f")
    case (Pair r f')
    note spec = pread_okD [OF assms Pair]
    show ?thesis
    proof (cases r)
      case (Inl err)
      then have "fm_intr F f' < fm_intr F f" "fm_content F f' = fm_content F f" "err = EINTR"
        using spec by simp_all
      then show ?thesis using less [of f'] Pair Inl by (simp add: pread_retry.simps [of K fd n off f])
    next
      case (Inr data)
      then show ?thesis using spec Pair by (simp add: pread_retry.simps [of K fd n off f])
    qed
  qed
qed

text \<open>Each round of the loop extends what was read.\<close>

lemma take_extend:
  "got = take (length got) xs \<Longrightarrow> data = take k (drop (length got) xs) \<Longrightarrow>
   got @ data = take (length (got @ data)) xs"
proof -
  assume "got = take (length got) xs" and "data = take k (drop (length got) xs)"
  then have "got @ data = take (length got + k) xs" by (metis take_add)
  then show ?thesis by (metis append_eq_conv_conj append_take_drop_id)
qed

lemma pread_round:
  assumes ok: "pread_ok K F fd" and got: "got = take (length got) (drop off (fm_content F f))" "length got < len"
  shows "\<exists>data f'. file_read_loop K fd len off got f = file_read_loop K fd len off (got @ data) f' \<and>
    fm_content F f' = fm_content F f \<and> length data \<le> len - length got \<and>
    got @ data = take (length (got @ data)) (drop off (fm_content F f)) \<and>
    (off + length got < length (fm_content F f) \<longrightarrow> data \<noteq> [])"
proof -
  obtain data f' k where r: "pread_retry K fd (len - length got) (off + length got) f = Some (Inr data, f')"
      "fm_content F f' = fm_content F f" "k \<le> len - length got"
      "data = take k (drop (off + length got) (fm_content F f))" "0 < len - length got \<longrightarrow> 0 < k"
    using pread_retry_ok [OF ok] by blast
  have "file_read_loop K fd len off got f = file_read_loop K fd len off (got @ data) f'"
    using got(2) r(1) by (simp add: file_read_loop.simps [of K fd len off got f])
  moreover have "got @ data = take (length (got @ data)) (drop off (fm_content F f))"
    using got(1) by (rule take_extend [where k = k]) (simp add: r(4) add.commute)
  moreover have "off + length got < length (fm_content F f) \<longrightarrow> data \<noteq> []"
    using r(4,5) got(2) by auto
  moreover have "length data \<le> len - length got" using r(3,4) by simp
  ultimately show ?thesis using r(2) by blast
qed

lemma file_read_loop_ok:
  assumes ok: "pread_ok K F fd" and got: "got = take (length got) (drop off (fm_content F f))"
    and len: "length got \<le> len" "off + len \<le> length (fm_content F f)"
  shows "\<exists>f'. file_read_loop K fd len off got f = Some (Inr (take len (drop off (fm_content F f))), f') \<and>
    fm_content F f' = fm_content F f"
  using got len
proof (induction "len - length got" arbitrary: got f rule: less_induct)
  case less
  show ?case
  proof (cases "length got < len")
    case False
    then have "file_read_loop K fd len off got f = Some (Inr got, f)" by (subst file_read_loop.simps) simp
    moreover have "got = take len (drop off (fm_content F f))" using less.prems False by simp
    ultimately show ?thesis by blast
  next
    case True
    obtain data f' where r: "file_read_loop K fd len off got f = file_read_loop K fd len off (got @ data) f'"
        "fm_content F f' = fm_content F f" "length data \<le> len - length got" "data \<noteq> []"
        "got @ data = take (length (got @ data)) (drop off (fm_content F f))"
      using pread_round [OF ok less.prems(1) True] less.prems(3) True by auto
    show ?thesis
      using less.hyps [of "got @ data" f'] r less.prems(3) True by (auto simp: less_diff_conv)
  qed
qed

text \<open>
  C22. Reading a range of a file returns exactly its bytes, however often \<^verbatim>\<open>pread\<close> is interrupted or
  returns less than what it was asked for.
\<close>

theorem file_pread_exact:
  assumes "pread_ok K F (src_fd s)" and "int off + int len \<le> src_size s"
    and "src_size s = int (length (fm_content F f))"
  shows "\<exists>f'. file_ops_pread K s len off f = Some (Inr (take len (drop off (fm_content F f))), f') \<and>
    fm_content F f' = fm_content F f"
  using file_read_loop_ok [OF assms(1), of "[]" off f len] assms(2,3) by (auto simp: file_ops_pread_def)

lemma file_read_loop_hangs:
  assumes "file_read_loop K fd len off got f = Some r"
  shows "pread_ok K F fd \<longrightarrow> got = take (length got) (drop off (fm_content F f)) \<longrightarrow>
    0 < len \<longrightarrow> off + len \<le> length (fm_content F f)"
proof (rule file_read_loop.raw_induct [OF _ assms], intro impI)
  fix loop K fd len off got f r
  assume IH: "\<And>K fd len off got f r. loop K fd len off got f = Some r \<Longrightarrow>
      pread_ok K F fd \<longrightarrow> got = take (length got) (drop off (fm_content F f)) \<longrightarrow>
      0 < len \<longrightarrow> off + len \<le> length (fm_content F f)"
    and body: "(if length got < len then do {
        (r, f) \<leftarrow> pread_retry K fd (len - length got) (off + length got) f;
        case r of Inl err \<Rightarrow> Some (Inl (), f) | Inr data \<Rightarrow> loop K fd len off (got @ data) f
      } else Some (Inr got, f)) = Some r"
    and ok: "pread_ok K F fd" and got: "got = take (length got) (drop off (fm_content F f))"
    and pos: "0 < len"
  show "off + len \<le> length (fm_content F f)"
  proof (cases "length got < len")
    case False
    then show ?thesis using arg_cong [OF got, of length] pos by (simp add: min_def split: if_splits)
  next
    case True
    obtain data f' k where r: "pread_retry K fd (len - length got) (off + length got) f = Some (Inr data, f')"
        "fm_content F f' = fm_content F f" "data = take k (drop (off + length got) (fm_content F f))"
      using pread_retry_ok [OF ok] by blast
    have "got @ data = take (length (got @ data)) (drop off (fm_content F f))"
      using got by (rule take_extend [where k = k]) (simp add: r(3) add.commute)
    moreover have "loop K fd len off (got @ data) f' = Some r" using body True r(1) by simp
    ultimately show ?thesis using IH [of K fd len off "got @ data" f' r] ok pos unfolding r(2) by blast
  qed
qed

text \<open>
  C36. When a file became shorter after it was opened, \<^verbatim>\<open>file_ops_pread\<close> never returns: at the end of the
  file \<^verbatim>\<open>pread\<close> returns 0, which the loop takes for progress.
\<close>

theorem file_pread_truncated_hangs:
  assumes "pread_ok K F (src_fd s)" and "int off + int len \<le> src_size s" and "0 < len"
    and "length (fm_content F f) < off + len"
  shows "file_ops_pread K s len off f = None"
proof (rule ccontr)
  assume "file_ops_pread K s len off f \<noteq> None"
  then obtain r where "file_read_loop K (src_fd s) len off [] f = Some r"
    using assms(2) by (auto simp: file_ops_pread_def)
  from file_read_loop_hangs [OF this, of F] assms show False by simp
qed

text \<open>A file that is read two bytes at a time, after some interruptions.\<close>

definition sample_file_host :: "(nat \<times> bytes) file_host" where
  "sample_file_host =
     \<lparr>sys_open = (\<lambda>_ f. (Inr 3, f)), sys_seek_end = (\<lambda>_ f. (Inr (int (length (snd f))), f)),
      sys_seek_set = (\<lambda>_ f. (Inr 0, f)),
      sys_pread = (\<lambda>_ n off (i, c). if 0 < i then (Inl EINTR, i - 1, c)
        else (Inr (take (min n 2) (drop off c)), i, c))\<rparr>"

definition sample_file_model :: "(nat \<times> bytes) file_model" where
  "sample_file_model = \<lparr>fm_content = snd, fm_intr = fst\<rparr>"

definition sample_src :: src where
  "sample_src = \<lparr>src_uri = ''disk.img'', src_size = 5, src_can_extents = False, src_fd = 3\<rparr>"

lemma sample_pread_ok: "pread_ok sample_file_host sample_file_model fd"
  by (auto simp: pread_ok_def sample_file_host_def sample_file_model_def intro!: exI [of _ "min _ 2"])

theorem file_pread_exact_witness:
  "\<exists>f'. file_ops_pread sample_file_host sample_src 3 1 (2, [10, 11, 12, 13, 14]) = Some (Inr [11, 12, 13], f')"
  using file_pread_exact [of sample_file_host sample_file_model sample_src 1 3 "(2, [10, 11, 12, 13, 14])"]
    sample_pread_ok by (auto simp: sample_src_def sample_file_model_def)

theorem file_pread_truncated_hangs_witness:
  "file_ops_pread sample_file_host sample_src 3 1 (0, [10, 11]) = None"
  by (rule file_pread_truncated_hangs [OF sample_pread_ok]) (simp_all add: sample_src_def sample_file_model_def)

section \<open>Reading a pipe\<close>

text \<open>
  What the tools rely on: \<^verbatim>\<open>read\<close> returns a part of what is left in the pipe, which is empty only at
  the end, and no signal arrives.
\<close>

record 'p pipe_model =
  pm_rest :: "'p \<Rightarrow> bytes"

definition pipe_ok :: "'p pipe_host \<Rightarrow> 'p pipe_model \<Rightarrow> bool" where
  "pipe_ok K P \<longleftrightarrow>
     (\<forall>n p. is_running K p \<and>
        (\<exists>k p'. k \<le> n \<and> pipe_read K n p = (Inr (take k (pm_rest P p)), p') \<and>
           pm_rest P p' = drop k (pm_rest P p) \<and> (0 < n \<longrightarrow> 0 < k)))"

lemma pipe_read_loop_ok:
  assumes ok: "pipe_ok K P" and "length got \<le> len"
  shows "\<exists>p'. pipe_read_loop K len got p = Some (Inr (got @ take (len - length got) (pm_rest P p)), p') \<and>
    pm_rest P p' = drop (len - length got) (pm_rest P p)"
  using assms(2)
proof (induction "len - length got" arbitrary: got p rule: less_induct)
  case less
  show ?case
  proof (cases "length got < len")
    case False
    then show ?thesis using less.prems by (subst pipe_read_loop.simps) simp
  next
    case True
    obtain k p' where k: "k \<le> len - length got" "0 < k"
        "pipe_read K (len - length got) p = (Inr (take k (pm_rest P p)), p')" "pm_rest P p' = drop k (pm_rest P p)"
      using ok True unfolding pipe_ok_def by (metis zero_less_diff)
    show ?thesis
    proof (cases "pm_rest P p = []")
      case True
      then show ?thesis using k \<open>length got < len\<close> by (subst pipe_read_loop.simps) simp
    next
      case False
      let ?got = "got @ take k (pm_rest P p)" and ?d = "take k (pm_rest P p)"
      have "0 < length ?d" "length ?d \<le> k" using k False by simp_all
      then have "length ?got \<le> len" "len - length ?got < len - length got"
        unfolding length_append using k(1) True by linarith+
      then obtain p'' where "pipe_read_loop K len ?got p' = Some (Inr (?got @ take (len - length ?got) (pm_rest P p')), p'')"
          "pm_rest P p'' = drop (len - length ?got) (pm_rest P p')"
        using less.hyps [of ?got p'] by blast
      moreover have "pipe_read_loop K len got p = pipe_read_loop K len ?got p'"
        using True k(2,3) False by (subst pipe_read_loop.simps) simp
      moreover have eq: "k + (len - (length got + k)) = len - length got" using k(1) True by linarith
      moreover have "?d @ take (len - length ?got) (drop k (pm_rest P p)) = take (len - length got) (pm_rest P p)"
        using k(1) by (cases "k \<le> length (pm_rest P p)") (simp_all add: take_add [symmetric] eq)
      moreover have "drop (len - length ?got) (drop k (pm_rest P p)) = drop (len - length got) (pm_rest P p)"
        using k(1) by (cases "k \<le> length (pm_rest P p)") (simp_all add: eq [symmetric] ac_simps)
      ultimately show ?thesis using k(4) by simp
    qed
  qed
qed

lemma pipe_ops_read_ok:
  "pipe_ok K P \<Longrightarrow> \<exists>p'. pipe_ops_read K len p = Some (Inr (take len (pm_rest P p)), p') \<and>
     pm_rest P p' = drop len (pm_rest P p)"
  using pipe_read_loop_ok [of K P "[]" len p] by (simp add: pipe_ops_read_def)

text \<open>A pipe that delivers at most three bytes at a time.\<close>

definition sample_pipe_host :: "bytes pipe_host" where
  "sample_pipe_host =
     \<lparr>pipe_read = (\<lambda>n p. (Inr (take (min n 3) p), drop (min n 3) p)), is_running = (\<lambda>_. True)\<rparr>"

definition sample_pipe_model :: "bytes pipe_model" where
  "sample_pipe_model = \<lparr>pm_rest = (\<lambda>p. p)\<rparr>"

lemma sample_pipe_ok: "pipe_ok sample_pipe_host sample_pipe_model"
  unfolding pipe_ok_def
  by (intro allI conjI exI [of _ "min _ 3"]) (auto simp: sample_pipe_host_def sample_pipe_model_def)

end
