(* ===== verification/Util.thy ===== *)
theory Util
  imports Complex_Main Prelude
begin

text \<open>
  The helpers of \<^verbatim>\<open>common/util.c\<close> that the tools use: printing a digest in hexadecimal and parsing
  a size with a suffix. \<^verbatim>\<open>strtod\<close> is a parameter.
\<close>

section \<open>Printing a digest\<close>

text \<open>\<^verbatim>\<open>snprintf(p, 3, "%02x", byte)\<close> writes two digits and a terminating NUL.\<close>

definition hex_digit :: "nat \<Rightarrow> char" where
  "hex_digit n = ''0123456789abcdef'' ! n"

definition hex_byte :: "byte \<Rightarrow> string" where
  "hex_byte b = [hex_digit (unat b div 16), hex_digit (unat b mod 16)]"

definition NUL :: char where
  "NUL = CHR 0x00"

text \<open>The loop over the bytes from index \<open>i\<close> on, and the last store.\<close>

fun format_hex_from :: "nat \<Rightarrow> bytes \<Rightarrow> string \<Rightarrow> string option" where
  "format_hex_from i [] s = memcpy_at s (i * 2) [NUL]"
| "format_hex_from i (b # md) s = do {
     s \<leftarrow> memcpy_at s (i * 2) (hex_byte b @ [NUL]);
     format_hex_from (Suc i) md s
   }"

definition format_hex :: "bytes \<Rightarrow> string \<Rightarrow> string option" where
  "format_hex md s = format_hex_from 0 md s"

section \<open>Parsing a size\<close>

text \<open>
  A \<^verbatim>\<open>double\<close> is a rational number, an infinity or not a number. Multiplying it by a power of two
  is exact, unless it overflows; converting it to \<^verbatim>\<open>int64_t\<close> truncates, and is undefined when the
  result does not fit, which covers the overflow.
\<close>

datatype double = Finite rat | Infinite bool | NaN

fun double_negative :: "double \<Rightarrow> bool" where
  "double_negative (Finite q) = (q < 0)"
| "double_negative (Infinite neg) = neg"
| "double_negative NaN = False"

definition trunc_rat :: "rat \<Rightarrow> int" where
  "trunc_rat q = (if q < 0 then - \<lfloor>- q\<rfloor> else \<lfloor>q\<rfloor>)"

fun double_scale :: "nat \<Rightarrow> double \<Rightarrow> int option" where
  "double_scale k (Finite q) =
     (let i = trunc_rat (q * of_nat k) in if - (2 ^ 63) \<le> i \<and> i < 2 ^ 63 then Some i else None)"
| "double_scale k _ = None"

text \<open>\<open>strtod s\<close> is the value and the number of characters it used.\<close>

definition parse_humansize :: "(string \<Rightarrow> double \<times> nat) \<Rightarrow> string \<Rightarrow> int option" where
  "parse_humansize strtod s =
     (case strtod s of
        (value, n) \<Rightarrow>
          if double_negative value then Some (- EINVAL)
          else if n = 0 then Some (- EINVAL)
          else
            (let end = drop n s
             in if end = [] then double_scale 1 value
                else if end = ''k'' then double_scale (2 ^ 10) value
                else if end = ''m'' then double_scale (2 ^ 20) value
                else if end = ''g'' then double_scale (2 ^ 30) value
                else if end = ''t'' then double_scale (2 ^ 40) value
                else Some (- EINVAL)))"

section \<open>Properties of printing\<close>

text \<open>Reading the digits back.\<close>

definition hex_value :: "char \<Rightarrow> nat option" where
  "hex_value c = map_option fst (find (\<lambda>(_, d). d = c) (enumerate 0 ''0123456789abcdef''))"

fun parse_hex :: "string \<Rightarrow> bytes option" where
  "parse_hex [] = Some []"
| "parse_hex [c] = None"
| "parse_hex (c # d # s) = do {
     h \<leftarrow> hex_value c;
     l \<leftarrow> hex_value d;
     bs \<leftarrow> parse_hex s;
     Some (of_nat (16 * h + l) # bs)
   }"

lemma hex_value_digit: "n < 16 \<Longrightarrow> hex_value (hex_digit n) = Some n"
proof -
  have "\<forall>n\<in>set [0..<16]. hex_value (hex_digit n) = Some n" by code_simp
  then show "n < 16 \<Longrightarrow> ?thesis" by simp
qed

lemma parse_hex_byte: "parse_hex (hex_byte b @ s) = map_option ((#) b) (parse_hex s)"
proof -
  have "unat b < 16 * 16" using unsigned_less [of b] by simp
  then have "unat b div 16 < 16" by (rule less_mult_imp_div_less)
  moreover have "of_nat (16 * (unat b div 16) + unat b mod 16) = b"
    by (subst mult_div_mod_eq) simp
  ultimately show ?thesis
    by (cases "parse_hex s") (simp_all add: hex_byte_def hex_value_digit del: of_nat_add of_nat_mult)
qed

lemma parse_hex_bytes: "parse_hex (concat (map hex_byte md)) = Some md"
  by (induction md) (simp_all add: parse_hex_byte)

lemma format_hex_from_ok:
  assumes "2 * (i + length md) < length s"
  shows "format_hex_from i md s =
    Some (take (2 * i) s @ concat (map hex_byte md) @ NUL # drop (2 * (i + length md) + 1) s)"
  using assms
proof (induction md arbitrary: i s)
  case Nil
  then show ?case by (simp add: memcpy_at_def mult.commute)
next
  case (Cons b md)
  let ?s = "take (2 * i) s @ (hex_byte b @ [NUL]) @ drop (2 * i + 3) s"
  have "memcpy_at s (i * 2) (hex_byte b @ [NUL]) = Some ?s"
    using Cons.prems by (simp add: memcpy_at_def hex_byte_def mult.commute numeral_3_eq_3)
  moreover have "format_hex_from (Suc i) md ?s = Some (take (2 * Suc i) ?s @ concat (map hex_byte md) @
      NUL # drop (2 * (Suc i + length md) + 1) ?s)"
    using Cons.prems by (intro Cons.IH) (simp add: hex_byte_def)
  moreover have "take (2 * Suc i) ?s = take (2 * i) s @ hex_byte b"
    using Cons.prems by (simp add: hex_byte_def)
  moreover have "drop (2 * (Suc i + length md) + 1) ?s = drop (2 * (i + length (b # md)) + 1) s"
    using Cons.prems by (simp add: hex_byte_def numeral_3_eq_3 add.commute)
  ultimately show ?case by simp
qed


end
