(* ===== verification/Blksum.thy ===== *)
theory Blksum
  imports Util Digest "HOL-Library.List_Lexorder" "HOL-Library.Char_ord"
begin

text \<open>
  The command line tool \<^verbatim>\<open>bin/blksum.c\<close>: its options, the listing of the digests, the state that
  signals and failures change, and what it prints. \<^verbatim>\<open>getopt_long\<close>, \<^verbatim>\<open>strtod\<close>, \<^verbatim>\<open>isatty\<close> and the
  page size are parameters.
\<close>

section \<open>Options\<close>

definition MAX_QUEUE_DEPTH :: int where
  "MAX_QUEUE_DEPTH = 128"

definition BLKSUM_MAX_THREADS :: int where
  "BLKSUM_MAX_THREADS = 128"

definition USER_QUEUE_DEPTH :: nat where "USER_QUEUE_DEPTH = 1"
definition USER_READ_SIZE :: nat where "USER_READ_SIZE = 2"
definition USER_CACHE :: nat where "USER_CACHE = 4"

record options =
  opt_digest_name :: string
  opt_read_size :: nat
  opt_queue_depth :: nat
  opt_block_size :: nat
  opt_threads :: nat
  opt_extents_size :: int
  opt_aio :: string
  opt_cache :: bool
  opt_filename :: "string option"
  opt_progress :: bool
  opt_flags :: nat

definition default_options :: "bool \<Rightarrow> options" where
  "default_options linux =
     \<lparr>opt_digest_name = ''sha256'', opt_read_size = 256 * 2 ^ 10, opt_queue_depth = 16,
      opt_block_size = 64 * 2 ^ 10, opt_threads = 4, opt_extents_size = 2 ^ 30,
      opt_aio = (if linux then ''native'' else ''threads''), opt_cache = False,
      opt_filename = None, opt_progress = False, opt_flags = 0\<rparr>"

text \<open>What \<^verbatim>\<open>getopt_long\<close> returns for one option, with \<^verbatim>\<open>optarg\<close>.\<close>

datatype getopt =
    Opt_help | Opt_list_digests | Opt_digest string | Opt_progress | Opt_cache | Opt_threads string
  | Opt_queue_depth string | Opt_read_size string | Opt_block_size string | Opt_missing | Opt_invalid

text \<open>The machine the options are parsed on.\<close>

record machine =
  strtod :: "string \<Rightarrow> double \<times> nat"
  stdout_tty :: bool
  page_size :: int

text \<open>\<^verbatim>\<open>int value = parse_humansize(optarg)\<close>, and the conversion of an \<^verbatim>\<open>int\<close> to \<^verbatim>\<open>size_t\<close>.\<close>

definition to_int :: "int \<Rightarrow> int" where
  "to_int i = (i + 2 ^ 31) mod 2 ^ 32 - 2 ^ 31"

definition to_size :: "int \<Rightarrow> nat" where
  "to_size i = nat (i mod 2 ^ 64)"

definition parse_value :: "machine \<Rightarrow> string \<Rightarrow> int option" where
  "parse_value K s = map_option to_int (parse_humansize (strtod K) s)"

text \<open>One round of the loop: \<open>Inl\<close> is the exit code when the tool exits, \<open>None\<close> undefined behaviour.\<close>

fun parse_option :: "machine \<Rightarrow> getopt \<Rightarrow> options \<Rightarrow> (int + options) option" where
  "parse_option K Opt_help opt = Some (Inl 0)"
| "parse_option K Opt_list_digests opt = Some (Inl 0)"
| "parse_option K (Opt_digest name) opt = Some (Inr (opt\<lparr>opt_digest_name := name\<rparr>))"
| "parse_option K Opt_progress opt = Some (Inr (opt\<lparr>opt_progress := stdout_tty K\<rparr>))"
| "parse_option K Opt_cache opt =
     Some (Inr (opt\<lparr>opt_cache := True, opt_flags := opt_flags opt OR USER_CACHE\<rparr>))"
| "parse_option K (Opt_threads s) opt = do {
     value \<leftarrow> parse_value K s;
     if value = - EINVAL \<or> value < 1 \<or> value > BLKSUM_MAX_THREADS then Some (Inl 1)
     else Some (Inr (opt\<lparr>opt_threads := nat value\<rparr>))
   }"
| "parse_option K (Opt_queue_depth s) opt = do {
     value \<leftarrow> parse_value K s;
     if value = - EINVAL \<or> value > MAX_QUEUE_DEPTH then Some (Inl 1)
     else Some (Inr (opt\<lparr>opt_queue_depth := to_size value,
                         opt_flags := opt_flags opt OR USER_QUEUE_DEPTH\<rparr>))
   }"
| "parse_option K (Opt_read_size s) opt = do {
     value \<leftarrow> parse_value K s;
     if value = - EINVAL then Some (Inl 1)
     else Some (Inr (opt\<lparr>opt_read_size := to_size value,
                         opt_flags := opt_flags opt OR USER_READ_SIZE\<rparr>))
   }"
| "parse_option K (Opt_block_size s) opt = do {
     let page = (if page_size K = - 1 then 4 * 2 ^ 10 else page_size K);
     value \<leftarrow> parse_value K s;
     if value = - EINVAL then Some (Inl 1)
     else if page = 0 then None
     else if int (opt_block_size opt) mod (page mod 2 ^ 64) \<noteq> 0 then Some (Inl 1)
     else Some (Inr (opt\<lparr>opt_block_size := to_size value\<rparr>))
   }"
| "parse_option K Opt_missing opt = Some (Inl 1)"
| "parse_option K Opt_invalid opt = Some (Inl 1)"

fun parse_loop :: "machine \<Rightarrow> getopt list \<Rightarrow> options \<Rightarrow> (int + options) option" where
  "parse_loop K [] opt = Some (Inr opt)"
| "parse_loop K (c # cs) opt =
     (case parse_option K c opt of
        Some (Inr opt) \<Rightarrow> parse_loop K cs opt
      | r \<Rightarrow> r)"

text \<open>\<open>args\<close> are the arguments that are left after the options.\<close>

definition parse_options ::
    "machine \<Rightarrow> getopt list \<Rightarrow> string list \<Rightarrow> options \<Rightarrow> (int + options) option" where
  "parse_options K cs args opt =
     (case parse_loop K cs opt of
        Some (Inr opt) \<Rightarrow>
          if opt_block_size opt = 0 then None
          else if opt_read_size opt mod opt_block_size opt \<noteq> 0 then Some (Inl 1)
          else if opt_read_size opt < opt_block_size opt then Some (Inl 1)
          else Some (Inr (case args of [] \<Rightarrow> opt | a # _ \<Rightarrow> opt\<lparr>opt_filename := Some a\<rparr>))
      | r \<Rightarrow> r)"

section \<open>Listing the digests\<close>

text \<open>\<^verbatim>\<open>compare\<close> orders names as \<^verbatim>\<open>strcmp\<close> does, which needs every name.\<close>

definition list_digests :: "'x crypto \<Rightarrow> string list option" where
  "list_digests C = do {
     (count, names) \<leftarrow> blkhash_digests C (Some (replicate 40 None)) 40;
     names \<leftarrow> names;
     names \<leftarrow> those (take count names);
     Some (sort names)
   }"

section \<open>Signals and failures\<close>

record program =
  failed :: bool
  terminated :: int
  debug :: bool

definition handle_signal :: "int \<Rightarrow> program \<Rightarrow> program option" where
  "handle_signal signum p = do {
     assert_that (signum > 0);
     Some (if terminated p = 0 then p\<lparr>terminated := signum\<rparr> else p)
   }"

definition running :: "program \<Rightarrow> bool" where
  "running p \<longleftrightarrow> \<not> (terminated p \<noteq> 0 \<or> failed p)"

text \<open>\<^verbatim>\<open>fail\<close>: whether the message is shown, and the state before the process or the thread exits.\<close>

definition fail :: "program \<Rightarrow> bool \<times> program" where
  "fail p =
     (if \<not> (failed p \<or> terminated p \<noteq> 0) \<or> debug p then (True, p\<lparr>failed := True\<rparr>) else (False, p))"

datatype exit_status = Raised int | Exit int string

text \<open>
  \<^verbatim>\<open>main\<close> after the checksum: \<open>md\<close> is the digest, \<open>hex\<close> the buffer for its digits. \<^verbatim>\<open>printf\<close> prints
  the buffer up to its NUL.
\<close>

definition main_end :: "program \<Rightarrow> options \<Rightarrow> bytes \<Rightarrow> string \<Rightarrow> exit_status option" where
  "main_end p opt md hex =
     (if terminated p \<noteq> 0 then Some (Raised (terminated p))
      else if failed p then Some (Exit 1 [])
      else do {
        hex \<leftarrow> format_hex md hex;
        Some (Exit 0 (takeWhile (\<lambda>c. c \<noteq> NUL) hex @ ''  '' @
          (case opt_filename opt of None \<Rightarrow> ''-'' | Some f \<Rightarrow> f) @ [CHR 0x0A]))
      })"

section \<open>Properties of the options\<close>

lemma parse_option_threads:
  "parse_option K c opt = Some (Inr opt') \<Longrightarrow> 1 \<le> opt_threads opt \<Longrightarrow> opt_threads opt \<le> 128 \<Longrightarrow>
   1 \<le> opt_threads opt' \<and> opt_threads opt' \<le> 128"
  by (cases c) (auto simp: BLKSUM_MAX_THREADS_def bind_eq_Some_conv Let_def split: if_splits)

lemma parse_loop_threads:
  "parse_loop K cs opt = Some (Inr opt') \<Longrightarrow> 1 \<le> opt_threads opt \<Longrightarrow> opt_threads opt \<le> 128 \<Longrightarrow>
   1 \<le> opt_threads opt' \<and> opt_threads opt' \<le> 128"
  by (induction cs arbitrary: opt) (auto split: option.splits sum.splits dest: parse_option_threads)

text \<open>
  C26. The options \<^verbatim>\<open>blksum\<close> goes on with, whatever the command line: the number of threads is one the
  library accepts, the block size is positive, and the read size is a positive multiple of it.
\<close>

theorem parse_options_valid:
  assumes "parse_options K cs args (default_options linux) = Some (Inr opt)"
  shows "1 \<le> opt_threads opt \<and> opt_threads opt \<le> 128 \<and> 0 < opt_block_size opt \<and>
    opt_block_size opt dvd opt_read_size opt \<and> opt_block_size opt \<le> opt_read_size opt"
proof -
  obtain opt' where opt': "parse_loop K cs (default_options linux) = Some (Inr opt')" "0 < opt_block_size opt'"
      "opt_block_size opt' dvd opt_read_size opt'" "opt_block_size opt' \<le> opt_read_size opt'"
      "opt = (case args of [] \<Rightarrow> opt' | a # _ \<Rightarrow> opt'\<lparr>opt_filename := Some a\<rparr>)"
    using assms by (auto simp: parse_options_def dvd_eq_mod_eq_0 split: option.splits sum.splits if_splits)
  moreover have "1 \<le> opt_threads opt' \<and> opt_threads opt' \<le> 128"
    using parse_loop_threads [OF opt'(1)] by (simp add: default_options_def)
  ultimately show ?thesis by (auto split: list.splits)
qed

text \<open>A machine whose \<^verbatim>\<open>strtod\<close> knows a few numbers.\<close>

definition sample_strtod :: "string \<Rightarrow> double \<times> nat" where
  "sample_strtod s =
     (if take 2 s = ''16'' then (Finite 16, 2) else if take 1 s = ''0'' then (Finite 0, 1)
      else if take 1 s = ''3'' then (Finite 3, 1) else (Finite 0, 0))"

definition sample_machine :: machine where
  "sample_machine = \<lparr>strtod = sample_strtod, stdout_tty = False, page_size = 4096\<rparr>"

theorem parse_options_valid_witness:
  "\<exists>opt. parse_options sample_machine [Opt_threads ''16'', Opt_read_size ''3m'', Opt_cache] [''disk.img'']
     (default_options True) = Some (Inr opt) \<and> opt_threads opt = 16 \<and> opt_read_size opt = 3 * 2 ^ 20 \<and>
     opt_block_size opt dvd opt_read_size opt"
proof -
  have parse: "parse_value sample_machine ''16'' = Some 16" "parse_value sample_machine ''3m'' = Some (3 * 2 ^ 20)"
    by (simp_all add: parse_value_def parse_humansize_def sample_machine_def sample_strtod_def trunc_rat_def to_int_def)
  obtain opt where opt: "parse_options sample_machine [Opt_threads ''16'', Opt_read_size ''3m'', Opt_cache] [''disk.img'']
      (default_options True) = Some (Inr opt)" "opt_threads opt = 16" "opt_read_size opt = 3 * 2 ^ 20"
    by (simp add: parse_options_def parse default_options_def BLKSUM_MAX_THREADS_def to_size_def)
  from parse_options_valid [OF opt(1)] opt show ?thesis by blast
qed

text \<open>
  C37. The value of an option is cut to 32 bits before it is checked and the lower bound of the queue
  depth is not checked: \<^verbatim>\<open>--queue-depth 3g\<close>, outside of the documented range 1-128, is accepted as a
  depth of more than \<open>2\<^sup>63\<close>, and \<^verbatim>\<open>--queue-depth 0\<close> as 0.
\<close>

theorem queue_depth_not_checked:
  assumes "strtod K ''3g'' = (Finite 3, 1)" and "strtod K ''0'' = (Finite 0, 1)"
  shows "map_option (map_sum id opt_queue_depth) (parse_option K (Opt_queue_depth ''3g'') opt) =
      Some (Inr (2 ^ 64 - 2 ^ 30)) \<and>
    map_option (map_sum id opt_queue_depth) (parse_option K (Opt_queue_depth ''0'') opt) = Some (Inr 0)"
  using assms
  by (simp add: parse_value_def parse_humansize_def trunc_rat_def to_int_def to_size_def MAX_QUEUE_DEPTH_def)

theorem queue_depth_not_checked_witness:
  "map_option (map_sum id opt_queue_depth) (parse_option sample_machine (Opt_queue_depth ''3g'') (default_options True)) =
     Some (Inr (2 ^ 64 - 2 ^ 30))"
  using queue_depth_not_checked [of sample_machine "default_options True"]
  by (simp add: sample_machine_def sample_strtod_def)

text \<open>
  C38. \<^verbatim>\<open>--block-size\<close> checks the alignment of the previous block size instead of the new one: 0 is
  accepted, and the validation that follows divides by it.
\<close>

theorem block_size_zero_divides:
  assumes "strtod K ''0'' = (Finite 0, 1)" and "page_size K = 4096"
  shows "parse_options K [Opt_block_size ''0''] args (default_options linux) = None"
  using assms
  by (simp add: parse_options_def parse_value_def parse_humansize_def trunc_rat_def to_int_def to_size_def
      default_options_def Let_def)

theorem block_size_zero_divides_witness:
  "parse_options sample_machine [Opt_block_size ''0''] [] (default_options False) = None"
  by (rule block_size_zero_divides) (simp_all add: sample_machine_def sample_strtod_def)

section \<open>Properties of the digest list\<close>

text \<open>The names there are, in the order in which they are found.\<close>

definition evp_name :: "'x crypto \<Rightarrow> 'x option \<Rightarrow> string option list" where
  "evp_name C md =
     (case md of
        None \<Rightarrow> []
      | Some md \<Rightarrow>
          if EVP_MD_nid C md = NID_undef then []
          else [case OBJ_nid2ln C (EVP_MD_nid C md) of None \<Rightarrow> OBJ_nid2sn C (EVP_MD_nid C md) | Some n \<Rightarrow> Some n])"

definition all_names :: "'x crypto \<Rightarrow> string option list" where
  "all_names C =
     Some ''null'' # (if have_blake3 C then [Some ''blake3''] else []) @
     concat (map (evp_name C) (EVP_MD_provided C))"

text \<open>The list after some names were found, for a counting call and for an array.\<close>

definition listed :: "string option list option \<Rightarrow> nat \<Rightarrow> string option list \<Rightarrow> digest_list" where
  "listed names cap found =
     \<lparr>dl_names = map_option (\<lambda>a. take cap found @ drop (length found) a) names,
      dl_len = (if cap = 0 then length found else min cap (length found)), dl_cap = cap\<rparr>"

definition list_args :: "string option list option \<Rightarrow> nat \<Rightarrow> bool" where
  "list_args names cap \<longleftrightarrow> (case names of None \<Rightarrow> cap = 0 | Some a \<Rightarrow> length a = cap \<and> 0 < cap)"

lemma append_name_listed:
  assumes "list_args names cap"
  shows "append_name (listed names cap found) name = Some (listed names cap (found @ [name]))"
proof (cases names)
  case None
  then show ?thesis using assms by (simp add: list_args_def listed_def append_name_def)
next
  case (Some a)
  then have "length a = cap" "0 < cap" using assms by (simp_all add: list_args_def)
  then show ?thesis
    using Some by (cases "length found < cap")
      (auto simp: listed_def append_name_def list_update_append Cons_nth_drop_Suc [symmetric] min_def)
qed

lemma append_evp_listed:
  "list_args names cap \<Longrightarrow>
   append_evp C md (listed names cap found) = Some (listed names cap (found @ evp_name C md))"
  by (cases md) (simp_all add: append_evp_def evp_name_def append_name_listed Let_def)

lemma add_evp_listed:
  "list_args names cap \<Longrightarrow>
   add_evp C mds (listed names cap found) = Some (listed names cap (found @ concat (map (evp_name C) mds)))"
  by (induction mds arbitrary: found) (simp_all add: append_evp_listed)

text \<open>
  C30. \<^verbatim>\<open>blkhash_digests\<close> implements the documented protocol: with no array it returns the number of
  digests, and with an array of positive size it stores the first names, as many as fit, leaves the
  rest of the array alone and returns how many it stored.
\<close>

theorem digests_protocol:
  assumes "names = Some a" and "0 < length a"
  shows "blkhash_digests C None 0 = Some (length (all_names C), None) \<and>
    blkhash_digests C names (length a) =
      Some (min (length a) (length (all_names C)),
        Some (take (length a) (all_names C) @ drop (length (all_names C)) a))"
proof -
  have "blkhash_digests C names cap = Some (dl_len (listed names cap (all_names C)), dl_names (listed names cap (all_names C)))"
    if "list_args names cap" for names cap
  proof -
    have "\<lparr>dl_names = names, dl_len = 0, dl_cap = cap\<rparr> = listed names cap []"
      by (cases names) (simp_all add: listed_def)
    then show ?thesis
      using that by (simp add: blkhash_digests_def add_builtin_def append_name_listed add_evp_listed all_names_def)
  qed
  note eq = this [of None 0] this [of "Some a" "length a"]
  show ?thesis using eq assms by (simp add: list_args_def listed_def)
qed

theorem digests_protocol_witness:
  "blkhash_digests sample_crypto None 0 = Some (2, None) \<and>
   blkhash_digests sample_crypto (Some [None]) 1 = Some (1, Some [Some ''null''])"
  using digests_protocol [of "Some [None]" "[None]" sample_crypto]
  by (simp add: all_names_def evp_name_def sample_crypto_def NID_undef_def)

section \<open>Properties of the result\<close>

lemma hex_no_NUL: "c \<in> set (concat (map hex_byte md)) \<Longrightarrow> c \<noteq> NUL"
proof -
  have digit: "\<forall>n\<in>set [0..<16]. hex_digit n \<noteq> NUL" by code_simp
  have "hex_digit (unat b div 16) \<noteq> NUL \<and> hex_digit (unat b mod 16) \<noteq> NUL" for b :: byte
  proof -
    have "unat b < 16 * 16" using unsigned_less [of b] by simp
    then have "unat b div 16 < 16" by (rule less_mult_imp_div_less)
    then show ?thesis using digit by simp
  qed
  then show "c \<in> set (concat (map hex_byte md)) \<Longrightarrow> ?thesis" by (auto simp: hex_byte_def) metis+
qed

text \<open>
  C29. \<^verbatim>\<open>main\<close> prints a digest and exits with 0 only if the tool neither failed nor was terminated; the
  line is the digits of the digest, two spaces and the name of the file, or \<^verbatim>\<open>-\<close>. Its buffer is large
  enough for every digest.
\<close>

theorem main_prints_digest:
  assumes "length md \<le> BLKHASH_MAX_MD_SIZE" and "length hex = BLKHASH_MAX_MD_SIZE * 2 + 1"
  shows "main_end p opt md hex =
    (if terminated p \<noteq> 0 then Some (Raised (terminated p)) else if failed p then Some (Exit 1 [])
     else Some (Exit 0 (concat (map hex_byte md) @ ''  '' @
       (case opt_filename opt of None \<Rightarrow> ''-'' | Some f \<Rightarrow> f) @ [CHR 0x0A]))) \<and>
    parse_hex (concat (map hex_byte md)) = Some md"
proof -
  have "format_hex md hex = Some (concat (map hex_byte md) @ NUL # drop (2 * length md + 1) hex)"
    using assms format_hex_from_ok [of 0 md hex] by (simp add: format_hex_def BLKHASH_MAX_MD_SIZE_def)
  moreover have "takeWhile (\<lambda>c. c \<noteq> NUL) (concat (map hex_byte md) @ NUL # r) = concat (map hex_byte md)" for r
    using hex_no_NUL by (subst takeWhile_append2) auto
  ultimately show ?thesis by (simp add: main_end_def parse_hex_bytes)
qed

theorem main_prints_digest_witness:
  "main_end \<lparr>failed = False, terminated = 0, debug = False\<rparr> (default_options True) [0x0f, 0xa0] (replicate 129 NUL) =
     Some (Exit 0 (''0fa0  -'' @ [CHR 0x0A]))"
  using main_prints_digest [of "[0x0f, 0xa0]" "replicate 129 NUL" "\<lparr>failed = False, terminated = 0, debug = False\<rparr>"
      "default_options True"]
  by (simp add: BLKHASH_MAX_MD_SIZE_def default_options_def hex_byte_def hex_digit_def)

end
