(* ===== verification/Checksum.thy ===== *)
theory Checksum
  imports Use Sources Blksum
begin

text \<open>
  \<^verbatim>\<open>bin/checksum.c\<close>: the checksum of a pipe, with the library of the theory \<open>Blkhash\<close>. The tool and
  the library share the memory; the buffer of the tool is at address \<open>buf\<close>.
\<close>

section \<open>The program\<close>

definition written :: "nat \<Rightarrow> bytes \<Rightarrow> (nat \<Rightarrow> byte) \<Rightarrow> nat \<Rightarrow> byte" where
  "written a d f p = (if a \<le> p \<and> p < a + length d then d ! (p - a) else f p)"

definition store_bytes :: "nat \<Rightarrow> bytes \<Rightarrow> ('x, 'k) sys \<Rightarrow> ('x, 'k) sys" where
  "store_bytes a d s = s\<lparr>mem := written a d (mem s)\<rparr>"

text \<open>The loop: it returns the error of \<^verbatim>\<open>blkhash_update\<close>.\<close>

partial_function (option) checksum_loop ::
    "('x, 'k) ext \<Rightarrow> 'p pipe_host \<Rightarrow> nat \<Rightarrow> nat \<Rightarrow> ('x, 'k) sys \<Rightarrow> 'p \<Rightarrow>
     (int outcome \<times> ('x, 'k) sys \<times> 'p) option" where
  "checksum_loop E K buf read_size s p =
     (if is_running K p then do {
        (r, p) \<leftarrow> pipe_ops_read K read_size p;
        case r of
          Inl () \<Rightarrow> Some (Inl (), s, p)
        | Inr data \<Rightarrow>
            if data = [] then Some (Inr 0, s, p)
            else do {
              (err, s) \<leftarrow> blkhash_update E buf (length data) (store_bytes buf data s);
              if err \<noteq> 0 then Some (Inr err, s, p) else checksum_loop E K buf read_size s p
            }
      } else Some (Inr 0, s, p))"

declare checksum_loop.simps [code]

text \<open>The part after the loop: \<open>Inr None\<close> when the tool was told to stop.\<close>

definition checksum_end ::
    "('x, 'k) ext \<Rightarrow> 'p pipe_host \<Rightarrow> int \<Rightarrow> ('x, 'k) sys \<Rightarrow> 'p \<Rightarrow>
     (bytes option outcome \<times> ('x, 'k) sys \<times> 'p) option" where
  "checksum_end E K err s p = do {
     (err, md, s) \<leftarrow> (if err = 0 \<and> is_running K p
        then do { (err, md, s) \<leftarrow> blkhash_final E s; Some (err, Some md, s) }
        else Some (err, None, s));
     s \<leftarrow> blkhash_free E s;
     Some (if err \<noteq> 0 then Inl () else Inr md, s, p)
   }"

definition checksum_opts :: "options \<Rightarrow> bool list \<Rightarrow> blkhash_opts outcome \<times> bool list" where
  "checksum_opts opt fs =
     (case blkhash_opts_new (Some (opt_digest_name opt)) fs of
        (Inl err, fs) \<Rightarrow> (Inl (), fs)
      | (Inr ho, fs) \<Rightarrow>
     (case blkhash_opts_set_block_size ho (u32 (opt_block_size opt)) of
        (err, ho) \<Rightarrow> if err \<noteq> 0 then (Inl (), fs) else
     (case blkhash_opts_set_threads ho (opt_threads opt mod 2 ^ 8) of
        (err, ho) \<Rightarrow> if err \<noteq> 0 then (Inl (), fs) else (Inr ho, fs))))"

definition checksum ::
    "('x, 'k) ext \<Rightarrow> 'p pipe_host \<Rightarrow> options \<Rightarrow> nat \<Rightarrow> ('x, 'k) sys \<Rightarrow> 'p \<Rightarrow>
     (bytes option outcome \<times> ('x, 'k) sys \<times> 'p) option" where
  "checksum E K opt buf s p =
     (case sys_acquire s of
        (False, s) \<Rightarrow> Some (Inl (), s, p)
      | (True, s) \<Rightarrow>
     (case checksum_opts opt (faults s) of
        (Inl (), fs) \<Rightarrow> Some (Inl (), s\<lparr>faults := fs\<rparr>, p)
      | (Inr ho, fs) \<Rightarrow> do {
          (err, s) \<leftarrow> blkhash_new_opts E ho (s\<lparr>faults := fs\<rparr>);
          if err \<noteq> 0 then Some (Inl (), s, p)
          else do {
            (r, s, p) \<leftarrow> checksum_loop E K buf (opt_read_size opt) s p;
            case r of
              Inl () \<Rightarrow> Some (Inl (), s, p)
            | Inr err \<Rightarrow> checksum_end E K err s p
          }
        }))"

section \<open>Writing to the buffer\<close>

lemma written_Nil: "written a [] f = f"
  by (auto simp: written_def fun_eq_iff)

lemma written_snoc: "written a (d @ [b]) f = (written a d f)(a + length d := b)"
  by (auto simp: written_def fun_eq_iff nth_append)

lemma map_written: "map (written a d f) [a..<a + length d] = d"
  by (rule nth_equalityI) (simp_all add: written_def)

lemma session_store_bytes:
  assumes "session E opts m0 k0 sc m out w s"
    and "\<And>u b n p. (u, b, n) \<in> set out \<Longrightarrow> a \<le> p \<Longrightarrow> p < a + length d \<Longrightarrow> \<not> (b \<le> p \<and> p < b + n)"
  shows "session E opts m0 k0 sc m out w (store_bytes a d s)"
  using assms(2)
proof (induction d rule: rev_induct)
  case Nil
  then show ?case using assms(1) by (simp add: store_bytes_def written_Nil)
next
  case (snoc b d)
  then have "session E opts m0 k0 sc m out w (store_bytes a d s)" by simp
  then have "session E opts m0 k0 sc m out w ((store_bytes a d s)\<lparr>mem := (mem (store_bytes a d s))(a + length d := b)\<rparr>)"
    by (rule session.store) (use snoc.prems in auto)
  then show ?case by (simp add: store_bytes_def written_snoc)
qed

section \<open>The checksum of a pipe\<close>

lemma session_update_stored:
  assumes s: "session E opts m0 k0 sc m [] w s" and env: "env_ok E M EM opts k0" "opts_ok opts"
    and len: "length m + length d < 2 ^ 62"
  shows "\<exists>s'. blkhash_update E a (length d) (store_bytes a d s) = Some (0, s') \<and>
    session E opts m0 k0 sc (m @ d) [] w s'"
proof -
  have "session E opts m0 k0 sc m [] w (store_bytes a d s)" by (rule session_store_bytes [OF s]) simp
  from session_update [OF this env len, of a] show ?thesis by (auto simp: store_bytes_def map_written)
qed

lemma checksum_loop_ok:
  assumes s: "session E opts m0 k0 sc m [] w s" and env: "env_ok E M EM opts k0" "opts_ok opts"
    and K: "pipe_ok K P" and len: "length m + length (pm_rest P p) < 2 ^ 62" and rs: "0 < read_size"
  shows "\<exists>s' p'. checksum_loop E K buf read_size s p = Some (Inr 0, s', p') \<and>
    session E opts m0 k0 sc (m @ pm_rest P p) [] w s'"
  using s len
proof (induction "length (pm_rest P p)" arbitrary: m s p rule: less_induct)
  case less
  obtain p' where p': "pipe_ops_read K read_size p = Some (Inr (take read_size (pm_rest P p)), p')"
      "pm_rest P p' = drop read_size (pm_rest P p)"
    using pipe_ops_read_ok [OF K] by blast
  have run: "is_running K p" using K by (simp add: pipe_ok_def)
  show ?case
  proof (cases "pm_rest P p = []")
    case True
    then show ?thesis using p' run less.prems(1) by (subst checksum_loop.simps) simp
  next
    case False
    let ?d = "take read_size (pm_rest P p)"
    have "length m + length ?d < 2 ^ 62" using less.prems(2) by simp
    then obtain s' where s': "blkhash_update E buf (length ?d) (store_bytes buf ?d s) = Some (0, s')"
        "session E opts m0 k0 sc (m @ ?d) [] w s'"
      using session_update_stored [OF less.prems(1) env] by blast
    have "\<exists>s'' p''. checksum_loop E K buf read_size s' p' = Some (Inr 0, s'', p'') \<and>
        session E opts m0 k0 sc ((m @ ?d) @ pm_rest P p') [] w s''"
      using less.prems(2) False rs p'(2) by (intro less.hyps [OF _ s'(2)]) auto
    then show ?thesis using p' run s'(1) False rs by (subst checksum_loop.simps) simp
  qed
qed

text \<open>
  C21. The checksum of a pipe is the block hash of everything that can be read from it, however the
  pipe delivers the bytes, whatever the number of threads and their schedule; and everything the
  library allocated is released.
\<close>

theorem checksum_of_pipe:
  assumes "pipe_ok K P" and "crypto_ok (crypto E) (opt_digest_name opt) M"
    and "16 \<le> opt_block_size opt" and "opt_block_size opt < 2 ^ 32" and "even (opt_block_size opt)"
    and "1 \<le> opt_threads opt" and "opt_threads opt \<le> 128" and "0 < opt_read_size opt"
    and "length (pm_rest P p) < 2 ^ 62"
  shows "\<exists>s' p'. checksum E K opt buf (sys_init m0 k0 [] sc) p =
      Some (Inr (Some (blkhash_spec (hash_of M) (opt_block_size opt) (pm_rest P p))), s', p') \<and> released s'"
proof -
  let ?ho = "\<lparr>o_digest_name = opt_digest_name opt, o_block_size = opt_block_size opt, o_queue_depth = 0,
    o_threads = opt_threads opt\<rparr>"
  have ho: "checksum_opts opt [] = (Inr ?ho, [])"
    using assms by (simp add: checksum_opts_def blkhash_opts_new_def blkhash_opts_set_block_size_def
        blkhash_opts_set_threads_def default_opts_def MAX_THREADS_def)
  have env: "env_ok E M EM ?ho k0" "opts_ok ?ho" for EM
    using assms by (simp_all add: env_ok_def opts_ok_def MAX_THREADS_def)
  obtain s where s: "blkhash_new_opts E ?ho (sys_init m0 k0 [] sc) = Some (0, s)"
      "session E ?ho m0 k0 sc [] [] False s"
    using session_new [OF env, of m0 sc] by blast
  obtain s1 p1 where s1: "checksum_loop E K buf (opt_read_size opt) s p = Some (Inr 0, s1, p1)"
      "session E ?ho m0 k0 sc (pm_rest P p) [] False s1"
    using checksum_loop_ok [OF s(2) env assms(1) _ assms(8), of p buf] assms(9) by auto
  obtain s2 s3 where "blkhash_final E s1 = Some (0, blkhash_spec (hash_of M) (opt_block_size opt) (pm_rest P p), s2)"
      "blkhash_free E s2 = Some s3" "released s3"
    using session_end [OF s1(2) env] by auto
  moreover have "is_running K p1" using assms(1) by (simp add: pipe_ok_def)
  ultimately show ?thesis
    using ho s(1) s1(1) by (simp add: checksum_def checksum_end_def sys_init_def)
qed

definition sample_options :: options where
  "sample_options = (default_options True)\<lparr>opt_digest_name := ''sum'', opt_read_size := 32, opt_block_size := 16,
     opt_threads := 2\<rparr>"

theorem checksum_of_pipe_witness:
  "\<exists>s' p'. checksum sample_ext sample_pipe_host sample_options 1000 (sys_init sample_mem (0, 0) [] sample_sched)
       (replicate 50 7) =
     Some (Inr (Some (blkhash_spec sample_hash 16 (replicate 50 7))), s', p') \<and> released s'"
proof -
  have "crypto_ok (crypto sample_ext) (opt_digest_name sample_options) sample_model"
    using sample_crypto_ok by (simp add: sample_ext_def sample_options_def)
  from checksum_of_pipe [OF sample_pipe_ok this, of "replicate 50 7" 1000 sample_mem "(0, 0)" sample_sched]
  show ?thesis by (simp add: sample_options_def sample_pipe_model_def sample_model_def)
qed

end
