(* ===== verification/Polling.thy ===== *)
theory Polling
  imports Use
begin

text \<open>
  An application that waits for the completion descriptor with \<^verbatim>\<open>poll\<close>: the descriptor becomes readable
  while updates are outstanding, and it cannot wake up the application forever for nothing.
\<close>

section \<open>The workers run\<close>

lemma run_workers_append:
  "run_workers E (is1 @ is2) s = Option.bind (run_workers E is1 s) (run_workers E is2)"
proof (induction is1 arbitrary: s)
  case (Cons i is1)
  then show ?case by (cases "worker_thread E i s") simp_all
qed simp

lemma run_until_steps: "run_until E P n s = Some s' \<Longrightarrow> \<exists>is. run_workers E is s = Some s'"
proof (induction n arbitrary: s)
  case 0
  then show ?case by (intro exI [of _ "[]"]) (simp split: if_splits)
next
  case (Suc n)
  show ?case
  proof (cases "P s")
    case True
    with Suc.prems show ?thesis by (intro exI [of _ "[]"]) simp
  next
    case False
    with Suc.prems obtain i s1 where "worker_thread E i s = Some s1" "run_until E P n s1 = Some s'"
      by (auto simp: bind_eq_Some_conv)
    moreover then obtain "is" where "run_workers E is s1 = Some s'" using Suc.IH by blast
    ultimately show ?thesis by (intro exI [of _ "i # is"]) simp
  qed
qed

lemma wait_sched_steps:
  "wait_sched E P sc s = Some s' \<Longrightarrow> \<exists>is s1 sc'. run_workers E is s = Some s1 \<and> s' = s1\<lparr>sched := sc'\<rparr>"
proof (induction sc arbitrary: s)
  case Nil
  then obtain "is" where "run_workers E is s = Some s'" using run_until_steps by fastforce
  then show ?case by (intro exI [of _ "is"] exI [of _ s'] exI [of _ "sched s'"]) simp
next
  case (Cons is1 rest)
  show ?case
  proof (cases "P s")
    case True
    with Cons.prems show ?thesis by (intro exI [of _ "[]"]) auto
  next
    case False
    with Cons.prems obtain s2 where s2: "run_workers E is1 s = Some s2" "wait_sched E P rest s2 = Some s'"
      by (auto simp: bind_eq_Some_conv)
    obtain is2 s1 sc' where "run_workers E is2 s2 = Some s1" "s' = s1\<lparr>sched := sc'\<rparr>"
      using Cons.IH [OF s2(2)] by blast
    with s2(1) show ?thesis by (intro exI [of _ "is1 @ is2"]) (auto simp: run_workers_append)
  qed
qed

lemma session_sched:
  assumes "session E opts m0 k0 sc m out w s"
  shows "session E opts m0 k0 sc m out w (s\<lparr>sched := sc'\<rparr>)"
  using session.run [OF assms, of "[]" s] by simp

lemma session_wait_until:
  assumes "session E opts m0 k0 sc m out w s" and "wait_until E P s = Some s'"
  shows "session E opts m0 k0 sc m out w s'"
  using wait_sched_steps [of E P "sched s" "s\<lparr>sched := []\<rparr>" s'] session.run [OF session_sched [OF assms(1)]] assms(2)
  by (auto simp: wait_until_def)

lemma session_yield:
  assumes "session E opts m0 k0 sc m out w s" and "yield E s = Some s'"
  shows "session E opts m0 k0 sc m out w s'"
proof (cases "sched s")
  case Nil
  with assms show ?thesis by (simp add: yield_def)
next
  case (Cons "is" rest)
  with assms(2) have "run_workers E is (s\<lparr>sched := rest\<rparr>) = Some s'" by (simp add: yield_def)
  from session.run [OF session_sched [OF assms(1)] this, of "sched s'"] show ?thesis by simp
qed

section \<open>Wake-ups\<close>

text \<open>
  A bound on how often the descriptor can still become readable: every signal of a worker takes a
  step of the worker.
\<close>

definition fd_ready :: "'k event_model \<Rightarrow> ('x, 'k) sys \<Rightarrow> bool" where
  "fd_ready EM s \<longleftrightarrow> (case cq_event (cq s) of None \<Rightarrow> False | Some e \<Rightarrow> event_ready EM e (kern s))"

definition wakeups :: "'k event_model \<Rightarrow> ('x, 'k) sys \<Rightarrow> nat" where
  "wakeups EM s = 2 * work_left s + (if fd_ready EM s then 1 else 0)"

lemma wakeups_sched [simp]: "wakeups EM (s\<lparr>sched := sc\<rparr>) = wakeups EM s"
  by (simp add: wakeups_def fd_ready_def work_left_def split: option.split)

lemma thread_work_update:
  "i < length ts \<Longrightarrow>
   sum_list (map thread_work (ts[i := t])) + thread_work (ts ! i) = sum_list (map thread_work ts) + thread_work t"
  by (induction ts arbitrary: i) (auto split: nat.split)

lemma worker_wakeups:
  assumes inv: "winv E G s" and step: "worker_thread E i s = Some s'"
  shows "wakeups EM s' \<le> wakeups EM s"
proof (cases "i < length (threads s) \<and> runnable (threads s ! i)")
  case True
  then have "work_left s' < work_left s" using wk.step [OF inv, of i] step by simp
  then show ?thesis by (simp add: wakeups_def)
next
  case False
  then consider "s' = s" | d where "i < length (threads s)" "threads s ! i = Wait d"
    using step by (cases "i < length (threads s)"; cases "threads s ! i") (auto simp: worker_thread_def)
  then show ?thesis
  proof cases
    case 2
    have lt: "p_queue_len (pool s) < 2 ^ 32" using winvD(1) [OF inv] by (auto simp: pool_inv_def pq_inv_def)
    have upd: "sum_list (map thread_work ((threads s)[i := t])) = sum_list (map thread_work (threads s)) + thread_work t"
      for t using thread_work_update [OF 2(1), of t] 2(2) by simp
    with lt have "kern s' = kern s \<and> cq s' = cq s \<and> work_left s' \<le> work_left s"
      using step 2
      by (auto simp: worker_thread_def wait_for_work_awake_def wait_for_work_def set_thread_def work_left_def
          pop_unlocked_def upd split: if_splits sub_ptr.splits)
    then show ?thesis by (simp add: wakeups_def fd_ready_def split: option.split)
  qed simp
qed

lemma run_workers_wakeups:
  "winv E G s \<Longrightarrow> run_workers E is s = Some s' \<Longrightarrow> wakeups EM s' \<le> wakeups EM s"
proof (induction "is" arbitrary: s)
  case (Cons i "is")
  then obtain s1 where s1: "worker_thread E i s = Some s1" "run_workers E is s1 = Some s'"
    by (auto simp: bind_eq_Some_conv)
  then have "winv E G s1" using wk.step [OF Cons.prems(1), of i] by simp
  from Cons.IH [OF this s1(2)] worker_wakeups [OF Cons.prems(1) s1(1), of EM] show ?case by linarith
qed simp

lemma yield_wakeups:
  assumes "winv E G s" and "yield E s = Some s'"
  shows "wakeups EM s' \<le> wakeups EM s"
proof (cases "sched s")
  case (Cons "is" rest)
  then show ?thesis
    using run_workers_wakeups [of E G "s\<lparr>sched := rest\<rparr>" "is" s' EM] assms by (simp add: yield_def)
qed (use assms in \<open>simp add: yield_def\<close>)

lemma wait_until_wakeups:
  assumes "winv E G s" and "wait_until E P s = Some s'"
  shows "wakeups EM s' \<le> wakeups EM s"
proof -
  obtain "is" s1 sc where "run_workers E is (s\<lparr>sched := []\<rparr>) = Some s1" "s' = s1\<lparr>sched := sc\<rparr>"
    using wait_sched_steps assms(2) unfolding wait_until_def by blast
  then show ?thesis using run_workers_wakeups [of E G "s\<lparr>sched := []\<rparr>" "is" s1 EM] assms(1) by simp
qed

text \<open>Asking for completions when there are none.\<close>

lemma completions_wakeups:
  assumes "winv E G s" and "blkhash_aio_completions E cnt s = Some (r, [], s')" and "0 < cnt"
  shows "wakeups EM s' \<le> wakeups EM s"
proof -
  obtain s1 where s1: "yield E s = Some s1"
      "(if error s1 \<noteq> 0 then Some (- error s1, [], s1) else take_completions E cnt s1) = Some (r, [], s')"
    using assms(2) by (auto simp: blkhash_aio_completions_def bind_eq_Some_conv)
  have inv: "winv E G s1" using yield_ok [OF assms(1)] s1(1) by (simp add: step_ok_def)
  have "length (cq_array (cq s1)) = queue_depth (config s1)" "cq_count (cq s1) \<le> queue_depth (config s1)"
    using winvD(9) [OF inv] by (auto simp: cq_inv_def)
  then have "kern s' = kern s1 \<and> cq_event (cq s') = cq_event (cq s1) \<and> work_left s' = work_left s1"
    using s1(2) assms(3)
    by (auto simp: take_completions_def cq_take_def Let_def assert_that_def work_left_def bind_eq_Some_conv
        split: if_splits)
  then have "wakeups EM s' = wakeups EM s1" by (simp add: wakeups_def fd_ready_def split: option.split)
  then show ?thesis using yield_wakeups [OF assms(1) s1(1), of EM] by simp
qed

section \<open>Waiting for the descriptor\<close>

text \<open>
  \<open>pollfn fd k\<close> are the events \<^verbatim>\<open>poll\<close> reports for a descriptor: an \<^verbatim>\<open>eventfd\<close> is readable when its
  counter is not zero.
\<close>

definition poll_fd_ok :: "(int \<Rightarrow> 'k \<Rightarrow> nat) \<Rightarrow> nat \<Rightarrow> 'k event_model \<Rightarrow> bool" where
  "poll_fd_ok pollfn pollin EM \<longleftrightarrow>
     (\<forall>k fd. ev_open EM k fd \<longrightarrow> pollfn fd k = (if 0 < ev_count EM k fd then pollin else 0))"

definition polls ::
    "(int \<Rightarrow> 'k \<Rightarrow> nat) \<Rightarrow> nat \<Rightarrow> int \<Rightarrow> ('x, 'k) ghost \<Rightarrow> ('x, 'k) sys \<Rightarrow> bool" where
  "polls pollfn pollin fd G s \<longleftrightarrow>
     0 < pollin \<and> poll_fd_ok pollfn pollin (g_event G) \<and> g_held G = None \<and> g_out G \<noteq> [] \<and> \<not> g_waited G \<and>
     (\<exists>e. cq_event (cq s) = Some e \<and> read_fd e = fd)"

lemma polls_sched [simp]: "polls pollfn pollin fd G (s\<lparr>sched := sc\<rparr>) \<longleftrightarrow> polls pollfn pollin fd G s"
  by (simp add: polls_def)

interpretation fd_wait: worker_wait E "\<lambda>s. winv E G s \<and> polls pollfn pollin fd G s"
    "\<lambda>s. pollfn fd (kern s) \<noteq> 0" for E G pollfn pollin fd
proof
  fix s i assume s: "winv E G s \<and> polls pollfn pollin fd G s"
  then have "polls pollfn pollin fd G s'" if "caller_eq s s'" for s' using that by (auto simp: polls_def caller_eq_def)
  then show "ensures (worker_thread E i s) (\<lambda>s'. (winv E G s' \<and> polls pollfn pollin fd G s') \<and> caller_eq s s' \<and>
      (i < length (threads s) \<and> runnable (threads s ! i) \<longrightarrow> work_left s' < work_left s))"
    using wk.step [of E G s i] s by (auto elim!: ensures_mono)
next
  fix s assume s: "winv E G s \<and> polls pollfn pollin fd G s" "\<not> pollfn fd (kern s) \<noteq> 0"
  show "\<exists>i < length (threads s). runnable (threads s ! i)"
  proof (rule ccontr)
    assume "\<not> (\<exists>i < length (threads s). runnable (threads s ! i))"
    then have idle: "\<forall>t\<in>set (threads s). \<not> runnable t" by (auto simp: in_set_conv_nth)
    have inv: "winv E G s" and p: "poll_fd_ok pollfn pollin (g_event G)" "g_held G = None" "g_out G \<noteq> []"
        "\<not> g_waited G" "0 < pollin" "\<exists>e. cq_event (cq s) = Some e \<and> read_fd e = fd"
      using s(1) by (simp_all add: polls_def)
    obtain e where e: "cq_event (cq s) = Some e" "event_ready (g_event G) e (kern s)"
      using idle_delivered(2) [OF inv p(2) idle p(3,4)] by blast
    have "0 < queue_depth (config s)" using winvD(9) [OF inv] p(3) by (cases "g_out G") (auto simp: cq_inv_def)
    then have "event_opened (g_event G) e (kern s)" using winvD(10) [OF inv] e(1) by (auto simp: event_inv_def)
    then have "pollfn fd (kern s) = pollin"
      using p(1,6) e by (auto simp: poll_fd_ok_def event_opened_def event_ready_def)
    with s(2) p(5) show False by simp
  qed
qed simp_all

text \<open>While an update is outstanding, waiting for the descriptor ends.\<close>

lemma session_fd_wait:
  assumes s: "session E opts m0 k0 sc m out False s" and env: "env_ok E M EM opts k0" "opts_ok opts"
    and out: "out \<noteq> []" and fd: "cq_event (cq s) = Some e" "read_fd e = fd"
    and poll: "poll_fd_ok pollfn pollin EM" "0 < pollin"
  shows "\<exists>s'. wait_until E (\<lambda>s. pollfn fd (kern s) \<noteq> 0) s = Some s' \<and> pollfn fd (kern s') \<noteq> 0 \<and>
    session E opts m0 k0 sc m out False s' \<and> caller_eq s s' \<and> wakeups EM s' \<le> wakeups EM s"
proof -
  obtain L where w: "winv E ((session_ghost M EM out False)\<lparr>g_log := L\<rparr>) s" using session_winv [OF s env] .
  have "polls pollfn pollin fd ((session_ghost M EM out False)\<lparr>g_log := L\<rparr>) s"
    using out fd poll by (simp add: polls_def)
  with fd_wait.wait_until_ends [where G = "(session_ghost M EM out False)\<lparr>g_log := L\<rparr>" and E = E and s = s
      and pollfn = pollfn and pollin = pollin and fd = fd] w
  obtain s' where s': "wait_until E (\<lambda>s. pollfn fd (kern s) \<noteq> 0) s = Some s'" "caller_eq s s'"
      "pollfn fd (kern s') \<noteq> 0"
    by (auto elim!: ensuresE)
  from session_wait_until [OF s s'(1)] wait_until_wakeups [OF w s'(1), of EM] s' show ?thesis by blast
qed

lemma session_yields:
  assumes s: "session E opts m0 k0 sc m out w s" and env: "env_ok E M EM opts k0" "opts_ok opts"
  shows "\<exists>s'. yield E s = Some s' \<and> session E opts m0 k0 sc m out w s' \<and> caller_eq s s' \<and>
    wakeups EM s' \<le> wakeups EM s"
proof -
  obtain L where w: "winv E ((session_ghost M EM out w)\<lparr>g_log := L\<rparr>) s" using session_winv [OF s env] .
  obtain s' where s': "yield E s = Some s'" "caller_eq s s'"
    using yield_ok [OF w] by (auto simp: step_ok_def elim!: ensuresE)
  from session_yield [OF s s'(1)] yield_wakeups [OF w s'(1), of EM] s' show ?thesis by blast
qed

text \<open>Reading the descriptor when it is readable, and asking for completions afterwards.\<close>

lemma session_read_fd:
  assumes s: "session E opts m0 k0 sc m out w s" and env: "env_ok E M EM opts k0" "opts_ok opts"
    and qd: "0 < o_queue_depth opts" and n: "8 \<le> n" and e: "cq_event (cq s) = Some e"
    and ready: "event_ready EM e (kern s)"
  shows "\<exists>data k. read_retry (host E) (read_fd e) n (kern s) = Some (Inr data, k) \<and> length data = 8 \<and>
    session E opts m0 k0 sc m out True (s\<lparr>kern := k\<rparr>) \<and> wakeups EM (s\<lparr>kern := k\<rparr>) < wakeups EM s"
proof -
  obtain L where w: "winv E ((session_ghost M EM out w)\<lparr>g_log := L\<rparr>) s" using session_winv [OF s env] .
  have qd': "0 < queue_depth (config s)" using session_hinv(5) [OF s env] qd by simp
  obtain data k where k: "read_retry (host E) (read_fd e) n (kern s) = Some (Inr data, k)" "length data = 8"
      "\<not> event_ready EM e k"
    using winv_read_fd [OF w qd' n] e ready by (auto split: if_splits)
  have "wakeups EM (s\<lparr>kern := k\<rparr>) < wakeups EM s"
    using k(3) e ready by (simp add: wakeups_def fd_ready_def work_left_def)
  with session.read_fd [OF s e qd' n k(1)] k show ?thesis by blast
qed

lemma session_completions_wakeups:
  assumes s: "session E opts m0 k0 sc m out w s" and env: "env_ok E M EM opts k0" "opts_ok opts"
    and res: "blkhash_aio_completions E cnt s = Some (r, [], s')" "0 < cnt"
  shows "wakeups EM s' \<le> wakeups EM s"
proof -
  obtain L where w: "winv E ((session_ghost M EM out w)\<lparr>g_log := L\<rparr>) s" using session_winv [OF s env] .
  from completions_wakeups [OF w res] show ?thesis .
qed

end
