(* ===== verification/NbdSrc.thy ===== *)
theory NbdSrc
  imports Sources
begin

text \<open>
  The source that reads from an NBD server, \<^verbatim>\<open>bin/nbd-src.c\<close>. The functions of \<^verbatim>\<open>libnbd\<close> are
  parameters over the state of a handle; a function that only tells whether it worked returns
  \<open>True\<close> when it did.
\<close>

section \<open>The library and poll\<close>

record 'n nbd_host =
  nbd_create :: "'n \<Rightarrow> bool \<times> 'n"
  nbd_have_pread_initialize :: bool
  nbd_set_pread_initialize :: "'n \<Rightarrow> bool \<times> 'n"
  nbd_add_meta_context :: "'n \<Rightarrow> bool \<times> 'n"
  nbd_connect_uri :: "string \<Rightarrow> 'n \<Rightarrow> bool \<times> 'n"
  nbd_get_size :: "'n \<Rightarrow> int"
  nbd_can_meta_context :: "'n \<Rightarrow> int"
  nbd_pread :: "nat \<Rightarrow> nat \<Rightarrow> 'n \<Rightarrow> bytes option \<times> 'n"
  nbd_block_status :: "nat \<Rightarrow> nat \<Rightarrow> 'n \<Rightarrow> bool \<times> (string \<times> nat list \<times> int) list \<times> 'n"
  nbd_aio_pread :: "nat \<Rightarrow> nat \<Rightarrow> nat \<Rightarrow> 'n \<Rightarrow> bool \<times> 'n"
  nbd_aio_in_flight :: "'n \<Rightarrow> nat"
  nbd_aio_get_fd :: "'n \<Rightarrow> int"
  nbd_aio_get_direction :: "'n \<Rightarrow> nat"
  nbd_aio_notify_read :: "'n \<Rightarrow> int \<times> (nat \<times> bytes \<times> int) list \<times> 'n"
  nbd_aio_notify_write :: "'n \<Rightarrow> int \<times> (nat \<times> bytes \<times> int) list \<times> 'n"

definition POLLIN :: nat where "POLLIN = 1"
definition POLLOUT :: nat where "POLLOUT = 4"
definition POLLERR :: nat where "POLLERR = 8"
definition POLLHUP :: nat where "POLLHUP = 16"
definition POLLNVAL :: nat where "POLLNVAL = 32"

lemmas poll_defs = POLLIN_def POLLOUT_def POLLERR_def POLLHUP_def POLLNVAL_def

record pollfd =
  pfd_fd :: int
  pfd_events :: nat
  pfd_revents :: nat

section \<open>Opening and reading\<close>

definition open_nbd :: "'n nbd_host \<Rightarrow> string \<Rightarrow> bool \<Rightarrow> 'n \<Rightarrow> src outcome \<times> 'n" where
  "open_nbd K uri calloc_ok h =
     (case nbd_create K h of (ok, h) \<Rightarrow> if \<not> ok then (Inl (), h) else
      case (if nbd_have_pread_initialize K then nbd_set_pread_initialize K h else (True, h)) of
        (ok, h) \<Rightarrow> if \<not> ok then (Inl (), h) else
      case nbd_add_meta_context K h of (ok, h) \<Rightarrow> if \<not> ok then (Inl (), h) else
      case nbd_connect_uri K uri h of (ok, h) \<Rightarrow> if \<not> ok \<or> \<not> calloc_ok then (Inl (), h) else
        (Inr \<lparr>src_uri = uri, src_size = nbd_get_size K h,
              src_can_extents = (nbd_can_meta_context K h > 0), src_fd = - 1\<rparr>, h))"

definition nbd_ops_pread ::
    "'n nbd_host \<Rightarrow> src \<Rightarrow> nat \<Rightarrow> nat \<Rightarrow> 'n \<Rightarrow> bytes outcome \<times> 'n" where
  "nbd_ops_pread K s len off h =
     (if int off + int len > src_size s then (Inl (), h)
      else case nbd_pread K len off h of
             (None, h) \<Rightarrow> (Inl (), h)
           | (Some data, h) \<Rightarrow> (Inr data, h))"

text \<open>An asynchronous read of a command.\<close>

definition nbd_ops_aio_pread ::
    "'n nbd_host \<Rightarrow> src \<Rightarrow> nat \<Rightarrow> nat \<Rightarrow> nat \<Rightarrow> 'n \<Rightarrow> unit outcome \<times> 'n" where
  "nbd_ops_aio_pread K s len off cmd h =
     (if int off + int len > src_size s then (Inl (), h)
      else case nbd_aio_pread K len off cmd h of (ok, h) \<Rightarrow> (if ok then Inr () else Inl (), h))"

section \<open>Extents\<close>

record extent_request =
  r_extents :: "extent list"
  r_count :: nat
  r_completed :: bool

definition LIBNBD_STATE_ZERO :: nat where
  "LIBNBD_STATE_ZERO = 2"

fun store_extents :: "nat list \<Rightarrow> nat \<Rightarrow> extent list \<Rightarrow> extent list" where
  "store_extents entries 0 es = es"
| "store_extents entries (Suc n) es =
     (store_extents entries n es)[n := \<lparr>e_length = entries ! (n * 2),
        e_zero = (entries ! (n * 2 + 1) AND LIBNBD_STATE_ZERO \<noteq> 0)\<rparr>]"

definition extent_callback ::
    "string \<Rightarrow> nat list \<Rightarrow> int \<Rightarrow> extent_request \<Rightarrow> extent_request" where
  "extent_callback metacontext entries err r =
     (let count = min (length entries div 2) (r_count r)
      in if metacontext \<noteq> ''base:allocation'' then r
         else if err \<noteq> 0 then r
         else r\<lparr>r_extents := store_extents entries count (r_extents r), r_count := count,
                r_completed := True\<rparr>)"

definition nbd_ops_extents ::
    "'n nbd_host \<Rightarrow> src \<Rightarrow> nat \<Rightarrow> nat \<Rightarrow> extent list \<Rightarrow> nat \<Rightarrow> 'n \<Rightarrow>
     int \<times> src \<times> extent list \<times> nat \<times> 'n" where
  "nbd_ops_extents K s off len es count h =
     (if \<not> src_can_extents s then (- 1, s, es, count, h)
      else
        (case nbd_block_status K len off h of
           (fails, calls, h) \<Rightarrow>
             (let r = fold (\<lambda>(ctx, entries, err). extent_callback ctx entries err) calls
                        \<lparr>r_extents = es, r_count = count, r_completed = False\<rparr>
              in if fails then (- 1, s\<lparr>src_can_extents := False\<rparr>, r_extents r, count, h)
                 else if \<not> r_completed r then (- 1, s, r_extents r, count, h)
                 else (0, s, r_extents r, r_count r, h))))"

section \<open>Polling\<close>

definition nbd_ops_aio_prepare :: "'n nbd_host \<Rightarrow> 'n \<Rightarrow> pollfd \<Rightarrow> int \<times> pollfd" where
  "nbd_ops_aio_prepare K h pfd =
     (if nbd_aio_in_flight K h = 0 then (0, pfd\<lparr>pfd_fd := - 1\<rparr>)
      else
        (let pfd = pfd\<lparr>pfd_fd := nbd_aio_get_fd K h\<rparr>;
             dir = nbd_aio_get_direction K h
         in if dir = 1 then (0, pfd\<lparr>pfd_events := POLLIN\<rparr>)
            else if dir = 2 then (0, pfd\<lparr>pfd_events := POLLOUT\<rparr>)
            else if dir = 3 then (0, pfd\<lparr>pfd_events := POLLIN OR POLLOUT\<rparr>)
            else (- 1, pfd)))"

text \<open>It returns the commands whose completion callback was called, with the data and the error.\<close>

definition nbd_ops_aio_notify ::
    "'n nbd_host \<Rightarrow> 'n \<Rightarrow> pollfd \<Rightarrow> int \<times> (nat \<times> bytes \<times> int) list \<times> 'n" where
  "nbd_ops_aio_notify K h pfd =
     (if pfd_revents pfd AND (POLLIN OR POLLHUP) \<noteq> 0 then nbd_aio_notify_read K h
      else if pfd_revents pfd AND POLLOUT \<noteq> 0 then nbd_aio_notify_write K h
      else if pfd_revents pfd AND (POLLERR OR POLLNVAL) \<noteq> 0 then (- 1, [], h)
      else (0, [], h))"

text \<open>The dispatch of \<^verbatim>\<open>src_aio_prepare\<close>, for a source with and without the operation.\<close>

definition src_aio_prepare :: "(pollfd \<Rightarrow> int \<times> pollfd) option \<Rightarrow> pollfd \<Rightarrow> int \<times> pollfd" where
  "src_aio_prepare prepare pfd =
     (case prepare of Some f \<Rightarrow> f pfd | None \<Rightarrow> (0, pfd\<lparr>pfd_fd := - 1\<rparr>))"

section \<open>Properties of the extents\<close>

lemma length_store_extents [simp]: "length (store_extents entries n es) = length es"
  by (induction n) simp_all

lemma nth_store_extents:
  "n \<le> length es \<Longrightarrow> i < length es \<Longrightarrow> store_extents entries n es ! i =
     (if i < n then \<lparr>e_length = entries ! (i * 2), e_zero = (entries ! (i * 2 + 1) AND LIBNBD_STATE_ZERO \<noteq> 0)\<rparr>
      else es ! i)"
  by (induction n) (auto simp: nth_list_update less_Suc_eq)

text \<open>Every call of the callback keeps the array and never raises the number of extents.\<close>

lemma extent_callback_bounds:
  "length (r_extents (extent_callback ctx entries err r)) = length (r_extents r) \<and>
   r_count (extent_callback ctx entries err r) \<le> r_count r"
  by (simp add: extent_callback_def Let_def)

lemma extent_callbacks_bounds:
  "length (r_extents (fold (\<lambda>(ctx, entries, err). extent_callback ctx entries err) calls r)) = length (r_extents r) \<and>
   r_count (fold (\<lambda>(ctx, entries, err). extent_callback ctx entries err) calls r) \<le> r_count r"
proof (induction calls arbitrary: r)
  case (Cons c calls)
  obtain ctx entries err where c: "c = (ctx, entries, err)" by (cases c) auto
  have "length (r_extents (extent_callback ctx entries err r)) = length (r_extents r)"
      "r_count (extent_callback ctx entries err r) \<le> r_count r"
    using extent_callback_bounds by blast+
  with Cons.IH [of "extent_callback ctx entries err r"] show ?case unfolding c by simp
qed simp



text \<open>A server that describes an image with 4096 bytes of data and 8192 bytes of zeros.\<close>

definition sample_nbd :: "unit nbd_host" where
  "sample_nbd =
     \<lparr>nbd_create = (\<lambda>h. (True, h)), nbd_have_pread_initialize = True, nbd_set_pread_initialize = (\<lambda>h. (True, h)),
      nbd_add_meta_context = (\<lambda>h. (True, h)), nbd_connect_uri = (\<lambda>_ h. (True, h)), nbd_get_size = (\<lambda>_. 12288),
      nbd_can_meta_context = (\<lambda>_. 1), nbd_pread = (\<lambda>n _ h. (Some (zeros n), h)),
      nbd_block_status = (\<lambda>_ _ h. (False, [(''base:allocation'', [4096, 0, 8192, 3], 0)], h)),
      nbd_aio_pread = (\<lambda>_ _ _ h. (True, h)), nbd_aio_in_flight = (\<lambda>_. 0), nbd_aio_get_fd = (\<lambda>_. 3),
      nbd_aio_get_direction = (\<lambda>_. 1), nbd_aio_notify_read = (\<lambda>h. (0, [], h)),
      nbd_aio_notify_write = (\<lambda>h. (0, [], h))\<rparr>"

definition sample_nbd_src :: src where
  "sample_nbd_src = \<lparr>src_uri = ''nbd://localhost'', src_size = 12288, src_can_extents = True, src_fd = - 1\<rparr>"



end
