(* ===== verification/ImageSource.thy ===== *)
theory ImageSource
  imports NbdSrc "HOL-Library.Multiset"
begin

text \<open>
  The asynchronous interface of an image source, \<^verbatim>\<open>struct src_ops\<close> of \<^verbatim>\<open>bin/src.h\<close>, its contract, and
  the two sources that implement it: a file, which reads while the call is made, and an NBD server.
  A completed read is the command, the bytes that were read and the error its callback gets.
\<close>

section \<open>The operations\<close>

type_synonym completed_read = "nat \<times> bytes \<times> int"

record 'n image_ops =
  io_aio_pread :: "src \<Rightarrow> nat \<Rightarrow> nat \<Rightarrow> nat \<Rightarrow> 'n \<Rightarrow> (completed_read list outcome \<times> 'n) option"
  io_aio_prepare :: "('n \<Rightarrow> pollfd \<Rightarrow> int \<times> pollfd) option"
  io_aio_notify :: "('n \<Rightarrow> pollfd \<Rightarrow> int \<times> completed_read list \<times> 'n) option"
  io_extents :: "(src \<Rightarrow> nat \<Rightarrow> nat \<Rightarrow> extent list \<Rightarrow> nat \<Rightarrow> 'n \<Rightarrow> int \<times> src \<times> extent list \<times> nat \<times> 'n) option"

text \<open>The source calls the callback before \<^verbatim>\<open>file_ops_aio_pread\<close> returns.\<close>

definition file_ops_aio_pread ::
    "'f file_host \<Rightarrow> src \<Rightarrow> nat \<Rightarrow> nat \<Rightarrow> nat \<Rightarrow> 'f \<Rightarrow> (completed_read list outcome \<times> 'f) option" where
  "file_ops_aio_pread K s len off cmd f = do {
     (r, f) \<leftarrow> file_ops_pread K s len off f;
     Some (map_sum id (\<lambda>data. [(cmd, data, 0)]) r, f)
   }"

definition file_ops :: "'f file_host \<Rightarrow> 'f image_ops" where
  "file_ops K =
     \<lparr>io_aio_pread = file_ops_aio_pread K, io_aio_prepare = None, io_aio_notify = None, io_extents = None\<rparr>"

definition nbd_ops :: "'n nbd_host \<Rightarrow> 'n image_ops" where
  "nbd_ops K =
     \<lparr>io_aio_pread = (\<lambda>s len off cmd h. Some (apfst (map_sum id (\<lambda>_. [])) (nbd_ops_aio_pread K s len off cmd h))),
      io_aio_prepare = Some (nbd_ops_aio_prepare K), io_aio_notify = Some (nbd_ops_aio_notify K),
      io_extents = Some (nbd_ops_extents K)\<rparr>"

text \<open>Calls through the table of operations; calling an operation that is not there has no result.\<close>

definition image_prepare :: "'n image_ops \<Rightarrow> 'n \<Rightarrow> pollfd \<Rightarrow> int \<times> pollfd" where
  "image_prepare O1 n pfd = src_aio_prepare (map_option (\<lambda>f. f n) (io_aio_prepare O1)) pfd"

definition image_extents ::
    "'n image_ops \<Rightarrow> src \<Rightarrow> nat \<Rightarrow> nat \<Rightarrow> extent list \<Rightarrow> nat \<Rightarrow> 'n \<Rightarrow> (src \<times> extent list \<times> nat \<times> 'n) option" where
  "image_extents O1 s off len es cnt n = do {
     f \<leftarrow> (if src_can_extents s then io_extents O1 else Some (\<lambda>s off len es cnt n. (- 1, s, es, cnt, n)));
     Some (src_extents f s off len es cnt n)
   }"

section \<open>The contract\<close>

text \<open>The reads \<open>R\<close> that were in flight are completed by \<open>done\<close> with the bytes of the image, or still in flight.\<close>

definition served ::
    "bytes \<Rightarrow> (nat \<times> nat \<times> nat) multiset \<Rightarrow> completed_read list \<Rightarrow> (nat \<times> nat \<times> nat) multiset \<Rightarrow> bool" where
  "served img R done1 R' \<longleftrightarrow>
     (\<exists>ds. R = mset ds + R' \<and> done1 = map (\<lambda>(c, off, len). (c, take len (drop off img), 0)) ds)"

text \<open>Extents describe the image from an offset on; a zero extent has only zeros.\<close>

fun extents_ok :: "bytes \<Rightarrow> nat \<Rightarrow> extent list \<Rightarrow> bool" where
  "extents_ok img off [] \<longleftrightarrow> True"
| "extents_ok img off (e # es) \<longleftrightarrow>
     0 < e_length e \<and> off + e_length e \<le> length img \<and>
     (e_zero e \<longrightarrow> take (e_length e) (drop off img) = zeros (e_length e)) \<and>
     extents_ok img (off + e_length e) es"

lemma extents_ok_take: "extents_ok img off es \<Longrightarrow> extents_ok img off (take n es)"
  by (induction es arbitrary: off n) (auto simp: take_Cons split: nat.split)

text \<open>
  \<open>poll\<close> is \<^verbatim>\<open>poll\<close> as far as the descriptor of the source is concerned: the events when it returns, 0 when
  another descriptor ended it. Its argument says whether another one can. \<open>reads\<close> are the reads
  in flight, as command, offset and length; \<open>work\<close> bounds what the source still does on its own.
\<close>

locale image_source =
  fixes ops :: "'h \<Rightarrow> 'n image_ops"
    and poll :: "'h \<Rightarrow> bool \<Rightarrow> pollfd \<Rightarrow> 'n \<Rightarrow> (int + nat) \<times> 'n"
    and ok :: "'h \<Rightarrow> 'm \<Rightarrow> bool"
    and image :: "'m \<Rightarrow> bytes"
    and inv :: "'m \<Rightarrow> src \<Rightarrow> 'n \<Rightarrow> bool"
    and reads :: "'m \<Rightarrow> 'n \<Rightarrow> (nat \<times> nat \<times> nat) multiset"
    and work :: "'m \<Rightarrow> 'n \<Rightarrow> nat"
  assumes read:
      "ok K M \<Longrightarrow> inv M s n \<Longrightarrow> off + len \<le> length (image M) \<Longrightarrow>
       ensures (io_aio_pread (ops K) s len off c n) (\<lambda>(r, n'). \<exists>done1. r = Inr done1 \<and> inv M s n' \<and>
         served (image M) (add_mset (c, off, len) (reads M n)) done1 (reads M n'))"
    and prepare: "ok K M \<Longrightarrow> inv M s n \<Longrightarrow> fst (image_prepare (ops K) n pfd) = 0"
    and interrupted:
      "ok K M \<Longrightarrow> inv M s n \<Longrightarrow> poll K others (snd (image_prepare (ops K) n pfd)) n = (Inl err, n') \<Longrightarrow>
       err = EINTR \<and> inv M s n' \<and> reads M n' = reads M n \<and> work M n' < work M n \<and>
       image_prepare (ops K) n' pfd = image_prepare (ops K) n pfd"
    and polled:
      "ok K M \<Longrightarrow> inv M s n \<Longrightarrow> poll K others (snd (image_prepare (ops K) n pfd)) n = (Inr revs, n') \<Longrightarrow>
       inv M s n' \<and> reads M n' = reads M n \<and> work M n' \<le> work M n \<and>
       (revs = 0 \<longrightarrow> others \<or> reads M n = {#})"
    and notified:
      "ok K M \<Longrightarrow> inv M s n \<Longrightarrow> poll K others (snd (image_prepare (ops K) n pfd)) n = (Inr revs, n') \<Longrightarrow> revs \<noteq> 0 \<Longrightarrow>
       \<exists>notify done1 n''. io_aio_notify (ops K) = Some notify \<and>
         notify n' (snd (image_prepare (ops K) n pfd)\<lparr>pfd_revents := revs\<rparr>) = (0, done1, n'') \<and>
         inv M s n'' \<and> served (image M) (reads M n) done1 (reads M n'') \<and> work M n'' < work M n"
    and extents:
      "ok K M \<Longrightarrow> inv M s n \<Longrightarrow> 0 < len \<Longrightarrow> len < 2 ^ 32 \<Longrightarrow> off + len \<le> length (image M) \<Longrightarrow>
       length es = cnt \<Longrightarrow> 0 < cnt \<Longrightarrow>
       ensures (image_extents (ops K) s off len es cnt n) (\<lambda>(s', es', cnt', n').
         inv M s' n' \<and> reads M n' = reads M n \<and> length es' = cnt \<and> 0 < cnt' \<and> cnt' \<le> cnt \<and>
         extents_ok (image M) off (take cnt' es'))"

section \<open>A file\<close>

text \<open>
  \<^verbatim>\<open>pread\<close> behaves as documented for the descriptor of the file, whose contents do not change; \<^verbatim>\<open>poll\<close>
  ignores a negative descriptor and is interrupted finitely often.
\<close>

record 'f file_source =
  fs_model :: "'f file_model"
  fs_fd :: int
  fs_image :: bytes
  fs_intr :: "'f \<Rightarrow> nat"

definition file_source_ok ::
    "'f file_host \<times> (bool \<Rightarrow> pollfd \<Rightarrow> 'f \<Rightarrow> (int + nat) \<times> 'f) \<Rightarrow> 'f file_source \<Rightarrow> bool" where
  "file_source_ok K M \<longleftrightarrow>
     pread_ok (fst K) (fs_model M) (fs_fd M) \<and>
     (\<forall>others pfd f r f'. pfd_fd pfd < 0 \<longrightarrow> snd K others pfd f = (r, f') \<longrightarrow>
        fm_content (fs_model M) f' = fm_content (fs_model M) f \<and>
        (case r of Inl err \<Rightarrow> err = EINTR \<and> fs_intr M f' < fs_intr M f | Inr revs \<Rightarrow> revs = 0 \<and> fs_intr M f' \<le> fs_intr M f))"

definition file_source_inv :: "'f file_source \<Rightarrow> src \<Rightarrow> 'f \<Rightarrow> bool" where
  "file_source_inv M s f \<longleftrightarrow>
     src_fd s = fs_fd M \<and> \<not> src_can_extents s \<and> src_size s = int (length (fs_image M)) \<and>
     fm_content (fs_model M) f = fs_image M"

lemma file_prepare: "image_prepare (file_ops K) n pfd = (0, pfd\<lparr>pfd_fd := - 1\<rparr>)"
  by (simp add: image_prepare_def file_ops_def src_aio_prepare_def)

lemma file_polled:
  assumes "file_source_ok K M" and "snd K others (snd (image_prepare (file_ops (fst K)) n pfd)) n = (r, n')"
  shows "fm_content (fs_model M) n' = fm_content (fs_model M) n"
    and "case r of Inl err \<Rightarrow> err = EINTR \<and> fs_intr M n' < fs_intr M n | Inr revs \<Rightarrow> revs = 0 \<and> fs_intr M n' \<le> fs_intr M n"
proof -
  have "snd K others (pfd\<lparr>pfd_fd := - 1\<rparr>) n = (r, n')" using assms(2) by (simp add: file_prepare)
  moreover have "pfd_fd (pfd\<lparr>pfd_fd := - 1\<rparr>) < 0" by simp
  ultimately show "fm_content (fs_model M) n' = fm_content (fs_model M) n"
    and "case r of Inl err \<Rightarrow> err = EINTR \<and> fs_intr M n' < fs_intr M n | Inr revs \<Rightarrow> revs = 0 \<and> fs_intr M n' \<le> fs_intr M n"
    using assms(1) unfolding file_source_ok_def by blast+
qed

lemma file_read:
  assumes "file_source_ok K M" and "file_source_inv M s n" and "off + len \<le> length (fs_image M)"
  shows "ensures (file_ops_aio_pread (fst K) s len off c n) (\<lambda>(r, n'). \<exists>done1. r = Inr done1 \<and>
    file_source_inv M s n' \<and> served (fs_image M) {#(c, off, len)#} done1 {#})"
proof -
  let ?F = "fs_model M"
  have F: "pread_ok (fst K) ?F (src_fd s)" and I: "fm_content ?F n = fs_image M" "src_size s = int (length (fs_image M))"
    using assms(1,2) by (simp_all add: file_source_ok_def file_source_inv_def)
  obtain n' where n': "file_ops_pread (fst K) s len off n = Some (Inr (take len (drop off (fs_image M))), n')"
      "fm_content ?F n' = fs_image M"
    using file_read_loop_ok [OF F, of "[]" off n len] assms(3) I by (auto simp: file_ops_pread_def)
  have "served (fs_image M) {#(c, off, len)#} [(c, take len (drop off (fs_image M)), 0)] {#}"
    unfolding served_def by (intro exI [of _ "[(c, off, len)]"]) simp
  with n' assms(2) show ?thesis by (simp add: file_ops_aio_pread_def file_source_inv_def)
qed

interpretation file_src: image_source "\<lambda>K. file_ops (fst K)" snd file_source_ok fs_image file_source_inv "\<lambda>_ _. {#}" fs_intr
proof unfold_locales
  fix K :: "'a file_host \<times> (bool \<Rightarrow> pollfd \<Rightarrow> 'a \<Rightarrow> (int + nat) \<times> 'a)" and M s n
  assume K: "file_source_ok K M" and I: "file_source_inv M s n"
  show "fst (image_prepare (file_ops (fst K)) n pfd) = 0" for pfd by (simp add: file_prepare)
  show "ensures (io_aio_pread (file_ops (fst K)) s len off c n) (\<lambda>(r, n'). \<exists>done1. r = Inr done1 \<and>
      file_source_inv M s n' \<and> served (fs_image M) {#(c, off, len)#} done1 {#})"
    if "off + len \<le> length (fs_image M)" for off len c
    using file_read [OF K I that] by (simp add: file_ops_def)
  show "ensures (image_extents (file_ops (fst K)) s off len es cnt n) (\<lambda>(s', es', cnt', n').
      file_source_inv M s' n' \<and> {#} = {#} \<and> length es' = cnt \<and> 0 < cnt' \<and> cnt' \<le> cnt \<and>
      extents_ok (fs_image M) off (take cnt' es'))"
    if A: "0 < len" "len < 2 ^ 32" "off + len \<le> length (fs_image M)" "length es = cnt" "0 < cnt" for off len es cnt
  proof -
    obtain e es1 where "es = e # es1" using A(4,5) by (cases es) auto
    then show ?thesis using A I by (simp add: image_extents_def src_extents_def file_source_inv_def)
  qed
qed (use file_polled in \<open>fastforce simp: file_prepare file_source_inv_def\<close>)+

section \<open>An NBD server\<close>

text \<open>
  What libnbd and the server do for a connected handle: a read command is in flight until the callback
  of the command is called with the bytes of the image; while commands are in flight, there is a
  direction to poll for; an event on the descriptor lets \<^verbatim>\<open>nbd_aio_notify_read\<close> or
  \<^verbatim>\<open>nbd_aio_notify_write\<close> make progress; block status describes the image. \<^verbatim>\<open>poll\<close> ignores a negative
  descriptor and ends when a descriptor is ready.
\<close>

record 'n nbd_model =
  nm_image :: bytes
  nm_connected :: "'n \<Rightarrow> bool"
  nm_reads :: "'n \<Rightarrow> (nat \<times> nat \<times> nat) multiset"
  nm_work :: "'n \<Rightarrow> nat"

definition notify_ok :: "'n nbd_model \<Rightarrow> ('n \<Rightarrow> int \<times> completed_read list \<times> 'n) \<Rightarrow> bool" where
  "notify_ok M notify \<longleftrightarrow>
     (\<forall>h r done1 h'. nm_connected M h \<longrightarrow> notify h = (r, done1, h') \<longrightarrow>
        r = 0 \<and> nm_connected M h' \<and> served (nm_image M) (nm_reads M h) done1 (nm_reads M h') \<and>
        nm_work M h' < nm_work M h)"

definition entries_ok :: "bytes \<Rightarrow> nat \<Rightarrow> nat list \<Rightarrow> bool" where
  "entries_ok img off entries \<longleftrightarrow>
     2 \<le> length entries \<and>
     extents_ok img off (map (\<lambda>i. \<lparr>e_length = entries ! (i * 2),
       e_zero = (entries ! (i * 2 + 1) AND LIBNBD_STATE_ZERO \<noteq> 0)\<rparr>) [0..<length entries div 2])"

definition nbd_reads_ok :: "'n nbd_host \<Rightarrow> 'n nbd_model \<Rightarrow> bool" where
  "nbd_reads_ok K M \<longleftrightarrow>
     (\<forall>h c len off ok h'. nm_connected M h \<longrightarrow> off + len \<le> length (nm_image M) \<longrightarrow>
        nbd_aio_pread K len off c h = (ok, h') \<longrightarrow>
        ok \<and> nm_connected M h' \<and> nm_reads M h' = add_mset (c, off, len) (nm_reads M h)) \<and>
     (\<forall>h. nm_connected M h \<longrightarrow> nbd_aio_in_flight K h = size (nm_reads M h) \<and> 0 \<le> nbd_aio_get_fd K h \<and>
        (nm_reads M h \<noteq> {#} \<longrightarrow> nbd_aio_get_direction K h \<in> {1, 2, 3}))"

definition nbd_status_ok :: "'n nbd_host \<Rightarrow> 'n nbd_model \<Rightarrow> bool" where
  "nbd_status_ok K M \<longleftrightarrow>
     (\<forall>h len off fails calls h'. nm_connected M h \<longrightarrow> off + len \<le> length (nm_image M) \<longrightarrow>
        nbd_block_status K len off h = (fails, calls, h') \<longrightarrow>
        nm_connected M h' \<and> nm_reads M h' = nm_reads M h \<and>
        (\<forall>(ctx, entries, err)\<in>set calls. ctx = ''base:allocation'' \<longrightarrow> err = 0 \<longrightarrow>
           entries_ok (nm_image M) off entries))"

definition nbd_poll_ok ::
    "'n nbd_host \<Rightarrow> (bool \<Rightarrow> pollfd \<Rightarrow> 'n \<Rightarrow> (int + nat) \<times> 'n) \<Rightarrow> 'n nbd_model \<Rightarrow> bool" where
  "nbd_poll_ok K poll M \<longleftrightarrow>
     (\<forall>others pfd h r h'. nm_connected M h \<longrightarrow> poll others pfd h = (r, h') \<longrightarrow>
        nm_connected M h' \<and> nm_reads M h' = nm_reads M h \<and>
        nbd_aio_get_fd K h' = nbd_aio_get_fd K h \<and> nbd_aio_get_direction K h' = nbd_aio_get_direction K h \<and>
        (case r of
           Inl err \<Rightarrow> err = EINTR \<and> nm_work M h' < nm_work M h
         | Inr revs \<Rightarrow> nm_work M h' \<le> nm_work M h \<and> (pfd_fd pfd < 0 \<longrightarrow> revs = 0) \<and>
             (0 \<le> pfd_fd pfd \<longrightarrow> revs = 0 \<longrightarrow> others) \<and>
             (revs \<noteq> 0 \<longrightarrow> revs AND (POLLIN OR POLLHUP) \<noteq> 0 \<or> revs AND POLLOUT \<noteq> 0)))"

definition nbd_source_ok ::
    "'n nbd_host \<times> (bool \<Rightarrow> pollfd \<Rightarrow> 'n \<Rightarrow> (int + nat) \<times> 'n) \<Rightarrow> 'n nbd_model \<Rightarrow> bool" where
  "nbd_source_ok K M \<longleftrightarrow>
     nbd_reads_ok (fst K) M \<and> notify_ok M (nbd_aio_notify_read (fst K)) \<and>
     notify_ok M (nbd_aio_notify_write (fst K)) \<and> nbd_status_ok (fst K) M \<and> nbd_poll_ok (fst K) (snd K) M"

definition nbd_source_inv :: "'n nbd_model \<Rightarrow> src \<Rightarrow> 'n \<Rightarrow> bool" where
  "nbd_source_inv M s h \<longleftrightarrow> src_size s = int (length (nm_image M)) \<and> nm_connected M h"

lemma nbd_pollD:
  assumes "nbd_poll_ok K poll M" and "nm_connected M h" and "poll others pfd h = (r, h')"
  shows "nm_connected M h' \<and> nm_reads M h' = nm_reads M h \<and>
    nbd_aio_get_fd K h' = nbd_aio_get_fd K h \<and> nbd_aio_get_direction K h' = nbd_aio_get_direction K h \<and>
    (case r of
       Inl err \<Rightarrow> err = EINTR \<and> nm_work M h' < nm_work M h
     | Inr revs \<Rightarrow> nm_work M h' \<le> nm_work M h \<and> (pfd_fd pfd < 0 \<longrightarrow> revs = 0) \<and>
         (0 \<le> pfd_fd pfd \<longrightarrow> revs = 0 \<longrightarrow> others) \<and>
         (revs \<noteq> 0 \<longrightarrow> revs AND (POLLIN OR POLLHUP) \<noteq> 0 \<or> revs AND POLLOUT \<noteq> 0))"
  using assms unfolding nbd_poll_ok_def by blast

lemma nbd_prepare:
  assumes "nbd_reads_ok K M" and "nm_connected M h"
  shows "fst (image_prepare (nbd_ops K) h pfd) = 0"
    and "pfd_fd (snd (image_prepare (nbd_ops K) h pfd)) < 0 \<longleftrightarrow> nm_reads M h = {#}"
proof -
  have h: "nbd_aio_in_flight K h = size (nm_reads M h)" "0 \<le> nbd_aio_get_fd K h"
      "nm_reads M h \<noteq> {#} \<Longrightarrow> nbd_aio_get_direction K h \<in> {1, 2, 3}"
    using assms unfolding nbd_reads_ok_def by blast+
  note defs = image_prepare_def nbd_ops_def src_aio_prepare_def nbd_ops_aio_prepare_def Let_def
  show "fst (image_prepare (nbd_ops K) h pfd) = 0" using h(1,3) by (cases "nm_reads M h = {#}") (auto simp: defs)
  show "pfd_fd (snd (image_prepare (nbd_ops K) h pfd)) < 0 \<longleftrightarrow> nm_reads M h = {#}"
    using h(1,2) by (simp add: defs)
qed

lemma nbd_prepare_again:
  assumes "nbd_reads_ok K M" and "nm_connected M h" and "nm_connected M h'" and "nm_reads M h' = nm_reads M h"
    and "nbd_aio_get_fd K h' = nbd_aio_get_fd K h" and "nbd_aio_get_direction K h' = nbd_aio_get_direction K h"
  shows "image_prepare (nbd_ops K) h' pfd = image_prepare (nbd_ops K) h pfd"
proof -
  have "nbd_aio_in_flight K h' = nbd_aio_in_flight K h" using assms(1-4) by (simp add: nbd_reads_ok_def)
  then show ?thesis
    using assms(5,6) by (simp add: image_prepare_def nbd_ops_def src_aio_prepare_def nbd_ops_aio_prepare_def Let_def)
qed

text \<open>The request of a caller while the callbacks of a block status command run.\<close>

definition request_ok :: "bytes \<Rightarrow> nat \<Rightarrow> nat \<Rightarrow> extent_request \<Rightarrow> bool" where
  "request_ok img off cnt r \<longleftrightarrow>
     length (r_extents r) = cnt \<and> 0 < r_count r \<and> r_count r \<le> cnt \<and>
     (r_completed r \<longrightarrow> extents_ok img off (take (r_count r) (r_extents r)))"

lemma extent_callback_ok:
  assumes r: "request_ok img off cnt r"
    and e: "ctx = ''base:allocation'' \<Longrightarrow> err = 0 \<Longrightarrow> entries_ok img off entries"
  shows "request_ok img off cnt (extent_callback ctx entries err r)"
proof (cases "ctx = ''base:allocation'' \<and> err = 0")
  case True
  let ?n = "min (length entries div 2) (r_count r)"
  let ?e = "\<lambda>i. \<lparr>e_length = entries ! (i * 2), e_zero = (entries ! (i * 2 + 1) AND LIBNBD_STATE_ZERO \<noteq> 0)\<rparr>"
  have en: "2 \<le> length entries" "extents_ok img off (map ?e [0..<length entries div 2])"
    using e True by (simp_all add: entries_ok_def)
  have eq: "take ?n (store_extents entries ?n (r_extents r)) = take ?n (map ?e [0..<length entries div 2])"
    by (rule nth_equalityI) (use r in \<open>auto simp: nth_store_extents request_ok_def\<close>)
  have "extents_ok img off (take ?n (store_extents entries ?n (r_extents r)))"
    unfolding eq by (rule extents_ok_take [OF en(2)])
  moreover have "0 < ?n" using en(1) r by (simp add: request_ok_def)
  ultimately show ?thesis using True r
    by (auto simp: extent_callback_def Let_def request_ok_def intro: min.coboundedI2)
qed (use r in \<open>auto simp: extent_callback_def Let_def\<close>)

lemma extent_callbacks_ok:
  "request_ok img off cnt r \<Longrightarrow>
   \<forall>(ctx, entries, err)\<in>set calls. ctx = ''base:allocation'' \<longrightarrow> err = 0 \<longrightarrow> entries_ok img off entries \<Longrightarrow>
   request_ok img off cnt (fold (\<lambda>(ctx, entries, err). extent_callback ctx entries err) calls r)"
proof (induction calls arbitrary: r)
  case (Cons c calls)
  obtain ctx entries err where c: "c = (ctx, entries, err)" by (cases c) auto
  have "request_ok img off cnt (extent_callback ctx entries err r)"
    by (rule extent_callback_ok [OF Cons.prems(1)]) (use Cons.prems(2) c in simp)
  from Cons.IH [OF this] Cons.prems(2) show ?case by (simp add: c)
qed simp

lemma nbd_extents:
  assumes ok: "nbd_status_ok K M" and I: "nbd_source_inv M s h" and len: "0 < len" "len < 2 ^ 32"
    and off: "off + len \<le> length (nm_image M)" and es: "length es = cnt" "0 < cnt"
  shows "ensures (image_extents (nbd_ops K) s off len es cnt h) (\<lambda>(s', es', cnt', h').
    nbd_source_inv M s' h' \<and> nm_reads M h' = nm_reads M h \<and> length es' = cnt \<and> 0 < cnt' \<and> cnt' \<le> cnt \<and>
    extents_ok (nm_image M) off (take cnt' es'))"
proof -
  have one: "extents_ok (nm_image M) off (take (Suc 0) (es'[0 := \<lparr>e_length = u32 len, e_zero = False\<rparr>]))"
    if "length es' = cnt" for es'
    using that es(2) len off by (cases es') auto
  show ?thesis
  proof (cases "src_can_extents s")
    case False
    then show ?thesis using I es one [OF es(1)] by (simp add: image_extents_def src_extents_def nbd_source_inv_def)
  next
    case True
    obtain fails calls h' where st: "nbd_block_status K len off h = (fails, calls, h')" by (metis prod_cases3)
    then have h': "nm_connected M h'" "nm_reads M h' = nm_reads M h"
        "\<forall>(ctx, entries, err)\<in>set calls. ctx = ''base:allocation'' \<longrightarrow> err = 0 \<longrightarrow> entries_ok (nm_image M) off entries"
      using ok I off unfolding nbd_status_ok_def nbd_source_inv_def by blast+
    let ?r = "fold (\<lambda>(ctx, entries, err). extent_callback ctx entries err) calls
        \<lparr>r_extents = es, r_count = cnt, r_completed = False\<rparr>"
    have r: "request_ok (nm_image M) off cnt ?r"
      by (rule extent_callbacks_ok [OF _ h'(3)]) (use es in \<open>simp add: request_ok_def\<close>)
    show ?thesis
    proof (cases "\<not> fails \<and> r_completed ?r")
      case True
      then show ?thesis using \<open>src_can_extents s\<close> st r h' I
        by (simp add: image_extents_def src_extents_def nbd_ops_def nbd_ops_extents_def nbd_source_inv_def
            request_ok_def Let_def)
    next
      case False
      have "length (r_extents ?r) = cnt" using r by (simp add: request_ok_def)
      from one [OF this] this False show ?thesis using \<open>src_can_extents s\<close> st h' I es
        by (auto simp: image_extents_def src_extents_def nbd_ops_def nbd_ops_extents_def nbd_source_inv_def Let_def)
    qed
  qed
qed

interpretation nbd_src: image_source "\<lambda>K. nbd_ops (fst K)" snd nbd_source_ok nm_image nbd_source_inv nm_reads nm_work
proof unfold_locales
  fix K :: "'a nbd_host \<times> (bool \<Rightarrow> pollfd \<Rightarrow> 'a \<Rightarrow> (int + nat) \<times> 'a)" and M s n
  assume K: "nbd_source_ok K M" and I: "nbd_source_inv M s n"
  have R: "nbd_reads_ok (fst K) M" and S: "nbd_status_ok (fst K) M" and P: "nbd_poll_ok (fst K) (snd K) M"
      and N: "notify_ok M (nbd_aio_notify_read (fst K))" "notify_ok M (nbd_aio_notify_write (fst K))"
      and C: "nm_connected M n" "src_size s = int (length (nm_image M))"
    using K I by (simp_all add: nbd_source_ok_def nbd_source_inv_def)
  show "fst (image_prepare (nbd_ops (fst K)) n pfd) = 0" for pfd by (rule nbd_prepare(1) [OF R C(1)])
  show "ensures (image_extents (nbd_ops (fst K)) s off len es cnt n) (\<lambda>(s', es', cnt', n').
      nbd_source_inv M s' n' \<and> nm_reads M n' = nm_reads M n \<and> length es' = cnt \<and> 0 < cnt' \<and> cnt' \<le> cnt \<and>
      extents_ok (nm_image M) off (take cnt' es'))"
    if "0 < len" "len < 2 ^ 32" "off + len \<le> length (nm_image M)" "length es = cnt" "0 < cnt" for off len es cnt
    by (rule nbd_extents [OF S I that])
  show "ensures (io_aio_pread (nbd_ops (fst K)) s len off c n) (\<lambda>(r, n'). \<exists>done1. r = Inr done1 \<and>
      nbd_source_inv M s n' \<and> served (nm_image M) (add_mset (c, off, len) (nm_reads M n)) done1 (nm_reads M n'))"
    if len: "off + len \<le> length (nm_image M)" for off len c
  proof -
    obtain ok n' where n': "nbd_aio_pread (fst K) len off c n = (ok, n')" by fastforce
    then have "ok" "nm_connected M n'" "nm_reads M n' = add_mset (c, off, len) (nm_reads M n)"
      using R C(1) len unfolding nbd_reads_ok_def by blast+
    then show ?thesis
      using n' len C(2) by (simp add: nbd_ops_def nbd_ops_aio_pread_def nbd_source_inv_def served_def)
  qed
  fix others pfd
  show "err = EINTR \<and> nbd_source_inv M s n' \<and> nm_reads M n' = nm_reads M n \<and> nm_work M n' < nm_work M n \<and>
      image_prepare (nbd_ops (fst K)) n' pfd = image_prepare (nbd_ops (fst K)) n pfd"
    if "snd K others (snd (image_prepare (nbd_ops (fst K)) n pfd)) n = (Inl err, n')" for err n'
  proof -
    from nbd_pollD [OF P C(1) that] have "nm_connected M n' \<and> nm_reads M n' = nm_reads M n \<and>
        nbd_aio_get_fd (fst K) n' = nbd_aio_get_fd (fst K) n \<and>
        nbd_aio_get_direction (fst K) n' = nbd_aio_get_direction (fst K) n \<and> err = EINTR \<and> nm_work M n' < nm_work M n"
      by simp
    then show ?thesis using nbd_prepare_again [OF R C(1)] C(2) by (simp add: nbd_source_inv_def)
  qed
  fix revs n' assume poll: "snd K others (snd (image_prepare (nbd_ops (fst K)) n pfd)) n = (Inr revs, n')"
  let ?pfd = "snd (image_prepare (nbd_ops (fst K)) n pfd)"
  have p: "nm_connected M n'" "nm_reads M n' = nm_reads M n" "nm_work M n' \<le> nm_work M n"
      "pfd_fd ?pfd < 0 \<longrightarrow> revs = 0" "0 \<le> pfd_fd ?pfd \<longrightarrow> revs = 0 \<longrightarrow> others"
      "revs \<noteq> 0 \<longrightarrow> revs AND (POLLIN OR POLLHUP) \<noteq> 0 \<or> revs AND POLLOUT \<noteq> 0"
    using nbd_pollD [OF P C(1) poll] by simp_all
  show "nbd_source_inv M s n' \<and> nm_reads M n' = nm_reads M n \<and> nm_work M n' \<le> nm_work M n \<and>
      (revs = 0 \<longrightarrow> others \<or> nm_reads M n = {#})"
    using p C(2) nbd_prepare(2) [OF R C(1), of pfd] by (auto simp: nbd_source_inv_def)
  assume revs: "revs \<noteq> 0"
  obtain r done1 n'' where n'': "nbd_ops_aio_notify (fst K) n' (?pfd\<lparr>pfd_revents := revs\<rparr>) = (r, done1, n'')"
    by (metis prod_cases3)
  consider "nbd_aio_notify_read (fst K) n' = (r, done1, n'')" | "nbd_aio_notify_write (fst K) n' = (r, done1, n'')"
    using n'' p(6) revs by (auto simp: nbd_ops_aio_notify_def split: if_splits)
  then have "r = 0" "nm_connected M n''" "served (nm_image M) (nm_reads M n') done1 (nm_reads M n'')"
      "nm_work M n'' < nm_work M n'"
    by (cases; use N p(1) in \<open>unfold notify_ok_def, blast\<close>)+
  then show "\<exists>notify done1 n''. io_aio_notify (nbd_ops (fst K)) = Some notify \<and>
      notify n' (?pfd\<lparr>pfd_revents := revs\<rparr>) = (0, done1, n'') \<and> nbd_source_inv M s n'' \<and>
      served (nm_image M) (nm_reads M n) done1 (nm_reads M n'') \<and> nm_work M n'' < nm_work M n"
    using n'' p(2,3) C(2)
    by (intro exI [of _ "nbd_ops_aio_notify (fst K)"] exI [of _ done1] exI [of _ n'']) (simp add: nbd_ops_def nbd_source_inv_def)
qed

end
