(* ===== verification/NbdServer.thy ===== *)
theory NbdServer
  imports Blksum Sources
begin

text \<open>
  How the tool prepares an image for reading: probing its format (\<^verbatim>\<open>bin/probe.c\<close>), choosing the options
  and running \<^verbatim>\<open>qemu-nbd\<close> (\<^verbatim>\<open>bin/nbd-server.c\<close>). What the system calls return is a parameter, or an
  element of a list of faults as for the allocations of the library.
\<close>

section \<open>Probing a file\<close>

record file_info =
  fi_format :: string
  fi_fs_name :: "string option"

definition PROBE_SIZE :: nat where
  "PROBE_SIZE = 512"

definition QCOW_MAGIC :: nat where
  "QCOW_MAGIC = 0x514649fb"

definition qcow2_header_size :: nat where
  "qcow2_header_size = 104"

text \<open>\<^verbatim>\<open>ntohl\<close> of a 32-bit field: its bytes in memory, most significant first.\<close>

definition ntohl_at :: "nat \<Rightarrow> bytes \<Rightarrow> nat" where
  "ntohl_at off buf = foldl (\<lambda>n b. n * 256 + unat b) 0 (take 4 (drop off buf))"

definition is_qcow2 :: "bytes \<Rightarrow> nat \<Rightarrow> bool" where
  "is_qcow2 buf len \<longleftrightarrow>
     len \<ge> qcow2_header_size \<and> ntohl_at 0 buf = QCOW_MAGIC \<and> ntohl_at 4 buf \<ge> 2"

text \<open>\<^verbatim>\<open>probe_format\<close>, given what \<^verbatim>\<open>read_probe\<close> read.\<close>

definition probe_format :: "bytes \<Rightarrow> file_info \<Rightarrow> file_info" where
  "probe_format data fi =
     fi\<lparr>fi_format := (if is_qcow2 (data @ zeros (PROBE_SIZE - length data)) (length data)
                      then ''qcow2'' else ''raw'')\<rparr>"

definition fs_name :: "bool \<Rightarrow> nat \<Rightarrow> string" where
  "fs_name linux f_type =
     (if linux then
        if f_type = 0x73727279 then ''btrfs''
        else if f_type = 0xef53 then ''ext4''
        else if f_type = 0x65735546 then ''fuse''
        else if f_type = 0x6969 then ''nfs''
        else if f_type = 0x01021994 then ''tmpfs''
        else if f_type = 0x58465342 then ''xfs''
        else ''other''
      else ''other'')"

text \<open>\<open>statfs\<close> is the type \<^verbatim>\<open>fstatfs\<close> returns, or nothing when it fails.\<close>

definition probe_fs_name :: "bool \<Rightarrow> nat option \<Rightarrow> file_info \<Rightarrow> file_info" where
  "probe_fs_name linux statfs fi =
     (case statfs of None \<Rightarrow> fi | Some t \<Rightarrow> fi\<lparr>fi_fs_name := Some (fs_name linux t)\<rparr>)"

definition probe_file :: "bool \<Rightarrow> bool \<Rightarrow> bytes option \<Rightarrow> nat option \<Rightarrow> file_info \<Rightarrow> file_info outcome" where
  "probe_file linux open_ok data statfs fi =
     (if \<not> open_ok then Inl ()
      else case data of
             None \<Rightarrow> Inl ()
           | Some d \<Rightarrow> Inr (probe_fs_name linux statfs (probe_format d fi)))"

section \<open>Options for the server\<close>

text \<open>\<open>direct_io\<close> is what \<^verbatim>\<open>qemu_can_use_direct_io\<close> returns.\<close>

definition optimize_for_nbd_server :: "bool \<Rightarrow> file_info \<Rightarrow> options \<Rightarrow> options" where
  "optimize_for_nbd_server direct_io fi opt =
     (if fi_fs_name fi = Some ''nfs'' then
        (let opt = (if opt_aio opt = ''native'' then opt\<lparr>opt_aio := ''threads''\<rparr> else opt)
         in if fi_format fi = ''raw'' \<and> opt_flags opt AND USER_READ_SIZE = 0 then
              (let opt = opt\<lparr>opt_read_size := 2 * 1024 * 1024\<rparr>
               in if opt_flags opt AND USER_QUEUE_DEPTH = 0 then opt\<lparr>opt_queue_depth := 4\<rparr> else opt)
            else opt)
      else
        (let opt = (if \<not> opt_cache opt \<and> \<not> direct_io then opt\<lparr>opt_cache := True\<rparr> else opt)
         in if opt_cache opt \<and> opt_aio opt = ''native'' then opt\<lparr>opt_aio := ''threads''\<rparr> else opt))"

record server_options =
  so_filename :: string
  so_format :: string
  so_aio :: string
  so_cache :: bool

definition qemu_argv :: "server_options \<Rightarrow> string list" where
  "qemu_argv so =
     [''qemu-nbd'', ''--read-only'', ''--persistent'',
      ''--cache'', if so_cache so then ''writeback'' else ''none'',
      ''--aio'', so_aio so, ''--shared'', ''0'', ''--format'', so_format so, so_filename so]"

section \<open>The environment of the server\<close>

definition is_listen_var :: "string \<Rightarrow> bool" where
  "is_listen_var e \<longleftrightarrow> take 11 e = ''LISTEN_PID='' \<or> take 11 e = ''LISTEN_FDS=''"

text \<open>The loop of \<^verbatim>\<open>create_env\<close> over the variables from index \<open>i\<close> on; \<open>None\<close> when memory runs out.\<close>

fun copy_env :: "nat \<Rightarrow> string list \<Rightarrow> string option list \<Rightarrow> bool list \<Rightarrow> string option list option \<times> bool list" where
  "copy_env i [] env fs = (Some env, fs)"
| "copy_env i (e # es) env fs =
     (if is_listen_var e then copy_env (Suc i) es env fs
      else case acquire fs of
             (False, fs) \<Rightarrow> (None, fs)
           | (True, fs) \<Rightarrow> copy_env (Suc i) es (env[i + 2 := Some e]) fs)"

definition create_env :: "string list \<Rightarrow> bool list \<Rightarrow> string option list option \<times> bool list" where
  "create_env env fs =
     (case acquire fs of (False, fs) \<Rightarrow> (None, fs) | (True, fs) \<Rightarrow>
      case acquire fs of (False, fs) \<Rightarrow> (None, fs) | (True, fs) \<Rightarrow>
      case acquire fs of (False, fs) \<Rightarrow> (None, fs) | (True, fs) \<Rightarrow>
        copy_env 0 env
          ((replicate (length env + 3) None)
             [0 := Some ''LISTEN_PID=xxxxxxxxxxxxxxxxxxxx'', 1 := Some ''LISTEN_FDS=1'']) fs)"

text \<open>The variables another program finds in such an array: those before the first \<^verbatim>\<open>NULL\<close>.\<close>

definition env_vars :: "string option list \<Rightarrow> string list" where
  "env_vars env = map the (takeWhile (\<lambda>e. e \<noteq> None) env)"

text \<open>
  \<^verbatim>\<open>snprintf(env[0] + 11, strlen(env[0]) - 11, "%d", getpid())\<close>: \<open>pid\<close> are the digits, of which at most
  19 are kept.
\<close>

definition set_listen_pid :: "string \<Rightarrow> string option list \<Rightarrow> string option list" where
  "set_listen_pid pid env =
     (case env of
        Some e # es \<Rightarrow> Some (take 11 e @ take (length e - 11 - 1) pid) # es
      | _ \<Rightarrow> env)"

text \<open>
  The descriptors of the child: what a descriptor refers to, and whether it is closed by \<^verbatim>\<open>exec\<close>. The
  listening socket becomes descriptor 3.
\<close>

definition pass_socket :: "int \<Rightarrow> (int \<rightharpoonup> 'o \<times> bool) \<Rightarrow> (int \<rightharpoonup> 'o \<times> bool)" where
  "pass_socket fd fds =
     (if fd \<noteq> 3 then (fds(3 := map_option (\<lambda>(x, _). (x, False)) (fds fd)))(fd := None)
      else fds(3 := map_option (\<lambda>(x, _). (x, False)) (fds 3)))"

definition after_exec :: "(int \<rightharpoonup> 'o \<times> bool) \<Rightarrow> (int \<rightharpoonup> 'o)" where
  "after_exec fds fd = (case fds fd of Some (x, False) \<Rightarrow> Some x | _ \<Rightarrow> None)"

section \<open>Starting and stopping the server\<close>

text \<open>
  What the tool leaves in the system: directories, sockets in the file system, open descriptors and
  child processes; \<open>os_faults\<close> says which of the next calls fail.
\<close>

record os =
  os_dirs :: "string list"
  os_socks :: "string list"
  os_open :: nat
  os_children :: nat
  os_faults :: "bool list"

record nbd_server =
  ns_tmpdir :: "string option"
  ns_sock :: "string option"
  ns_pid :: int

definition os_call :: "os \<Rightarrow> bool \<times> os" where
  "os_call o1 = (case acquire (os_faults o1) of (ok, fs) \<Rightarrow> (ok, o1\<lparr>os_faults := fs\<rparr>))"

text \<open>\<open>path\<close> is the name \<^verbatim>\<open>mkdtemp\<close> makes up.\<close>

definition create_tmpdir :: "string \<Rightarrow> nbd_server \<Rightarrow> os \<Rightarrow> nbd_server outcome \<times> os" where
  "create_tmpdir path s o1 =
     (case os_call o1 of (False, o1) \<Rightarrow> (Inl (), o1) | (True, o1) \<Rightarrow>
      case os_call o1 of (False, o1) \<Rightarrow> (Inl (), o1) | (True, o1) \<Rightarrow>
        (Inr (s\<lparr>ns_tmpdir := Some path\<rparr>), o1\<lparr>os_dirs := path # os_dirs o1\<rparr>))"

text \<open>It returns whether there is a listening socket.\<close>

definition create_listening_socket :: "nbd_server \<Rightarrow> os \<Rightarrow> bool \<times> nbd_server \<times> os" where
  "create_listening_socket s o1 =
     (case os_call o1 of (False, o1) \<Rightarrow> (False, s, o1) | (True, o1) \<Rightarrow>
      let sock = (case ns_tmpdir s of None \<Rightarrow> ''(null)'' | Some d \<Rightarrow> d) @ ''/sock'';
          failed = s\<lparr>ns_sock := None\<rparr>
      in case os_call o1 of (False, o1) \<Rightarrow> (False, failed, o1) | (True, o1) \<Rightarrow>
         case os_call o1 of (False, o1) \<Rightarrow> (False, failed, o1) | (True, o1) \<Rightarrow>
           let o1 = o1\<lparr>os_socks := sock # os_socks o1\<rparr>
           in case os_call o1 of
                (False, o1) \<Rightarrow> (False, failed, o1)
              | (True, o1) \<Rightarrow> (True, s\<lparr>ns_sock := Some sock\<rparr>, o1\<lparr>os_open := os_open o1 + 1\<rparr>))"

text \<open>\<^verbatim>\<open>rmdir\<close> fails on a directory with a socket in it.\<close>

definition remove_sock :: "nbd_server \<Rightarrow> os \<Rightarrow> bool \<times> nbd_server \<times> os" where
  "remove_sock s o1 =
     (case ns_sock s of
        None \<Rightarrow> (True, s, o1)
      | Some p \<Rightarrow>
          (case os_call o1 of
             (False, o1) \<Rightarrow> (False, s, o1)
           | (True, o1) \<Rightarrow> (True, s\<lparr>ns_sock := None\<rparr>, o1\<lparr>os_socks := remove1 p (os_socks o1)\<rparr>)))"

definition remove_tmpdir :: "nbd_server \<Rightarrow> os \<Rightarrow> nbd_server \<times> os" where
  "remove_tmpdir s o1 =
     (case remove_sock s o1 of
        (False, s, o1) \<Rightarrow> (s, o1)
      | (True, s, o1) \<Rightarrow>
          (case ns_tmpdir s of
             None \<Rightarrow> (s, o1)
           | Some d \<Rightarrow>
               (case os_call o1 of
                  (False, o1) \<Rightarrow> (s, o1)
                | (True, o1) \<Rightarrow>
                    if \<exists>p\<in>set (os_socks o1). take (Suc (length d)) p = d @ ''/'' then (s, o1)
                    else (s\<lparr>ns_tmpdir := None\<rparr>, o1\<lparr>os_dirs := remove1 d (os_dirs o1)\<rparr>))))"

text \<open>\<^verbatim>\<open>start_nbd_server\<close>: \<open>Inl ()\<close> when the tool exits, otherwise the server that runs.\<close>

definition start_nbd_server ::
    "string \<Rightarrow> string list \<Rightarrow> int \<Rightarrow> os \<Rightarrow> nbd_server outcome \<times> os" where
  "start_nbd_server path env pid o1 =
     (case os_call o1 of (False, o1) \<Rightarrow> (Inl (), o1) | (True, o1) \<Rightarrow>
      case create_tmpdir path \<lparr>ns_tmpdir = None, ns_sock = None, ns_pid = 0\<rparr> o1 of
        (Inl (), o1) \<Rightarrow> (Inl (), o1)
      | (Inr s, o1) \<Rightarrow>
      case create_listening_socket s o1 of
        (False, s, o1) \<Rightarrow> (Inl (), snd (remove_tmpdir s o1))
      | (True, s, o1) \<Rightarrow>
      case create_env env (os_faults o1) of
        (None, fs) \<Rightarrow> (Inl (), snd (remove_tmpdir s (o1\<lparr>os_faults := fs, os_open := os_open o1 - 1\<rparr>)))
      | (Some _, fs) \<Rightarrow>
      case os_call (o1\<lparr>os_faults := fs\<rparr>) of
        (False, o1) \<Rightarrow> (Inl (), snd (remove_tmpdir s (o1\<lparr>os_open := os_open o1 - 1\<rparr>)))
      | (True, o1) \<Rightarrow>
          (Inr (s\<lparr>ns_pid := pid\<rparr>), o1\<lparr>os_children := os_children o1 + 1, os_open := os_open o1 - 1\<rparr>))"

definition nbd_server_uri :: "nbd_server \<Rightarrow> string" where
  "nbd_server_uri s = ''nbd+unix:///?socket='' @ (case ns_sock s of None \<Rightarrow> ''(null)'' | Some p \<Rightarrow> p)"

definition stop_nbd_server :: "nbd_server \<Rightarrow> os \<Rightarrow> nbd_server \<times> os" where
  "stop_nbd_server s o1 = remove_tmpdir (s\<lparr>ns_pid := - 1\<rparr>) (o1\<lparr>os_children := os_children o1 - 1\<rparr>)"

section \<open>Properties\<close>

text \<open>
  C25. Starting the server gives a URI that \<^verbatim>\<open>open_src\<close> opens with NBD, and stopping it leaves the system
  as it was: no directory, no socket, no descriptor and no process stays behind.
\<close>

theorem start_stop_clean:
  assumes "os_faults o1 = []" and "\<forall>p\<in>set (os_socks o1). take (Suc (length path)) p \<noteq> path @ ''/''"
  shows "\<exists>s o2 s'. start_nbd_server path env pid o1 = (Inr s, o2) \<and> os_children o2 = os_children o1 + 1 \<and>
    is_nbd_uri (nbd_server_uri s) \<and> stop_nbd_server s o2 = (s', o1) \<and> ns_sock s' = None \<and> ns_tmpdir s' = None"
proof -
  have call: "os_call o1 = (True, o1)" if "os_faults o1 = []" for o1
    using that by (cases o1) (simp add: os_call_def)
  have env: "\<exists>e. create_env env [] = (Some e, [])"
  proof -
    have "\<exists>e'. copy_env i env e [] = (Some e', [])" for i e
      by (induction env arbitrary: i e) simp_all
    then show ?thesis by (simp add: create_env_def)
  qed
  let ?sock = "path @ ''/sock''"
  let ?s = "\<lparr>ns_tmpdir = Some path, ns_sock = Some ?sock, ns_pid = pid\<rparr>"
  let ?o2 = "o1\<lparr>os_dirs := path # os_dirs o1, os_socks := ?sock # os_socks o1, os_children := os_children o1 + 1\<rparr>"
  have start: "start_nbd_server path env pid o1 = (Inr ?s, ?o2)"
    using env assms(1)
    by (cases o1) (auto simp: start_nbd_server_def create_tmpdir_def create_listening_socket_def call Let_def)
  have "stop_nbd_server ?s ?o2 = (\<lparr>ns_tmpdir = None, ns_sock = None, ns_pid = - 1\<rparr>, o1)"
    using assms by (cases o1) (simp add: stop_nbd_server_def remove_tmpdir_def remove_sock_def call)
  moreover have "is_nbd_uri (nbd_server_uri ?s)" by (simp add: is_nbd_uri_def nbd_server_uri_def)
  ultimately show ?thesis using start by auto
qed

theorem start_stop_clean_witness:
  "\<exists>s o2 s'. start_nbd_server ''/tmp/blksum-abcdef'' [''HOME=/root''] 77
       \<lparr>os_dirs = [''/tmp''], os_socks = [''/run/sock''], os_open = 3, os_children = 0, os_faults = []\<rparr> = (Inr s, o2) \<and>
     stop_nbd_server s o2 =
       (s', \<lparr>os_dirs = [''/tmp''], os_socks = [''/run/sock''], os_open = 3, os_children = 0, os_faults = []\<rparr>)"
  using start_stop_clean [of "\<lparr>os_dirs = [''/tmp''], os_socks = [''/run/sock''], os_open = 3, os_children = 0,
      os_faults = []\<rparr>" "''/tmp/blksum-abcdef''" "[''HOME=/root'']" 77]
  by auto

text \<open>
  C35. When \<^verbatim>\<open>listen\<close> fails, the socket that \<^verbatim>\<open>bind\<close> created is forgotten before it is removed from the file
  system: its directory cannot be removed, and both stay behind when the tool exits.
\<close>

theorem failed_listen_leaves_files:
  assumes "os_faults o1 = replicate 6 False @ [True]"
  shows "\<exists>o2. start_nbd_server path env pid o1 = (Inl (), o2) \<and> path \<in> set (os_dirs o2) \<and>
    path @ ''/sock'' \<in> set (os_socks o2)"
  using assms
  by (cases o1) (simp add: start_nbd_server_def create_tmpdir_def create_listening_socket_def os_call_def
      remove_tmpdir_def remove_sock_def Let_def numeral_eq_Suc)

theorem failed_listen_leaves_files_witness:
  "\<exists>o2. start_nbd_server ''/tmp/blksum-abcdef'' [] 77
       \<lparr>os_dirs = [], os_socks = [], os_open = 3, os_children = 0, os_faults = replicate 6 False @ [True]\<rparr> = (Inl (), o2) \<and>
     ''/tmp/blksum-abcdef'' \<in> set (os_dirs o2)"
  using failed_listen_leaves_files [of "\<lparr>os_dirs = [], os_socks = [], os_open = 3, os_children = 0,
      os_faults = replicate 6 False @ [True]\<rparr>" "''/tmp/blksum-abcdef''" "[]" 77]
  by auto

text \<open>The array \<^verbatim>\<open>create_env\<close> fills, up to a variable it leaves out.\<close>

lemma copy_env_ok:
  assumes "i + length es + 3 \<le> length env" and "\<forall>e\<in>set es. \<not> is_listen_var e"
  shows "copy_env i (es @ rest) env [] =
    copy_env (i + length es) rest (take (i + 2) env @ map Some es @ drop (i + length es + 2) env) []"
  using assms
proof (induction es arbitrary: i env)
  case (Cons e es)
  let ?env = "env[i + 2 := Some e]"
  have "copy_env i ((e # es) @ rest) env [] = copy_env (Suc i) (es @ rest) ?env []" using Cons.prems by simp
  also have "\<dots> = copy_env (Suc i + length es) rest
      (take (Suc i + 2) ?env @ map Some es @ drop (Suc i + length es + 2) ?env) []"
    using Cons.prems by (intro Cons.IH) simp_all
  also have "take (Suc i + 2) ?env = take (i + 2) env @ [Some e]"
    using Cons.prems by (simp add: take_Suc_conv_app_nth)
  also have "drop (Suc i + length es + 2) ?env = drop (i + length (e # es) + 2) env"
    using Cons.prems by simp
  finally show ?case by simp
qed simp

lemma copy_env_keeps:
  "\<exists>env'. copy_env i es env [] = (Some env', []) \<and> length env' = length env \<and> take (i + 2) env' = take (i + 2) env"
proof (induction es arbitrary: i env)
  case (Cons e es)
  show ?case
  proof (cases "is_listen_var e")
    case True
    with Cons.IH [of "Suc i" env] show ?thesis by (auto dest: arg_cong [where f = "take (i + 2)"] simp: min_def)
  next
    case False
    with Cons.IH [of "Suc i" "env[i + 2 := Some e]"] show ?thesis
      by (auto dest: arg_cong [where f = "take (i + 2)"] simp: min_def)
  qed
qed simp

lemma env_vars_end: "env_vars (map Some xs @ None # r) = xs"
  by (induction xs) (simp_all add: env_vars_def)

abbreviation listen_vars :: "string list" where
  "listen_vars \<equiv> [''LISTEN_PID=xxxxxxxxxxxxxxxxxxxx'', ''LISTEN_FDS=1'']"

lemma create_env_prefix:
  assumes "\<forall>e\<in>set xs. \<not> is_listen_var e"
  shows "create_env (xs @ rest) [] =
    copy_env (length xs) rest (map Some (listen_vars @ xs) @ replicate (length rest + 1) None) []"
proof -
  let ?a = "(replicate (length (xs @ rest) + 3) None)[0 := Some (listen_vars ! 0), 1 := Some (listen_vars ! 1)]"
  have a: "?a = map Some listen_vars @ replicate (length (xs @ rest) + 1) None"
    by (simp add: numeral_3_eq_3)
  have "create_env (xs @ rest) [] = copy_env 0 (xs @ rest) ?a []" by (simp add: create_env_def)
  also have "\<dots> = copy_env (0 + length xs) rest (take (0 + 2) ?a @ map Some xs @ drop (0 + length xs + 2) ?a) []"
    using assms by (intro copy_env_ok) simp_all
  also have "take (0 + 2) ?a @ map Some xs @ drop (0 + length xs + 2) ?a =
      map Some (listen_vars @ xs) @ replicate (length rest + 1) None"
    unfolding a by (simp del: replicate_Suc)
  finally show ?thesis by simp
qed

text \<open>
  C33. The server gets the environment of the tool with the variables of socket activation in front of it,
  if these were not set before.
\<close>

theorem server_environment:
  assumes "\<forall>e\<in>set env. \<not> is_listen_var e"
  shows "\<exists>a. create_env env [] = (Some a, []) \<and> env_vars a = listen_vars @ env"
  using create_env_prefix [OF assms, of "[]"] env_vars_end [of "listen_vars @ env" "[]"] by simp

theorem server_environment_witness:
  "\<exists>a. create_env [''HOME=/root'', ''LANG=C''] [] = (Some a, []) \<and>
     env_vars a = listen_vars @ [''HOME=/root'', ''LANG=C'']"
  by (rule server_environment) (simp add: is_listen_var_def)

text \<open>
  C34. If one of these variables is already set, \<^verbatim>\<open>create_env\<close> leaves a \<^verbatim>\<open>NULL\<close> in its place, which ends the
  environment: the server gets none of the variables that follow it.
\<close>

theorem server_environment_truncated:
  assumes "\<forall>e\<in>set xs. \<not> is_listen_var e" and "is_listen_var v"
  shows "\<exists>a. create_env (xs @ v # ys) [] = (Some a, []) \<and> env_vars a = listen_vars @ xs"
proof -
  let ?a = "map Some (listen_vars @ xs) @ replicate (length (v # ys) + 1) None"
  have "create_env (xs @ v # ys) [] = copy_env (Suc (length xs)) ys ?a []"
    using create_env_prefix [OF assms(1), of "v # ys"] assms(2) by simp
  then obtain a where a: "create_env (xs @ v # ys) [] = (Some a, [])" "length a = length ?a"
      "take (Suc (length xs) + 2) a = take (Suc (length xs) + 2) ?a"
    using copy_env_keeps [of "Suc (length xs)" ys ?a] by auto
  have "take (Suc (length xs) + 2) ?a = map Some (listen_vars @ xs) @ [None]" by simp
  then have "a = map Some (listen_vars @ xs) @ None # drop (Suc (length xs) + 2) a"
    using append_take_drop_id [of "Suc (length xs) + 2" a] a(3) by (metis append.assoc append_Cons append_Nil)
  then have "env_vars a = listen_vars @ xs" using env_vars_end by metis
  then show ?thesis using a(1) by blast
qed

theorem server_environment_truncated_witness:
  "\<exists>a. create_env [''HOME=/root'', ''LISTEN_FDS=2'', ''LANG=C''] [] = (Some a, []) \<and>
     env_vars a = listen_vars @ [''HOME=/root'']"
  using server_environment_truncated [of "[''HOME=/root'']" "''LISTEN_FDS=2''" "[''LANG=C'']"]
  by (simp add: is_listen_var_def)

text \<open>The read size stays the default as long as the user does not set it.\<close>

lemma USER_READ_SIZE_or:
  "(f OR USER_CACHE) AND USER_READ_SIZE = f AND USER_READ_SIZE"
  "(f OR USER_QUEUE_DEPTH) AND USER_READ_SIZE = f AND USER_READ_SIZE"
  "(f OR USER_READ_SIZE) AND USER_READ_SIZE \<noteq> 0"
proof -
  have dist: "(a OR b) AND c = (a AND c) OR (b AND c)" for a b c :: nat
    by (rule bit_eqI) (auto simp: bit_and_iff bit_or_iff)
  show "(f OR USER_CACHE) AND USER_READ_SIZE = f AND USER_READ_SIZE"
      "(f OR USER_QUEUE_DEPTH) AND USER_READ_SIZE = f AND USER_READ_SIZE"
      "(f OR USER_READ_SIZE) AND USER_READ_SIZE \<noteq> 0"
    by (simp_all add: dist USER_CACHE_def USER_READ_SIZE_def USER_QUEUE_DEPTH_def or_eq_0_iff)
qed

lemma parse_option_read_size:
  assumes "parse_option K c opt = Some (Inr opt')"
    and "opt_flags opt AND USER_READ_SIZE = 0 \<longrightarrow> opt_read_size opt = r"
  shows "opt_flags opt' AND USER_READ_SIZE = 0 \<longrightarrow> opt_read_size opt' = r"
  using assms
  by (cases c) (auto simp: USER_READ_SIZE_or bind_eq_Some_conv Let_def split: if_splits)

lemma parse_loop_read_size:
  "parse_loop K cs opt = Some (Inr opt') \<Longrightarrow> opt_flags opt AND USER_READ_SIZE = 0 \<longrightarrow> opt_read_size opt = r \<Longrightarrow>
   opt_flags opt' AND USER_READ_SIZE = 0 \<longrightarrow> opt_read_size opt' = r"
proof (induction cs arbitrary: opt)
  case (Cons c cs)
  then show ?case
    using parse_option_read_size [of K c opt _ r] by (simp split: option.splits sum.splits)
qed simp



text \<open>
  After \<^verbatim>\<open>exec\<close> the server finds the listening socket at descriptor 3, whatever its number was before.
\<close>

lemma socket_is_descriptor_3:
  assumes "fds fd = Some (x, cloexec)"
  shows "after_exec (pass_socket fd fds) 3 = Some x \<and> (fd \<noteq> 3 \<longrightarrow> after_exec (pass_socket fd fds) fd = None)"
  using assms by (cases "fd = 3") (auto simp: pass_socket_def after_exec_def)

text \<open>Four bytes most significant first determine the number.\<close>

lemma ntohl_at_eq:
  assumes "off + 4 \<le> length buf"
  shows "ntohl_at off buf = ((unat (buf ! off) * 256 + unat (buf ! (off + 1))) * 256 + unat (buf ! (off + 2))) * 256 +
    unat (buf ! (off + 3))"
proof -
  have "take 4 (drop off buf) = [buf ! off, buf ! (off + 1), buf ! (off + 2), buf ! (off + 3)]"
    by (rule nth_equalityI) (use assms in \<open>auto simp: less_Suc_eq numeral_eq_Suc\<close>)
  then show ?thesis by (simp add: ntohl_at_def)
qed

lemma digit_unique: "(d :: nat) < 256 \<Longrightarrow> d' < 256 \<Longrightarrow> x * 256 + d = y * 256 + d' \<longleftrightarrow> x = y \<and> d = d'"
  by (auto dest: arg_cong [where f = "\<lambda>n. n div 256"] arg_cong [where f = "\<lambda>n. n mod 256"])

lemma digits_256:
  assumes "(a :: nat) < 256" "b < 256" "c < 256" "d < 256"
  shows "((a * 256 + b) * 256 + c) * 256 + d = ((0x51 * 256 + 0x46) * 256 + 0x49) * 256 + 0xfb \<longleftrightarrow>
    a = 0x51 \<and> b = 0x46 \<and> c = 0x49 \<and> d = 0xfb"
  using assms by (subst digit_unique, simp, simp, subst digit_unique, simp, simp, subst digit_unique) simp_all

text \<open>
  C31. An image is taken for qcow2 exactly if at least a full header could be read, it starts with
  \<^verbatim>\<open>QFI\xfb\<close> and the version in the next four bytes is at least 2; everything else is raw.
\<close>

theorem probe_detects_qcow2:
  assumes "length data \<le> PROBE_SIZE"
  shows "fi_format (probe_format data fi) =
    (if 104 \<le> length data \<and> take 4 data = [0x51, 0x46, 0x49, 0xfb] \<and> 2 \<le> ntohl_at 4 data then ''qcow2'' else ''raw'')"
proof (cases "104 \<le> length data")
  case True
  have b: "unat (w :: byte) < 256" for w using unsigned_less [of w] by simp
  have "take 4 data = [data ! 0, data ! 1, data ! 2, data ! 3]"
    by (rule nth_equalityI) (use True in \<open>auto simp: less_Suc_eq numeral_eq_Suc\<close>)
  moreover have "ntohl_at 0 data = 0x514649fb \<longleftrightarrow>
      data ! 0 = 0x51 \<and> data ! 1 = 0x46 \<and> data ! 2 = 0x49 \<and> data ! 3 = 0xfb"
    using True digits_256 [OF b b b b, of "data ! 0" "data ! 1" "data ! 2" "data ! 3"]
    by (simp add: ntohl_at_eq word_unat_eq_iff del: add_2_eq_Suc add_2_eq_Suc')
  moreover have "ntohl_at off (data @ r) = ntohl_at off data" if "off \<le> 4" for off r
    using True that by (simp add: ntohl_at_def)
  ultimately show ?thesis
    using True by (simp add: probe_format_def is_qcow2_def qcow2_header_size_def QCOW_MAGIC_def)
next
  case False
  then show ?thesis by (simp add: probe_format_def is_qcow2_def qcow2_header_size_def)
qed

theorem probe_detects_qcow2_witness:
  "fi_format (probe_format ([0x51, 0x46, 0x49, 0xfb, 0, 0, 0, 3] @ zeros 504) \<lparr>fi_format = [], fi_fs_name = None\<rparr>) = ''qcow2''"
  using probe_detects_qcow2 [of "[0x51, 0x46, 0x49, 0xfb, 0, 0, 0, 3] @ zeros 504"]
  by (simp add: PROBE_SIZE_def ntohl_at_def)

end
