(* ===== verification/Progress.thy ===== *)
theory Progress
  imports Prelude
begin

text \<open>
  The progress bar, \<^verbatim>\<open>bin/progress.c\<close>. The percentage, \<^verbatim>\<open>(double)done / (double)size * 100\<close> cut to an
  \<^verbatim>\<open>int\<close>, is a parameter of which only the range is used.
\<close>

definition WIDTH :: int where
  "WIDTH = 50"

record progress =
  pr_size :: int
  pr_done :: int
  pr_value :: int

definition draw_bar :: "int \<Rightarrow> int \<Rightarrow> string option" where
  "draw_bar done1 sz = do {
     assert_that (0 \<le> done1 \<and> done1 \<le> sz);
     Some (replicate (nat done1) (CHR ''|'') @ replicate (nat (sz - done1)) (CHR '' ''))
   }"

text \<open>\<^verbatim>\<open>progress_draw\<close>: the percentage and the bar it prints; C divides towards zero.\<close>

definition progress_draw :: "progress \<Rightarrow> (int \<times> string) option" where
  "progress_draw p = do {
     let n = pr_value p * WIDTH;
     bar \<leftarrow> draw_bar (if n < 0 then - ((- n) div 100) else n div 100) WIDTH;
     Some (pr_value p, bar)
   }"

definition progress_init :: "int \<Rightarrow> progress" where
  "progress_init sz = \<lparr>pr_size = sz, pr_done = 0, pr_value = - 1\<rparr>"

definition progress_update ::
    "(int \<Rightarrow> int \<Rightarrow> int) \<Rightarrow> int \<Rightarrow> progress \<Rightarrow> ((int \<times> string) option \<times> progress) option" where
  "progress_update percent len p = do {
     let p = p\<lparr>pr_done := min (pr_done p + len) (pr_size p)\<rparr>;
     let value = percent (pr_done p) (pr_size p);
     if value > pr_value p then do {
       let p = p\<lparr>pr_value := value\<rparr>;
       line \<leftarrow> progress_draw p;
       Some (Some line, p)
     } else Some (None, p)
   }"

fun progress_updates ::
    "(int \<Rightarrow> int \<Rightarrow> int) \<Rightarrow> int list \<Rightarrow> progress \<Rightarrow> ((int \<times> string) list \<times> progress) option" where
  "progress_updates percent [] p = Some ([], p)"
| "progress_updates percent (len # lens) p = do {
     (line, p) \<leftarrow> progress_update percent len p;
     (rest, p) \<leftarrow> progress_updates percent lens p;
     Some (case line of None \<Rightarrow> rest | Some l \<Rightarrow> l # rest, p)
   }"

section \<open>Properties\<close>

definition percent_ok :: "(int \<Rightarrow> int \<Rightarrow> int) \<Rightarrow> bool" where
  "percent_ok percent \<longleftrightarrow> (\<forall>n sz. 0 \<le> n \<and> n \<le> sz \<and> 0 < sz \<longrightarrow> 0 \<le> percent n sz \<and> percent n sz \<le> 100)"

lemma draw_ok:
  assumes "0 \<le> v" and "v \<le> 100"
  shows "\<exists>bar. progress_draw (p\<lparr>pr_value := v\<rparr>) = Some (v, bar) \<and> length bar = 50"
proof -
  have "0 \<le> v * 50 div 100" "v * 50 div 100 \<le> 50" using assms by (simp, linarith)
  then show ?thesis
    using assms by (simp add: progress_draw_def draw_bar_def assert_that_def WIDTH_def Let_def)
qed

lemma progress_update_ok:
  assumes "percent_ok percent" and "0 < pr_size p" and "0 \<le> pr_done p" and "0 \<le> len"
  shows "\<exists>line p'. progress_update percent len p = Some (line, p') \<and> pr_size p' = pr_size p \<and>
    0 \<le> pr_done p' \<and> pr_done p' \<le> pr_size p \<and>
    (case line of
       None \<Rightarrow> pr_value p' = pr_value p
     | Some (v, bar) \<Rightarrow> pr_value p < v \<and> v = pr_value p' \<and> v \<le> 100 \<and> length bar = 50)"
proof -
  let ?d = "min (pr_done p + len) (pr_size p)" and ?v = "percent (min (pr_done p + len) (pr_size p)) (pr_size p)"
  have d: "0 \<le> ?d" "?d \<le> pr_size p" using assms by simp_all
  then have v: "0 \<le> ?v" "?v \<le> 100" using assms(1,2) unfolding percent_ok_def by blast+
  obtain bar where "progress_draw (p\<lparr>pr_done := ?d\<rparr>\<lparr>pr_value := ?v\<rparr>) = Some (?v, bar)" "length bar = 50"
    using draw_ok [OF v] by blast
  then show ?thesis
    using d v by (cases "?v > pr_value p") (simp_all add: progress_update_def Let_def)
qed

lemma progress_updates_ok:
  assumes "percent_ok percent" and "0 < pr_size p" and "0 \<le> pr_done p" and "\<forall>len\<in>set lens. 0 \<le> len"
  shows "\<exists>out p'. progress_updates percent lens p = Some (out, p') \<and> sorted_wrt (<) (map fst out) \<and>
    (\<forall>(v, bar)\<in>set out. pr_value p < v \<and> v \<le> 100 \<and> length bar = 50)"
  using assms(2-)
proof (induction lens arbitrary: p)
  case (Cons len lens)
  obtain line p1 where p1: "progress_update percent len p = Some (line, p1)" "pr_size p1 = pr_size p"
      "0 \<le> pr_done p1"
      "case line of None \<Rightarrow> pr_value p1 = pr_value p
       | Some (v, bar) \<Rightarrow> pr_value p < v \<and> v = pr_value p1 \<and> v \<le> 100 \<and> length bar = 50"
    using progress_update_ok [OF assms(1) Cons.prems(1,2), of len] Cons.prems(3) by auto
  obtain out p2 where p2: "progress_updates percent lens p1 = Some (out, p2)" "sorted_wrt (<) (map fst out)"
      "\<forall>(v, bar)\<in>set out. pr_value p1 < v \<and> v \<le> 100 \<and> length bar = 50"
    using Cons.IH [of p1] p1(2,3) Cons.prems by auto
  show ?case
    using p1 p2 by (cases line) (auto 0 4)
qed simp



end
