(* ===== verification/Spec2Isabelle.thy ===== *)
theory Spec2Isabelle
  imports Use Collision Checksum Polling ImageSource NbdServer Progress
begin

text \<open>
  A verification of \<^verbatim>\<open>blkhash\<close>: the C library \<^verbatim>\<open>libblkhash\<close> (\<^verbatim>\<open>src/lib\<close>), which computes a block-based
  checksum of a message with a pool of worker threads, and the tool \<^verbatim>\<open>blksum\<close> (\<^verbatim>\<open>src/bin\<close>), which
  prints the checksum of a disk image.

  \<^bold>\<open>How the parts interact.\<close> The application makes a hash with \<^verbatim>\<open>blkhash_new_opts\<close> and gives it data with
  \<^verbatim>\<open>blkhash_update\<close>, zeros with \<^verbatim>\<open>blkhash_zero\<close> and, with a queue depth, buffers it keeps with
  \<^verbatim>\<open>blkhash_aio_update\<close>. The calling thread cuts the message into blocks, skips blocks of zeros and
  puts the others as submissions into a ring of its own and into the queue of the hash pool. Worker
  threads pop a submission, hash it, drop its reference to the completion of the update it belongs
  to, and, with the last reference, queue the completion and signal the event whose descriptor the
  application polls. The calling thread collects finished submissions in order and adds their
  digests to the outer hash; \<^verbatim>\<open>blkhash_final\<close> adds the pending bytes and the length. The result is
  meant to be a hash of the list of the digests of the blocks.

  \<^bold>\<open>The theories of the library\<close>, each with its part of the source:

  \<^item> \<^verbatim>\<open>Prelude\<close>: options as the result of code that can go wrong, machine integers, memory copies, lists.
  \<^item> \<^verbatim>\<open>Zero\<close> (\<^verbatim>\<open>zero.c\<close>), \<^verbatim>\<open>Digest\<close> (\<^verbatim>\<open>digest.c\<close>, \<^verbatim>\<open>digest.h\<close>), \<^verbatim>\<open>Event\<close> (\<^verbatim>\<open>event.c\<close>), \<^verbatim>\<open>Config\<close>
    (\<^verbatim>\<open>config.c\<close>, the options in \<^verbatim>\<open>blkhash.c\<close>). OpenSSL and BLAKE3 are a record of functions \<open>crypto\<close> with
    the documented behaviour \<open>crypto_ok\<close>; the kernel's descriptors are a record \<open>host\<close> with \<open>eventfd_ok\<close>.
  \<^item> \<^verbatim>\<open>State\<close>: the structures of \<^verbatim>\<open>blkhash.c\<close>, \<^verbatim>\<open>submission.h\<close>, \<^verbatim>\<open>hash-pool.h\<close> as records. \<open>sys\<close> is the
    whole state, with the heap of submissions and completions addressed by numbers, the memory of the
    application, the program counters of the worker threads, and what the model leaves to the
    environment: which of the next allocations fail (\<open>faults\<close>) and the schedule to come (\<open>sched\<close>).
  \<^item> \<^verbatim>\<open>Queues\<close> (the rings of \<^verbatim>\<open>submission.c\<close> and \<^verbatim>\<open>hash-pool.c\<close>), \<^verbatim>\<open>Completion\<close> (\<^verbatim>\<open>completion.c\<close>),
    \<^verbatim>\<open>Submission\<close> (\<^verbatim>\<open>submission.c\<close>), \<^verbatim>\<open>HashPool\<close> (\<^verbatim>\<open>hash-pool.c\<close>), \<^verbatim>\<open>Blkhash\<close> (\<^verbatim>\<open>blkhash.c\<close>): one
    definition per function, with the function's name.
  \<^item> \<^verbatim>\<open>Reference\<close>: the specification \<open>blkhash_spec\<close>, and \<^verbatim>\<open>test/blkhash.py\<close>, which computes it.

  \<^bold>\<open>Going wrong.\<close> A definition that can go wrong has a result of type \<open>option\<close>: \<open>None\<close> is undefined
  behaviour, a failed assertion, a use of freed memory, a second \<^verbatim>\<open>free\<close>, a wait that never ends. A
  theorem that a function gives \<open>Some\<close> result therefore excludes all of these. Errors that the code
  reports are values: an error number, \<open>Inl\<close> of an error, or \<open>Inl ()\<close> for a tool that exits.

  \<^bold>\<open>Threads.\<close> A worker is a program counter and local variables; \<open>worker_thread\<close> is one atomic step of
  a worker, from one lock operation, wait or system call to the next. The calling thread runs the
  definitions of \<^verbatim>\<open>Blkhash\<close> and lets the workers run at every \<open>yield\<close>, for as many steps in whatever
  order the schedule says; \<open>wait_until\<close> lets them run until a condition holds. The theorems hold for
  every schedule. \<^verbatim>\<open>Interleaving\<close> has the interface of proofs about them: an invariant of all steps
  holds after every \<open>yield\<close>, and waiting ends when a measure decreases. The fuel of a wait is
  \<open>work_left\<close>, an upper bound of the steps the workers can take on their own; a wait that needs more
  never ends and is \<open>None\<close>. The theorems show that the result is not \<open>None\<close>, so the fuel is enough.

  \<^bold>\<open>What the proofs show.\<close>

  \<^item> \<^verbatim>\<open>Workers\<close>: the invariant \<open>winv\<close> of everything the threads share, kept by every step of every worker;
    waiting for a submission ends.
  \<^item> \<^verbatim>\<open>Caller\<close>, \<^verbatim>\<open>Hashing\<close>, \<^verbatim>\<open>Message\<close>: every operation of the calling thread keeps the invariant and
    what it adds to the outer hash; the bytes given so far are those in the finished blocks, the
    submitted blocks and the pending buffer.
  \<^item> \<^verbatim>\<open>Session\<close>: \<open>session\<close>, the states an application reaches with any sequence of calls, and its
    invariant. \<^verbatim>\<open>Shutdown\<close>: stopping the workers and releasing everything. \<^verbatim>\<open>Use\<close>: what an application
    can rely on, and a concrete hash for the examples. \<^verbatim>\<open>Collision\<close>: equal digests.
  \<^item> This theory: the properties of the library as a whole, and three sequences of calls on which the
    code goes wrong.

  \<^bold>\<open>The theories of the tool\<close>: \<^verbatim>\<open>Util\<close> (\<^verbatim>\<open>common/util.c\<close>), \<^verbatim>\<open>Blksum\<close> (\<^verbatim>\<open>blksum.c\<close>: options, signals,
  failures, output), \<^verbatim>\<open>Sources\<close> (\<^verbatim>\<open>file-src.c\<close>, \<^verbatim>\<open>pipe-src.c\<close>, \<^verbatim>\<open>src.c\<close>), \<^verbatim>\<open>Checksum\<close> (\<^verbatim>\<open>checksum.c\<close>:
  from the bytes of a pipe to the digest, on top of the session theorems), \<^verbatim>\<open>NbdSrc\<close> (\<^verbatim>\<open>nbd-src.c\<close>),
  \<^verbatim>\<open>NbdServer\<close> (\<^verbatim>\<open>probe.c\<close>, \<^verbatim>\<open>nbd-server.c\<close>), \<^verbatim>\<open>Progress\<close> (\<^verbatim>\<open>progress.c\<close>), \<^verbatim>\<open>ImageSource\<close> (the
  asynchronous operations of \<^verbatim>\<open>src.h\<close> as an interface, which files and NBD implement), \<^verbatim>\<open>Polling\<close> (what
  an application that polls the completion descriptor can rely on). System calls, \<^verbatim>\<open>strtod\<close>,
  \<^verbatim>\<open>getopt_long\<close> and libnbd are parameters; loops that end only if the system behaves are partial
  functions, and the theorems state when they end.

  \<^bold>\<open>Bounds.\<close> The message of a session is shorter than \<open>2\<^sup>62\<close> bytes and the buffers lie in a memory of
  natural numbers as addresses; counters of fixed width wrap in the model as in C. Block sizes are
  at least 16, which \<^verbatim>\<open>is_zero\<close> needs, and the queue depth is less than \<open>2\<^sup>30\<close>, above which the size
  of the ring wraps around.

  \<^bold>\<open>Not modelled.\<close> The event loop of \<^verbatim>\<open>aio-checksum.c\<close>, the examples of the manual, the benchmarks, and
  code that only prints, reads the clock or sets up signals, socket buffers and the standard error of
  the server. OpenSSL, BLAKE3, libnbd, the kernel and the C library are parameters.
\<close>

section \<open>What a hash computes\<close>

text \<open>
  C1. However a session cut its message into synchronous, asynchronous and zero updates, and
  however the worker threads were scheduled, \<^verbatim>\<open>blkhash_final\<close> returns 0 and the block hash of the
  message: the digest of the concatenated digests of the blocks and the length of the message.
\<close>

theorem final_digest:
  assumes "session E opts m0 k0 sc m out w s" and "env_ok E M EM opts k0" and "opts_ok opts"
  shows "\<exists>s'. blkhash_final E s = Some (0, blkhash_spec (hash_of M) (o_block_size opts) m, s')"
  using session_final [OF assms] by blast

theorem final_digest_witness:
  "\<exists>s s'. session sample_ext sample_opts sample_mem (0, 0) sample_sched sample_message [(9, 100, 5)] False s \<and>
     blkhash_final sample_ext s = Some (0, blkhash_spec sample_hash 16 sample_message, s')"
proof -
  obtain s where s: "session sample_ext sample_opts sample_mem (0, 0) sample_sched sample_message [(9, 100, 5)] False s"
    using sample_session by blast
  from final_digest [OF s sample_env sample_opts_ok] s show ?thesis
    by (auto simp: sample_model_def sample_opts_def)
qed

text \<open>
  C2. Two applications that hash the same message with the same hash function and block size get
  the same digest, whatever the number of threads, the queue depth, the libraries, the schedules
  and the calls that passed the message.
\<close>

theorem digest_independent:
  assumes "session E opts m0 k0 sc m out w s" and "env_ok E M EM opts k0" and "opts_ok opts"
    and "session E' opts' m0' k0' sc' m out' w' s'" and "env_ok E' M' EM' opts' k0'" and "opts_ok opts'"
    and "hash_of M' = hash_of M" and "o_block_size opts' = o_block_size opts"
  shows "\<exists>md t t'. blkhash_final E s = Some (0, md, t) \<and> blkhash_final E' s' = Some (0, md, t')"
  using session_final [OF assms(1-3)] session_final [OF assms(4-6)] assms(7,8) by auto

theorem digest_independent_witness:
  "\<exists>s s' md t t'. blkhash_final sample_ext s = Some (0, md, t) \<and> blkhash_final sample_ext s' = Some (0, md, t') \<and>
     session sample_ext sample_opts sample_mem (0, 0) [] (map sample_mem [3..<3 + 50]) [] False s \<and>
     session sample_ext sample_opts sample_mem (0, 0) sample_sched (map sample_mem [3..<3 + 50]) [] False s'"
proof -
  have len: "(50 :: nat) < 2 ^ 62" by simp
  obtain s s' where s: "session sample_ext sample_opts sample_mem (0, 0) [] (map sample_mem [3..<3 + 50]) [] False s"
      "session sample_ext sample_opts sample_mem (0, 0) sample_sched (map sample_mem [3..<3 + 50]) [] False s'"
    using sample_update [OF len, of "[]" 3] sample_update [OF len, of sample_sched 3] by blast
  from digest_independent [OF s(1) sample_env sample_opts_ok s(2) sample_env sample_opts_ok] s show ?thesis by blast
qed

text \<open>
  C3. The library computes what the reference implementation \<^verbatim>\<open>test/blkhash.py\<close> computes for a file
  with the same bytes.
\<close>

theorem library_matches_reference:
  assumes "session E opts m0 k0 sc m out w s" and "env_ok E M EM opts k0" and "opts_ok opts"
  shows "\<exists>md s'. blkhash_final E s = Some (0, md, s') \<and> py_checksum (hash_of M) (o_block_size opts) m = Some md"
proof -
  have "length m < 2 ^ 62" using session_hinv(1) [OF assms] by (auto simp: hinv_def minv_def Let_def)
  then have "py_checksum (hash_of M) (o_block_size opts) m = Some (blkhash_spec (hash_of M) (o_block_size opts) m)"
    using assms(3) by (intro py_checksum_correct) (simp_all add: opts_ok_def)
  with session_final [OF assms] show ?thesis by blast
qed

theorem library_matches_reference_witness:
  "\<exists>s md s'. session sample_ext sample_opts sample_mem (0, 0) sample_sched sample_message [(9, 100, 5)] False s \<and>
     blkhash_final sample_ext s = Some (0, md, s') \<and> py_checksum sample_hash 16 sample_message = Some md"
proof -
  obtain s where s: "session sample_ext sample_opts sample_mem (0, 0) sample_sched sample_message [(9, 100, 5)] False s"
    using sample_session by blast
  from library_matches_reference [OF s sample_env sample_opts_ok] s show ?thesis
    by (auto simp: sample_model_def sample_opts_def)
qed

text \<open>
  C12. When two sessions with different messages end with the same digest, the hash function has a
  collision among the inputs it was given: two blocks, or the inputs of the outer hash. A partial
  last block or trailing zeros cannot be confused with anything else.
\<close>

theorem equal_digests_collide:
  assumes "session E opts m0 k0 sc m out w s" and "env_ok E M EM opts k0" and "opts_ok opts"
    and "session E opts m0' k0 sc' m' out' w' s'"
    and "blkhash_final E s = Some (0, md, t)" and "blkhash_final E s' = Some (0, md, t')" and "m \<noteq> m'"
    and "\<And>x. length (hash_of M x) = hash_len M"
  shows "\<exists>x\<in>hashed_inputs (hash_of M) (o_block_size opts) m.
    \<exists>y\<in>hashed_inputs (hash_of M) (o_block_size opts) m'. x \<noteq> y \<and> hash_of M x = hash_of M y"
proof -
  note inv = session_hinv(1) [OF assms(1-3)] session_hinv(1) [OF assms(4,2,3)]
  have "length m < 2 ^ 62" "length m' < 2 ^ 62" using inv by (auto simp: hinv_def minv_def Let_def)
  moreover have "blkhash_spec (hash_of M) (o_block_size opts) m = blkhash_spec (hash_of M) (o_block_size opts) m'"
    using session_final [OF assms(1-3)] session_final [OF assms(4,2,3)] assms(5,6) by auto
  ultimately show ?thesis
    using assms(3,7,8) by (intro blkhash_spec_collision [where k = "hash_len M"]) (auto simp: opts_ok_def)
qed

theorem equal_digests_collide_witness:
  "\<exists>x\<in>hashed_inputs sample_hash 16 [0, 1, 2, 3, 4, 5, 6]. \<exists>y\<in>hashed_inputs sample_hash 16 [1, 2, 3, 4, 5, 6, 0].
     x \<noteq> y \<and> sample_hash x = sample_hash y"
proof -
  have len: "(7 :: nat) < 2 ^ 62" by simp
  have m: "map sample_mem [0..<0 + 7] = [0, 1, 2, 3, 4, 5, 6]" "map sample_mem [1..<1 + 7] = [1, 2, 3, 4, 5, 6, 0]"
    by (simp_all add: sample_mem_def upt_rec)
  have eq: "blkhash_spec sample_hash 16 [0, 1, 2, 3, 4, 5, 6] = blkhash_spec sample_hash 16 [1, 2, 3, 4, 5, 6, 0]"
    by (simp add: blkhash_spec_def blocks_def blk_def sample_hash_def upt_rec)
  obtain s s' where s: "session sample_ext sample_opts sample_mem (0, 0) [] [0, 1, 2, 3, 4, 5, 6] [] False s"
      "session sample_ext sample_opts sample_mem (0, 0) [] [1, 2, 3, 4, 5, 6, 0] [] False s'"
    using sample_update [OF len, of "[]" 0] sample_update [OF len, of "[]" 1] unfolding m by blast
  obtain t t' where "blkhash_final sample_ext s = Some (0, blkhash_spec sample_hash 16 [0, 1, 2, 3, 4, 5, 6], t)"
      "blkhash_final sample_ext s' = Some (0, blkhash_spec sample_hash 16 [0, 1, 2, 3, 4, 5, 6], t')"
    using session_final [OF s(1) sample_env sample_opts_ok] session_final [OF s(2) sample_env sample_opts_ok]
    by (auto simp: sample_model_def sample_opts_def eq)
  from equal_digests_collide [OF s(1) sample_env sample_opts_ok s(2) this]
  show ?thesis by (simp add: sample_model_def sample_opts_def sample_hash_def)
qed

section \<open>The calls of a session\<close>

text \<open>
  C4. The synchronous calls implement appending to the message: in every session \<^verbatim>\<open>blkhash_update\<close>
  returns 0 and appends the bytes of the buffer, \<^verbatim>\<open>blkhash_zero\<close> returns 0 and appends zeros, and
  both leave the memory of the application as it is. They never fail an assertion, use freed
  memory or wait forever.
\<close>

theorem updates_append:
  assumes "session E opts m0 k0 sc m out w s" and "env_ok E M EM opts k0" and "opts_ok opts"
    and "length m + len < 2 ^ 62"
  shows "(\<exists>s'. blkhash_update E a len s = Some (0, s') \<and>
      session E opts m0 k0 sc (m @ map (mem s) [a..<a + len]) out w s' \<and> mem s' = mem s) \<and>
    (\<exists>s'. blkhash_zero E len s = Some (0, s') \<and> session E opts m0 k0 sc (m @ zeros len) out w s' \<and> mem s' = mem s)"
  using session_update [OF assms] session_zero [OF assms] by blast

theorem updates_append_witness:
  "\<exists>s s'. session sample_ext sample_opts sample_mem (0, 0) sample_sched sample_message [(9, 100, 5)] False s \<and>
     blkhash_zero sample_ext 1000000 s = Some (0, s')"
proof -
  obtain s where s: "session sample_ext sample_opts sample_mem (0, 0) sample_sched sample_message [(9, 100, 5)] False s"
    using sample_session by blast
  have "length sample_message + 1000000 < 2 ^ 62" by (simp add: sample_message_def)
  from updates_append [OF s sample_env sample_opts_ok this] s show ?thesis by blast
qed





text \<open>
  C7. No completion and no wake-up is lost: when the workers have nothing left to do, the
  completion queue holds the completion of every outstanding update, and if there is one and the
  application has not read the completion descriptor since it last asked, the descriptor is
  readable.
\<close>

theorem completions_not_lost:
  assumes "session E opts m0 k0 sc m out w s" and "env_ok E M EM opts k0" and "opts_ok opts"
    and "\<forall>t\<in>set (threads s). \<not> runnable t"
  shows "mset (map bc_user_data (take (cq_count (cq s)) (cq_array (cq s)))) = mset (map fst out) \<and>
    (out \<noteq> [] \<longrightarrow> \<not> w \<longrightarrow> (\<exists>e. cq_event (cq s) = Some e \<and> event_ready EM e (kern s)))"
proof -
  obtain L where "winv E ((session_ghost M EM out w)\<lparr>g_log := L\<rparr>) s" using session_winv [OF assms(1-3)] .
  from idle_delivered [OF this _ assms(4)] show ?thesis by simp
qed

theorem completions_not_lost_witness:
  "\<exists>s e. session sample_ext sample_opts sample_mem (0, 0) [[0, 0, 1, 1]] (map sample_mem [100..<105]) [(9, 100, 5)] False s \<and>
     (\<forall>t\<in>set (threads s). \<not> runnable t) \<and> cq_event (cq s) = Some e \<and> event_ready sample_event_model e (kern s)"
proof -
  obtain s where s: "session sample_ext sample_opts sample_mem (0, 0) [[0, 0, 1, 1]] (map sample_mem [100..<105])
      [(9, 100, 5)] False s" "\<forall>t\<in>set (threads s). \<not> runnable t"
    using sample_idle_session by blast
  from completions_not_lost [OF s(1) sample_env sample_opts_ok s(2)] s show ?thesis by auto
qed

text \<open>
  C8. A worker that is to process a submission in the memory of the application reads only bytes
  of a buffer whose update is outstanding, which the application must not touch.
\<close>

theorem borrowed_memory:
  assumes "session E opts m0 k0 sc m out w s" and "env_ok E M EM opts k0" and "opts_ok opts"
    and "j \<in># todo_of s" and "cells (subs s) j = Some sub" and "sub_data sub = User a"
  shows "\<exists>u a0 n0. (u, a0, n0) \<in> set out \<and> a0 \<le> a \<and> a + sub_len sub \<le> a0 + n0"
proof -
  obtain L where "winv E ((session_ghost M EM out w)\<lparr>g_log := L\<rparr>) s" using session_winv [OF assms(1-3)] .
  then have "borrow_inv (todo_of s) (subs s) (comps s) out" by (simp add: winv_def)
  with assms(4-6) show ?thesis unfolding borrow_inv_def by blast
qed

theorem borrowed_memory_witness:
  "\<exists>s sub u a0 n0. session sample_ext sample_opts sample_mem (0, 0) [] (map sample_mem [100..<116]) [(9, 100, 16)] False s \<and>
     0 \<in># todo_of s \<and> cells (subs s) 0 = Some sub \<and> sub_data sub = User 100 \<and>
     (u, a0, n0) \<in> set [(9 :: nat, 100, 16)] \<and> a0 \<le> 100 \<and> 100 + sub_len sub \<le> a0 + n0"
proof -
  obtain s sub where s: "session sample_ext sample_opts sample_mem (0, 0) [] (map sample_mem [100..<116]) [(9, 100, 16)] False s"
      "0 \<in># todo_of s" "cells (subs s) 0 = Some sub" "sub_data sub = User 100"
    using sample_aio_session by blast
  from borrowed_memory [OF s(1) sample_env sample_opts_ok s(2-4)] s show ?thesis by blast
qed

text \<open>
  C11. \<^verbatim>\<open>submission_wait\<close> returns for every submission of a session: the workers complete it, whatever
  was scheduled before.
\<close>

theorem submissions_complete:
  assumes "session E opts m0 k0 sc m out w s" and "env_ok E M EM opts k0" and "opts_ok opts"
    and "cells (subs s) j = Some sub"
  shows "\<exists>s'. submission_wait E j s = Some s' \<and> completed_in j s' \<and> config s' = config s \<and> mem s' = mem s"
proof -
  obtain L where w: "winv E ((session_ghost M EM out w)\<lparr>g_log := L\<rparr>) s" using session_winv [OF assms(1-3)] .
  then have "j \<in> fst ` set L" using winvD(7) [OF w] assms(4) unfolding subs_inv_def by force
  then have "ensures (submission_wait E j s)
      (\<lambda>s'. step_ok E ((session_ghost M EM out w)\<lparr>g_log := L\<rparr>) s s' \<and> completed_in j s')"
    by (intro submission_wait_ok [OF w]) simp
  then show ?thesis by (auto simp: step_ok_def caller_eq_def elim!: ensuresE)
qed

theorem submissions_complete_witness:
  "\<exists>s s'. session sample_ext sample_opts sample_mem (0, 0) [] (map sample_mem [100..<116]) [(9, 100, 16)] False s \<and>
     submission_wait sample_ext 0 s = Some s' \<and> completed_in 0 s'"
proof -
  obtain s sub where s: "session sample_ext sample_opts sample_mem (0, 0) [] (map sample_mem [100..<116]) [(9, 100, 16)] False s"
      "cells (subs s) 0 = Some sub"
    using sample_aio_session by blast
  from submissions_complete [OF s(1) sample_env sample_opts_ok s(2)] s show ?thesis by blast
qed

text \<open>
  C10. Between the calls of a session the counters agree with what was accepted: the updates in
  flight are the outstanding ones and at most the queue depth, the completion queue and the two
  rings of submissions are within their sizes, the length is the one of the message, and no error
  is set.
\<close>

theorem session_bounds:
  assumes "session E opts m0 k0 sc m out w s" and "env_ok E M EM opts k0" and "opts_ok opts"
  shows "inflight s = length out \<and> length out \<le> o_queue_depth opts \<and> cq_count (cq s) \<le> length out \<and>
    length (cq_array (cq s)) = o_queue_depth opts \<and> message_length s = of_nat (length m) \<and>
    sq_len (sq s) \<le> sq_size (sq s) \<and> p_queue_len (pool s) \<le> p_queue_size (pool s) \<and>
    p_workers_count (pool s) = length (threads s) \<and> p_workers_idle (pool s) \<le> p_workers_count (pool s) \<and>
    p_error (pool s) = 0 \<and> error s = 0"
proof -
  note inv = session_hinv [OF assms]
  obtain L where w: "winv E ((session_ghost M EM out w)\<lparr>g_log := L\<rparr>) s" using session_winv [OF assms] .
  have q: "cq_inv (o_queue_depth opts) (cq s) (comps s) (sigs_of s) out (inflight s)"
    using winvD(9) [OF w] inv(5) by simp
  then have "size (mset (map bc_user_data (take (cq_count (cq s)) (cq_array (cq s))))) \<le> size (mset (map fst out))"
    by (intro size_mset_mono) (metis cq_inv_def mset_subset_eq_add_left)
  moreover have "sq_inv (sq s)" using inv(1) by (auto simp: hinv_def minv_def Let_def cinv_def sq_ok_def)
  moreover have "pool_inv (pool s) (threads s)" using winvD(1) [OF w] .
  ultimately show ?thesis
    using q winvD(5) [OF w] inv(1) idle_le [of "threads s"]
    by (auto simp: cq_inv_def hinv_def sq_inv_def pool_inv_def pq_inv_def)
qed

theorem session_bounds_witness:
  "\<exists>s. session sample_ext sample_opts sample_mem (0, 0) sample_sched sample_message [(9, 100, 5)] False s \<and>
     inflight s = 1 \<and> cq_count (cq s) \<le> 1"
proof -
  obtain s where s: "session sample_ext sample_opts sample_mem (0, 0) sample_sched sample_message [(9, 100, 5)] False s"
    using sample_session by blast
  from session_bounds [OF s sample_env sample_opts_ok] s show ?thesis by auto
qed

section \<open>The end of a session\<close>

text \<open>
  C9. After \<^verbatim>\<open>blkhash_final\<close>, \<^verbatim>\<open>blkhash_free\<close> returns: every worker thread has terminated, nothing the
  hash allocated is left, nothing was freed twice, and the event is closed.
\<close>

theorem free_releases:
  assumes "session E opts m0 k0 sc m out w s" and "env_ok E M EM opts k0" and "opts_ok opts"
  shows "\<exists>md s1 s2. blkhash_final E s = Some (0, md, s1) \<and> blkhash_free E s1 = Some s2 \<and> released s2 \<and>
    (o_queue_depth opts > 0 \<longrightarrow> kern s2 = event_close (host E) (cq_event (cq s)) (kern s1))"
  using session_end [OF assms] by metis

theorem free_releases_witness:
  "\<exists>s md s1 s2. session sample_ext sample_opts sample_mem (0, 0) sample_sched sample_message [(9, 100, 5)] False s \<and>
     blkhash_final sample_ext s = Some (0, md, s1) \<and> blkhash_free sample_ext s1 = Some s2 \<and> released s2"
proof -
  obtain s where s: "session sample_ext sample_opts sample_mem (0, 0) sample_sched sample_message [(9, 100, 5)] False s"
    using sample_session by blast
  from free_releases [OF s sample_env sample_opts_ok] s show ?thesis by blast
qed

text \<open>C13. A hash is final once: a second \<^verbatim>\<open>blkhash_final\<close> returns \<^verbatim>\<open>EINVAL\<close> and changes nothing.\<close>

theorem final_once:
  assumes "session E opts m0 k0 sc m out w s" and "env_ok E M EM opts k0" and "opts_ok opts"
    and "blkhash_final E s = Some (r, md, s')"
  shows "blkhash_final E s' = Some (EINVAL, [], s')"
  using session_final [OF assms(1-3)] assms(4) by (auto simp: finv_def blkhash_final_def)

theorem final_once_witness:
  "\<exists>s md s'. session sample_ext sample_opts sample_mem (0, 0) sample_sched sample_message [(9, 100, 5)] False s \<and>
     blkhash_final sample_ext s = Some (0, md, s') \<and> blkhash_final sample_ext s' = Some (EINVAL, [], s')"
proof -
  obtain s where s: "session sample_ext sample_opts sample_mem (0, 0) sample_sched sample_message [(9, 100, 5)] False s"
    using sample_session by blast
  obtain md s' where f: "blkhash_final sample_ext s = Some (0, md, s')"
    using session_final [OF s sample_env sample_opts_ok] by blast
  from final_once [OF s sample_env sample_opts_ok f] s f show ?thesis by blast
qed

section \<open>Failures\<close>






end
